(* ===== verification/Prelude.thy ===== *)
theory Prelude
  imports Complex_Main "HOL-Library.AList" "HOL-Library.Multiset"
begin

text \<open>
  Shared vocabulary of the development: Go's 64-bit integers, Go's maps as association lists, run-time
  panics as values, and the list and sorting lemmas that several components use. Nothing here models a
  line of the repository; the definitions are the parts of the Go language that the components need.
\<close>

named_theorems go_int \<open>facts that remove the wrap-around of machine integers that are in range\<close>
named_theorems go_map \<open>lookup and update laws of Go maps\<close>
named_theorems inv_intro \<open>the operations of a component keep its invariant\<close>

section \<open>Panics\<close>

text \<open>
  A Go statement that would stop the goroutine with a run-time panic makes the model return
  \<open>Inl\<close> of the panic, so that the absence of panics is something to be proved.
\<close>

datatype go_panic = IndexOutOfRange | NilDereference | CloseOfClosedChannel

section \<open>Sending under a context\<close>

text \<open>
  \<open>select { case <-ctx.Done(): return ctx.Err(); case ch <- value: return nil }\<close>: the channel is the list
  of what has been sent on it; \<open>c n\<close> says that the \<open>select\<close> after \<open>n\<close> successful sends takes the first
  branch. Nothing is assumed about \<open>c\<close>: both branches may be ready, and then Go chooses.
\<close>

datatype ctx_err = CtxErr

definition chan_send :: "(nat \<Rightarrow> bool) \<Rightarrow> 'a list \<Rightarrow> 'a \<Rightarrow> 'a list option" where
  "chan_send c ch value = (if c (length ch) then None else Some (ch @ [value]))"

section \<open>Machine integers\<close>

text \<open>
  \<open>int\<close> and \<open>int64\<close> are 64-bit two's complement on the platforms the services are built for. The
  model keeps them as mathematical integers and writes the wrap-around out at every arithmetic
  operation that the code performs: \<open>i64 x\<close> is the value the machine stores for the exact result
  \<open>x\<close>. \<open>u64\<close> is the same for \<open>uint64\<close>.
\<close>

definition i64 :: "int \<Rightarrow> int" where
  "i64 x = (x + 2 ^ 63) mod 2 ^ 64 - 2 ^ 63"

definition u64 :: "int \<Rightarrow> int" where
  "u64 x = x mod 2 ^ 64"

definition in_i64 :: "int \<Rightarrow> bool" where
  "in_i64 x \<longleftrightarrow> - (2 ^ 63) \<le> x \<and> x < 2 ^ 63"

text \<open>A \<open>time.Duration\<close> counts nanoseconds.\<close>

definition go_second :: int where
  "go_second = 1000000000"

lemma i64_id [go_int]: "in_i64 x \<Longrightarrow> i64 x = x"
  by (simp add: in_i64_def i64_def)

lemma in_i64_i64 [simp, intro]: "in_i64 (i64 x)"
  using pos_mod_bound[of "2 ^ 64" "x + 2 ^ 63"] pos_mod_sign[of "2 ^ 64" "x + 2 ^ 63"]
  by (simp add: in_i64_def i64_def)

lemma i64_zero [simp]: "i64 0 = 0"
  by (simp add: i64_def)

lemma i64_i64 [simp]: "i64 (i64 x) = i64 x"
  by (rule i64_id) simp

lemma i64_add_left [simp]: "i64 (i64 x + y) = i64 (x + y)"
proof -
  have "i64 x + y + 2 ^ 63 = (x + 2 ^ 63) mod 2 ^ 64 + y"
    by (simp add: i64_def)
  then have "(i64 x + y + 2 ^ 63) mod 2 ^ 64 = (x + y + 2 ^ 63) mod 2 ^ 64"
    by (simp only: mod_add_left_eq) (simp add: ac_simps)
  then show ?thesis
    by (simp only: i64_def[of "i64 x + y"] i64_def[of "x + y"])
qed

lemma i64_add_right [simp]: "i64 (x + i64 y) = i64 (x + y)"
  using i64_add_left[of y x] by (simp only: add.commute)

lemma in_i64_mono: "in_i64 x \<Longrightarrow> 0 \<le> y \<Longrightarrow> y \<le> x \<Longrightarrow> in_i64 y"
  by (simp add: in_i64_def)

lemma in_i64_between: "in_i64 x \<Longrightarrow> in_i64 z \<Longrightarrow> x \<le> y \<Longrightarrow> y \<le> z \<Longrightarrow> in_i64 y"
  by (simp add: in_i64_def)

section \<open>Replies\<close>

record 'a http_reply =
  hr_status :: int
  hr_body :: 'a

section \<open>Maps\<close>

text \<open>
  A Go map that the code iterates over is an association list without repeated keys: the list order is
  the order of first insertion, and every loop over a map takes the order of its iteration as an
  explicit argument, since Go leaves it open. A map that is only looked up and updated is a HOL map.
\<close>

type_synonym ('k, 'v) gomap = "('k \<times> 'v) list"

abbreviation gm_keys :: "('k, 'v) gomap \<Rightarrow> 'k list" where
  "gm_keys m \<equiv> map fst m"

definition gm_get :: "('k, 'v) gomap \<Rightarrow> 'k \<Rightarrow> 'v option" where
  "gm_get m k = map_of m k"

definition gm_put :: "'k \<Rightarrow> 'v \<Rightarrow> ('k, 'v) gomap \<Rightarrow> ('k, 'v) gomap" where
  "gm_put k v m = AList.update k v m"

definition gm_del :: "'k \<Rightarrow> ('k, 'v) gomap \<Rightarrow> ('k, 'v) gomap" where
  "gm_del k m = filter (\<lambda>e. fst e \<noteq> k) m"

definition gm_wf :: "('k, 'v) gomap \<Rightarrow> bool" where
  "gm_wf m \<longleftrightarrow> distinct (gm_keys m)"

lemma gm_get_empty [simp]: "gm_get [] k = None"
  by (simp add: gm_get_def)

lemma gm_get_put [go_map, simp]: "gm_get (gm_put k v m) k' = (if k' = k then Some v else gm_get m k')"
  by (simp add: gm_get_def gm_put_def update_conv')

lemma gm_get_del [go_map, simp]: "gm_get (gm_del k m) k' = (if k' = k then None else gm_get m k')"
  by (induction m) (auto simp: gm_get_def gm_del_def)

lemma gm_wf_empty [simp]: "gm_wf []"
  by (simp add: gm_wf_def)

lemma gm_wf_put [simp, inv_intro]: "gm_wf m \<Longrightarrow> gm_wf (gm_put k v m)"
  by (simp add: gm_wf_def gm_put_def distinct_update)

lemma gm_wf_del [simp, inv_intro]: "gm_wf m \<Longrightarrow> gm_wf (gm_del k m)"
  by (induction m) (auto simp: gm_wf_def gm_del_def)

lemma gm_keys_put [go_map]:
  "gm_keys (gm_put k v m) = (if k \<in> set (gm_keys m) then gm_keys m else gm_keys m @ [k])"
  by (simp add: gm_put_def update_keys)

lemma gm_keys_del [go_map]: "gm_keys (gm_del k m) = filter (\<lambda>k'. k' \<noteq> k) (gm_keys m)"
  by (induction m) (auto simp: gm_del_def)

lemma gm_get_None_iff: "gm_get m k = None \<longleftrightarrow> k \<notin> set (gm_keys m)"
  by (simp add: gm_get_def map_of_eq_None_iff)

lemma gm_get_in_set: "gm_get m k = Some v \<Longrightarrow> (k, v) \<in> set m"
  by (simp add: gm_get_def map_of_SomeD)

lemma gm_get_wf_iff: "gm_wf m \<Longrightarrow> gm_get m k = Some v \<longleftrightarrow> (k, v) \<in> set m"
  by (simp add: gm_get_def gm_wf_def)

section \<open>Stable sorting and the first best element\<close>

text \<open>
  \<open>replace1 x y xs\<close> overwrites the first occurrence of \<open>x\<close>. With \<open>sort_key\<close>, which is stable,
  removing or overwriting the first of the smallest elements acts on the head of the sorted list.
\<close>

fun replace1 :: "'a \<Rightarrow> 'a \<Rightarrow> 'a list \<Rightarrow> 'a list" where
  "replace1 x y [] = []"
| "replace1 x y (z # zs) = (if z = x then y # zs else z # replace1 x y zs)"

lemma sort_key_stable_flip: "filter (\<lambda>x. k = f x) (sort_key f xs) = filter (\<lambda>x. k = f x) xs"
  using sort_key_stable[of f k xs] by (simp only: eq_commute)

lemma sort_key_remove1_hd:
  assumes "sort_key f xs = b # bs"
  shows "sort_key f (remove1 b xs) = bs"
  using assms
proof (induction xs arbitrary: bs)
  case Nil
  then show ?case by simp
next
  case (Cons x xs)
  show ?case
  proof (cases "sort_key f xs")
    case Nil
    then have "xs = []" by (metis length_0_conv length_sort)
    with Cons.prems show ?thesis by simp
  next
    case (Cons c cs)
    with Cons.prems Cons.IH show ?thesis by (auto split: if_splits)
  qed
qed

lemma sort_key_replace1_hd:
  assumes "sort_key f xs = b # bs" and "f b' = f b"
  shows "sort_key f (replace1 b b' xs) = b' # bs"
  using assms(1)
proof (induction xs arbitrary: bs)
  case Nil
  then show ?case by simp
next
  case (Cons x xs)
  show ?case
  proof (cases "sort_key f xs")
    case Nil
    then have "xs = []" by (metis length_0_conv length_sort)
    with Cons.prems show ?thesis by simp
  next
    case (Cons c cs)
    with Cons.prems Cons.IH assms(2) show ?thesis by (auto split: if_splits)
  qed
qed

end
