(* ===== verification/GoStrings.thy ===== *)
theory GoStrings
  imports Prelude
begin

text \<open>
  Go strings are byte sequences, so they are lists of \<open>char\<close>. This theory holds the functions of the
  packages \<open>strings\<close> and \<open>fmt\<close> that the services call, on valid UTF-8: \<open>TrimSpace\<close>, \<open>ToUpper\<close>,
  \<open>HasPrefix\<close>, \<open>Contains\<close>, and the verb \<open>%d\<close> of \<open>Sprintf\<close>.
\<close>

section \<open>Case and white space\<close>

text \<open>
  \<open>strings.ToUpper\<close> maps every code point to its upper case. The results are only ever compared with
  ASCII constants, so what matters besides the ASCII letters are the code points outside ASCII whose
  upper case is an ASCII letter: dotless i (U+0131, bytes C4 B1) and long s (U+017F, bytes C5 BF). The
  bytes of every other code point stay as they are.
\<close>

definition upcase :: "char \<Rightarrow> char" where
  "upcase c =
     (case map_of (zip ''abcdefghijklmnopqrstuvwxyz'' ''ABCDEFGHIJKLMNOPQRSTUVWXYZ'') c of
        Some u \<Rightarrow> u
      | None \<Rightarrow> c)"

fun to_upper :: "string \<Rightarrow> string" where
  "to_upper [] = []"
| "to_upper [c] = [upcase c]"
| "to_upper (c # d # s) =
     (if c = CHR 0xC4 \<and> d = CHR 0xB1 then CHR ''I'' # to_upper s
      else if c = CHR 0xC5 \<and> d = CHR 0xBF then CHR ''S'' # to_upper s
      else upcase c # to_upper (d # s))"

text \<open>The UTF-8 encodings of the code points of \<open>unicode.IsSpace\<close>.\<close>

definition space_runes :: "string list" where
  "space_runes =
     [[CHR 0x20], [CHR 0x09], [CHR 0x0A], [CHR 0x0B], [CHR 0x0C], [CHR 0x0D],
      [CHR 0xC2, CHR 0x85], [CHR 0xC2, CHR 0xA0], [CHR 0xE1, CHR 0x9A, CHR 0x80],
      [CHR 0xE2, CHR 0x80, CHR 0x80], [CHR 0xE2, CHR 0x80, CHR 0x81], [CHR 0xE2, CHR 0x80, CHR 0x82],
      [CHR 0xE2, CHR 0x80, CHR 0x83], [CHR 0xE2, CHR 0x80, CHR 0x84], [CHR 0xE2, CHR 0x80, CHR 0x85],
      [CHR 0xE2, CHR 0x80, CHR 0x86], [CHR 0xE2, CHR 0x80, CHR 0x87], [CHR 0xE2, CHR 0x80, CHR 0x88],
      [CHR 0xE2, CHR 0x80, CHR 0x89], [CHR 0xE2, CHR 0x80, CHR 0x8A], [CHR 0xE2, CHR 0x80, CHR 0xA8],
      [CHR 0xE2, CHR 0x80, CHR 0xA9], [CHR 0xE2, CHR 0x80, CHR 0xAF], [CHR 0xE2, CHR 0x81, CHR 0x9F],
      [CHR 0xE3, CHR 0x80, CHR 0x80]]"

definition has_prefix :: "string \<Rightarrow> string \<Rightarrow> bool" where
  "has_prefix s p \<longleftrightarrow> take (length p) s = p"

lemma find_Some_has_prefix:
  "find (\<lambda>r. r \<noteq> [] \<and> has_prefix s r) rs = Some r \<Longrightarrow> r \<noteq> [] \<and> has_prefix s r"
  by (auto simp: find_Some_iff)

function strip_runes :: "string list \<Rightarrow> string \<Rightarrow> string" where
  "strip_runes rs s =
     (case find (\<lambda>r. r \<noteq> [] \<and> has_prefix s r) rs of
        None \<Rightarrow> s
      | Some r \<Rightarrow> strip_runes rs (drop (length r) s))"
  by pat_completeness auto
termination
proof (relation "measure (\<lambda>(rs, s). length s)")
  show "((rs, drop (length r) s), rs, s) \<in> measure (\<lambda>(rs, s). length s)"
    if "find (\<lambda>r. r \<noteq> [] \<and> has_prefix s r) rs = Some r" for rs :: "string list" and s r
    using find_Some_has_prefix[OF that] by (cases s) (auto simp: has_prefix_def)
qed simp

declare strip_runes.simps [simp del]

definition trim_space :: "string \<Rightarrow> string" where
  "trim_space s = rev (strip_runes (map rev space_runes) (rev (strip_runes space_runes s)))"

text \<open>The normalisation \<open>strings.ToUpper(strings.TrimSpace(s))\<close> that the replay engine applies.\<close>

definition norm_token :: "string \<Rightarrow> string" where
  "norm_token s = to_upper (trim_space s)"

section \<open>Searching\<close>

definition str_contains :: "string \<Rightarrow> string \<Rightarrow> bool" where
  "str_contains s sub \<longleftrightarrow> (\<exists>i \<in> set [0..<Suc (length s)]. take (length sub) (drop i s) = sub)"

section \<open>Decimal integers\<close>

text \<open>\<open>fmt.Sprintf("%d", n)\<close>.\<close>

fun digits_of :: "nat \<Rightarrow> string" where
  "digits_of n =
     (if n < 10 then [char_of (48 + n)] else digits_of (n div 10) @ [char_of (48 + n mod 10)])"

declare digits_of.simps [simp del]

definition fmt_d :: "int \<Rightarrow> string" where
  "fmt_d n = (if n < 0 then ''-'' @ digits_of (nat (- n)) else digits_of (nat n))"

lemma digits_of_head: "\<exists>c cs. digits_of n = c # cs \<and> c \<in> set ''0123456789''"
proof (induction n rule: digits_of.induct)
  case (1 n)
  show ?case
  proof (cases "n < 10")
    case True
    then have "n = 0 \<or> n = 1 \<or> n = 2 \<or> n = 3 \<or> n = 4 \<or> n = 5 \<or> n = 6 \<or> n = 7 \<or> n = 8 \<or> n = 9" by arith
    then show ?thesis by (elim disjE) (simp_all add: digits_of.simps char_of_def bit_0)
  next
    case False
    with 1 show ?thesis by (auto simp: digits_of.simps[of n])
  qed
qed

lemma norm_token_examples:
  "norm_token ''LIMIT'' = ''LIMIT''" "norm_token ''  fok '' = ''FOK''" "fmt_d (- 120) = ''-120''"
  by code_simp+

section \<open>Splitting and parsing\<close>

text \<open>\<open>strings.Split\<close> at a separator of one byte.\<close>

fun str_split :: "char \<Rightarrow> string \<Rightarrow> string list" where
  "str_split sep [] = [[]]"
| "str_split sep (c # s) =
     (if c = sep then [] # str_split sep s
      else case str_split sep s of w # ws \<Rightarrow> (c # w) # ws | [] \<Rightarrow> [[c]])"

lemma str_split_free: "w \<in> set (str_split sep s) \<Longrightarrow> sep \<notin> set w"
proof (induction s arbitrary: w)
  case (Cons c s)
  show ?case
  proof (cases "str_split sep s")
    case (Cons v vs)
    with Cons.prems Cons.IH show ?thesis by (fastforce split: if_splits)
  qed (use Cons.prems in \<open>auto split: if_splits\<close>)
qed simp

text \<open>
  \<open>strconv.ParseInt(s, 10, 64)\<close> and \<open>strconv.Atoi\<close>: an optional sign, at least one digit, nothing else,
  and a value that fits.
\<close>

fun parse_digits :: "nat \<Rightarrow> string \<Rightarrow> nat option" where
  "parse_digits acc [] = Some acc"
| "parse_digits acc (c # s) =
     (if 48 \<le> (of_char c :: nat) \<and> (of_char c :: nat) \<le> 57
      then parse_digits (acc * 10 + (of_char c - 48)) s else None)"

definition parse_nat :: "string \<Rightarrow> nat option" where
  "parse_nat s = (if s = [] then None else parse_digits 0 s)"

definition ParseInt :: "string \<Rightarrow> int option" where
  "ParseInt s =
     (let signed = (case s of
          [] \<Rightarrow> None
        | c # cs \<Rightarrow>
            if c = CHR ''-'' then map_option (\<lambda>n. - int n) (parse_nat cs)
            else if c = CHR ''+'' then map_option int (parse_nat cs)
            else map_option int (parse_nat s)) in
      case signed of None \<Rightarrow> None | Some n \<Rightarrow> if in_i64 n then Some n else None)"

lemma parse_digits_append:
  "parse_digits acc (s @ t) = (case parse_digits acc s of None \<Rightarrow> None | Some n \<Rightarrow> parse_digits n t)"
  by (induction acc s rule: parse_digits.induct) auto

lemma of_char_digit: "n < 10 \<Longrightarrow> (of_char (char_of (48 + n) :: char) :: nat) = 48 + n"
  by (simp add: of_char_of)

lemma parse_digits_of: "parse_digits 0 (digits_of n) = Some n"
proof (induction n rule: digits_of.induct)
  case (1 n)
  have m: "(of_char (char_of (48 + n mod 10) :: char) :: nat) = 48 + n mod 10" by (rule of_char_digit) simp
  show ?case
  proof (cases "n < 10")
    case True
    with of_char_digit[OF True] show ?thesis by (simp add: digits_of.simps)
  next
    case False
    with 1 have "parse_digits 0 (digits_of (n div 10)) = Some (n div 10)" by simp
    then have "parse_digits 0 (digits_of n) = Some (n div 10 * 10 + n mod 10)"
      using False m by (subst digits_of.simps) (simp add: parse_digits_append)
    then show ?thesis by simp
  qed
qed

lemma ParseInt_fmt_d: "in_i64 n \<Longrightarrow> ParseInt (fmt_d n) = Some n"
proof -
  assume n: "in_i64 n"
  have nat: "parse_nat (digits_of m) = Some m" for m
    using digits_of_head[of m] parse_digits_of[of m] by (auto simp: parse_nat_def)
  obtain c cs where c: "digits_of (nat \<bar>n\<bar>) = c # cs" "c \<noteq> CHR ''-''" "c \<noteq> CHR ''+''"
    using digits_of_head[of "nat \<bar>n\<bar>"] by fastforce
  have "parse_nat (c # cs) = Some (nat \<bar>n\<bar>)" using nat[of "nat \<bar>n\<bar>"] c(1) by simp
  with n c show ?thesis by (cases "n < 0") (simp_all add: ParseInt_def fmt_d_def Let_def)
qed

lemma ParseInt_in_i64: "ParseInt s = Some n \<Longrightarrow> in_i64 n"
  by (auto simp: ParseInt_def Let_def split: option.splits if_splits)

section \<open>The tokens of the protocol\<close>

text \<open>The constants that the services compare with are their own normal forms.\<close>

lemma norm_token_consts [simp]:
  "norm_token ''BUY'' = ''BUY''" "norm_token ''SELL'' = ''SELL''"
  "norm_token ''CANCEL'' = ''CANCEL''" "norm_token ''FILL'' = ''FILL''"
  "norm_token ''LIMIT'' = ''LIMIT''" "norm_token ''MARKET'' = ''MARKET''"
  "norm_token ''FOK'' = ''FOK''" "norm_token ''FAK'' = ''FAK''" "norm_token ''GFD'' = ''GFD''"
  "norm_token ''OK'' = ''OK''" "norm_token ''UNKNOWN'' = ''UNKNOWN''"
  "norm_token ''REJECTED'' = ''REJECTED''" "norm_token [] = []"
  by code_simp+

end
