(* ===== verification/OrderBook.thy ===== *)
theory OrderBook
  imports GoStrings
begin

text \<open>
  The golden model's limit order book: the types and the methods of \<open>orderBook\<close> in
  \<open>artifact-checker/internal/replayengine/engine.go\<close>. A side of the book is a list of price levels,
  best price first; a level is the queue of the orders resting at its price, oldest first; the map
  \<open>live\<close> finds the side and the price of a resting order by its id.
\<close>

section \<open>Data\<close>

record resting_order =
  ro_botID :: string
  ro_qty :: int

record price_level =
  pl_price :: int
  pl_orders :: "resting_order list"

record live_ref =
  lr_side :: string
  lr_price :: int

record trade =
  tr_makerBot :: string
  tr_qty :: int
  tr_makerPrice :: int
  tr_aggLimit :: int
  tr_aggMarket :: bool

type_synonym live_map = "string \<rightharpoonup> live_ref"

record order_book =
  ob_bids :: "price_level list"
  ob_asks :: "price_level list"
  ob_live :: live_map

definition newOrderBook :: order_book where
  "newOrderBook = \<lparr>ob_bids = [], ob_asks = [], ob_live = Map.empty\<rparr>"

section \<open>Matching\<close>

text \<open>
  The loop of \<open>match\<close> over one side. The two copies in the source differ in the side they consume and
  in the test that ends the sweep; \<open>stop\<close> is that test, on the price of the best level. Reading the
  first order of a level panics on an empty level.
\<close>

definition mk_trade :: "resting_order \<Rightarrow> int \<Rightarrow> int \<Rightarrow> int \<Rightarrow> bool \<Rightarrow> trade" where
  "mk_trade maker m price band market =
     \<lparr>tr_makerBot = ro_botID maker, tr_qty = m, tr_makerPrice = price, tr_aggLimit = band,
      tr_aggMarket = market\<rparr>"

function match_loop ::
  "(int \<Rightarrow> bool) \<Rightarrow> int \<Rightarrow> bool \<Rightarrow> int \<Rightarrow> price_level list \<Rightarrow> live_map \<Rightarrow> trade list \<Rightarrow>
   go_panic + trade list \<times> int \<times> price_level list \<times> live_map" where
  "match_loop stop band market remaining levels live trades =
     (if \<not> 0 < remaining then Inr (trades, remaining, levels, live)
      else (case levels of
        [] \<Rightarrow> Inr (trades, remaining, levels, live)
      | level # rest \<Rightarrow>
          if stop (pl_price level) then Inr (trades, remaining, levels, live)
          else (case pl_orders level of
            [] \<Rightarrow> Inl IndexOutOfRange
          | maker # others \<Rightarrow>
              (let m = min remaining (ro_qty maker);
                   trades' = trades @ [mk_trade maker m (pl_price level) band market];
                   remaining' = i64 (remaining - m);
                   q = i64 (ro_qty maker - m)
               in if q = 0
                  then match_loop stop band market remaining'
                         (if others = [] then rest else level\<lparr>pl_orders := others\<rparr> # rest)
                         (live(ro_botID maker := None)) trades'
                  else match_loop stop band market remaining'
                         (level\<lparr>pl_orders := maker\<lparr>ro_qty := q\<rparr> # others\<rparr> # rest) live trades'))))"
  by pat_completeness auto
termination
  by (relation "measure (\<lambda>(stop, band, market, remaining, levels, live, trades).
        (\<Sum>l \<leftarrow> levels. length (pl_orders l)) + (if 0 < remaining then 1 else 0))")
     (auto simp: min_def split: if_splits)

declare match_loop.simps [simp del]

text \<open>
  A market order has no limit: the upper end of its price band is the worst opposing price at arrival.
\<close>

definition agg_band :: "order_book \<Rightarrow> string \<Rightarrow> bool \<Rightarrow> int \<Rightarrow> int" where
  "agg_band b side market limit =
     (if market then
        if side = ''BUY'' \<and> 0 < length (ob_asks b) then pl_price (last (ob_asks b))
        else if side = ''SELL'' \<and> 0 < length (ob_bids b) then pl_price (last (ob_bids b))
        else limit
      else limit)"

definition match_book ::
  "order_book \<Rightarrow> string \<Rightarrow> bool \<Rightarrow> int \<Rightarrow> int \<Rightarrow> go_panic + trade list \<times> int \<times> order_book" where
  "match_book b side market limit qty =
     (let band = agg_band b side market limit in
      if side = ''BUY'' then
        (case match_loop (\<lambda>p. \<not> market \<and> limit < p) band market qty (ob_asks b) (ob_live b) [] of
           Inl e \<Rightarrow> Inl e
         | Inr (trades, remaining, asks, live) \<Rightarrow>
             Inr (trades, remaining, b\<lparr>ob_asks := asks, ob_live := live\<rparr>))
      else
        (case match_loop (\<lambda>p. \<not> market \<and> p < limit) band market qty (ob_bids b) (ob_live b) [] of
           Inl e \<Rightarrow> Inl e
         | Inr (trades, remaining, bids, live) \<Rightarrow>
             Inr (trades, remaining, b\<lparr>ob_bids := bids, ob_live := live\<rparr>)))"

section \<open>The fill-or-kill test\<close>

text \<open>The inner loop over a level: \<open>Inl ()\<close> is the early \<open>return true\<close>, \<open>Inr\<close> what is still needed.\<close>

fun need_orders :: "int \<Rightarrow> resting_order list \<Rightarrow> unit + int" where
  "need_orders need [] = Inr need"
| "need_orders need (ord # ords) =
     (let need' = i64 (need - ro_qty ord) in
      if need' \<le> 0 then Inl () else need_orders need' ords)"

fun need_levels :: "(int \<Rightarrow> bool) \<Rightarrow> int \<Rightarrow> price_level list \<Rightarrow> bool" where
  "need_levels stop need [] = (need \<le> 0)"
| "need_levels stop need (level # levels) =
     (if stop (pl_price level) then need \<le> 0
      else (case need_orders need (pl_orders level) of
              Inl _ \<Rightarrow> True
            | Inr need' \<Rightarrow> need_levels stop need' levels))"

definition canFullyFill :: "order_book \<Rightarrow> string \<Rightarrow> bool \<Rightarrow> int \<Rightarrow> int \<Rightarrow> bool" where
  "canFullyFill b side market limit qty =
     need_levels
       (\<lambda>p. \<not> market \<and> (side = ''BUY'' \<and> limit < p \<or> side = ''SELL'' \<and> p < limit))
       qty (if side = ''SELL'' then ob_bids b else ob_asks b)"

section \<open>Resting and cancelling\<close>

fun insertLevel :: "price_level list \<Rightarrow> int \<Rightarrow> resting_order \<Rightarrow> bool \<Rightarrow> price_level list" where
  "insertLevel [] price ord desc = [\<lparr>pl_price = price, pl_orders = [ord]\<rparr>]"
| "insertLevel (l # ls) price ord desc =
     (if pl_price l = price then l\<lparr>pl_orders := pl_orders l @ [ord]\<rparr> # ls
      else if (if desc then pl_price l < price else price < pl_price l)
      then \<lparr>pl_price = price, pl_orders = [ord]\<rparr> # l # ls
      else l # insertLevel ls price ord desc)"

definition rest_order :: "order_book \<Rightarrow> string \<Rightarrow> string \<Rightarrow> int \<Rightarrow> int \<Rightarrow> order_book" where
  "rest_order b botID side price qty =
     (let b' = b\<lparr>ob_live := (ob_live b)(botID \<mapsto> \<lparr>lr_side = side, lr_price = price\<rparr>)\<rparr>;
          ord = \<lparr>ro_botID = botID, ro_qty = qty\<rparr>
      in if side = ''BUY'' then b'\<lparr>ob_bids := insertLevel (ob_bids b') price ord True\<rparr>
         else b'\<lparr>ob_asks := insertLevel (ob_asks b') price ord False\<rparr>)"

text \<open>The inner loop of \<open>cancel\<close>: the queue without the first order of that id, if there is one.\<close>

fun drop_order :: "string \<Rightarrow> resting_order list \<Rightarrow> resting_order list option" where
  "drop_order botID [] = None"
| "drop_order botID (ord # ords) =
     (if ro_botID ord \<noteq> botID then map_option ((#) ord) (drop_order botID ords) else Some ords)"

fun cancel_levels :: "string \<Rightarrow> int \<Rightarrow> price_level list \<Rightarrow> price_level list" where
  "cancel_levels botID price [] = []"
| "cancel_levels botID price (l # ls) =
     (if pl_price l \<noteq> price then l # cancel_levels botID price ls
      else (case drop_order botID (pl_orders l) of
              None \<Rightarrow> l # cancel_levels botID price ls
            | Some orders \<Rightarrow> if orders = [] then ls else l\<lparr>pl_orders := orders\<rparr> # ls))"

definition cancel_order :: "order_book \<Rightarrow> string \<Rightarrow> bool \<times> order_book" where
  "cancel_order b botID =
     (case ob_live b botID of
        None \<Rightarrow> (False, b)
      | Some ref \<Rightarrow>
          (let b' = b\<lparr>ob_live := (ob_live b)(botID := None)\<rparr> in
           if lr_side ref = ''BUY''
           then (True, b'\<lparr>ob_bids := cancel_levels botID (lr_price ref) (ob_bids b')\<rparr>)
           else (True, b'\<lparr>ob_asks := cancel_levels botID (lr_price ref) (ob_asks b')\<rparr>)))"

section \<open>Submitting an order\<close>

definition submit_order ::
  "order_book \<Rightarrow> string \<Rightarrow> string \<Rightarrow> string \<Rightarrow> int \<Rightarrow> int \<Rightarrow> go_panic + trade list \<times> order_book" where
  "submit_order b botID side orderType limit qty =
     (let otype = norm_token orderType; market = (otype = ''MARKET'') in
      if otype = ''FOK'' \<and> \<not> canFullyFill b side market limit qty then Inr ([], b)
      else (case match_book b side market limit qty of
        Inl e \<Rightarrow> Inl e
      | Inr (trades, remaining, b') \<Rightarrow>
          Inr (trades,
            if 0 < remaining then
              if otype = ''MARKET'' \<or> otype = ''FAK'' then b'
              else if \<not> market then rest_order b' botID side limit remaining
              else b'
            else b')))"

text \<open>A small book, used to show that the hypotheses of the properties can hold.\<close>

definition sample_book :: order_book where
  "sample_book =
     \<lparr>ob_bids = [\<lparr>pl_price = 99, pl_orders = [\<lparr>ro_botID = ''b1'', ro_qty = 10\<rparr>]\<rparr>],
      ob_asks = [\<lparr>pl_price = 101, pl_orders = [\<lparr>ro_botID = ''a1'', ro_qty = 5\<rparr>]\<rparr>,
                 \<lparr>pl_price = 102, pl_orders = [\<lparr>ro_botID = ''a2'', ro_qty = 7\<rparr>]\<rparr>],
      ob_live = [''b1'' \<mapsto> \<lparr>lr_side = ''BUY'', lr_price = 99\<rparr>, ''a1'' \<mapsto> \<lparr>lr_side = ''SELL'', lr_price = 101\<rparr>,
                 ''a2'' \<mapsto> \<lparr>lr_side = ''SELL'', lr_price = 102\<rparr>]\<rparr>"

end
