(* ===== verification/PriceTime.thy ===== *)
theory PriceTime
  imports OrderBook
begin

text \<open>
  What a limit order book promises, stated without price levels, queues or an id map, and the proof that
  the levels of \<open>OrderBook\<close> implement it, side by side. The abstract side is the list of its resting
  orders in the order they arrived; price-time priority is then literally "the earliest order among
  those with the best price". The key of a price says how good it is: a smaller key is a better price,
  so asks use the price itself and bids its negation.
\<close>

section \<open>The abstract side\<close>

record abs_order =
  ao_id :: string
  ao_price :: int
  ao_qty :: int

definition okey :: "(int \<Rightarrow> int) \<Rightarrow> abs_order \<Rightarrow> int" where
  "okey key r = key (ao_price r)"

lemma okey_apply: "okey key r = key (ao_price r)"
  by (simp add: okey_def)

text \<open>The earliest order among those with the best price.\<close>

fun first_best :: "('a \<Rightarrow> int) \<Rightarrow> 'a \<Rightarrow> 'a list \<Rightarrow> 'a" where
  "first_best f x [] = x"
| "first_best f x (y # ys) = (if f y < f x then first_best f y ys else first_best f x ys)"

text \<open>
  Filling \<open>need\<close> units: take the best order, trade as much as both sides want, and go on until nothing is
  needed, nothing is left, or the best price is not acceptable (\<open>stop\<close>). The result lists the fills
  as pairs of the order met and the quantity, what is still needed, and the orders left.
\<close>

function spec_fill ::
  "(int \<Rightarrow> int) \<Rightarrow> (int \<Rightarrow> bool) \<Rightarrow> int \<Rightarrow> abs_order list \<Rightarrow>
   (abs_order \<times> int) list \<times> int \<times> abs_order list" where
  "spec_fill key stop need arr =
     (if need \<le> 0 then ([], need, arr)
      else (case arr of
        [] \<Rightarrow> ([], need, arr)
      | x # xs \<Rightarrow>
          (let b = first_best (okey key) x xs; m = min need (ao_qty b) in
           if stop (ao_price b) then ([], need, arr)
           else
             (let arr' = (if m = ao_qty b then remove1 b arr
                          else replace1 b (b\<lparr>ao_qty := ao_qty b - m\<rparr>) arr);
                  (fs, need', arr'') = spec_fill key stop (need - m) arr'
              in ((b, m) # fs, need', arr'')))))"
  by pat_completeness auto

lemma first_best_mem: "first_best f x xs \<in> set (x # xs)"
  by (induction f x xs rule: first_best.induct) auto

lemma length_replace1 [simp]: "length (replace1 x y zs) = length zs"
  by (induction zs) auto

termination spec_fill
proof (relation "measure (\<lambda>(key, stop, need, arr). length arr + (if 0 < need then 1 else 0))",
    goal_cases)
  case 1
  show ?case by simp
next
  case (2 key stop need arr x xs b m arr')
  then have "b \<in> set arr" using first_best_mem[of "okey key" x xs] by simp
  then have "length (remove1 b arr) < length arr"
    using length_pos_if_in_set[of b arr] by (simp add: length_remove1)
  with 2 show ?case by (auto simp: min_def split: if_splits)
qed

declare spec_fill.simps [simp del]

section \<open>From levels to orders\<close>

definition abs_of :: "int \<Rightarrow> resting_order \<Rightarrow> abs_order" where
  "abs_of p r = \<lparr>ao_id = ro_botID r, ao_price = p, ao_qty = ro_qty r\<rparr>"

definition level_orders :: "price_level \<Rightarrow> abs_order list" where
  "level_orders l = map (abs_of (pl_price l)) (pl_orders l)"

definition flat :: "price_level list \<Rightarrow> abs_order list" where
  "flat ls = concat (map level_orders ls)"

text \<open>
  The representation invariant of a side: prices strictly from best to worst, no empty level, and every
  resting quantity positive and a machine integer.
\<close>

definition order_ok :: "abs_order \<Rightarrow> bool" where
  "order_ok r \<longleftrightarrow> 0 < ao_qty r \<and> in_i64 (ao_qty r)"

definition levels_wf :: "(int \<Rightarrow> int) \<Rightarrow> price_level list \<Rightarrow> bool" where
  "levels_wf key ls \<longleftrightarrow>
     sorted_wrt (\<lambda>a b. key (pl_price a) < key (pl_price b)) ls \<and>
     list_all (\<lambda>l. pl_orders l \<noteq> []) ls \<and> list_all order_ok (flat ls)"

text \<open>The levels hold exactly the resting orders \<open>arr\<close>, best price first and then oldest first.\<close>

definition side_rel :: "(int \<Rightarrow> int) \<Rightarrow> price_level list \<Rightarrow> abs_order list \<Rightarrow> bool" where
  "side_rel key ls arr \<longleftrightarrow> levels_wf key ls \<and> flat ls = sort_key (okey key) arr"

lemma abs_of_simps [simp]:
  "ao_id (abs_of p r) = ro_botID r" "ao_price (abs_of p r) = p" "ao_qty (abs_of p r) = ro_qty r"
  by (simp_all add: abs_of_def)

lemma okey_abs_of [simp]: "okey key (abs_of p r) = key p"
  by (simp add: okey_apply)

lemma flat_simps [simp]: "flat [] = []" "flat (l # ls) = level_orders l @ flat ls"
  by (simp_all add: flat_def)

lemma level_orders_Nil_iff [simp]: "level_orders l = [] \<longleftrightarrow> pl_orders l = []"
  by (simp add: level_orders_def)

lemma level_orders_price: "x \<in> set (level_orders l) \<Longrightarrow> ao_price x = pl_price l"
  by (auto simp: level_orders_def)

lemma flat_price: "x \<in> set (flat ls) \<Longrightarrow> \<exists>l \<in> set ls. ao_price x = pl_price l"
  by (auto simp: flat_def dest: level_orders_price)

lemma level_price_flat:
  assumes "levels_wf key ls" and "l \<in> set ls"
  shows "\<exists>x \<in> set (flat ls). ao_price x = pl_price l"
proof -
  from assms have "pl_orders l \<noteq> []" by (auto simp: levels_wf_def list_all_iff)
  then have "abs_of (pl_price l) (hd (pl_orders l)) \<in> set (level_orders l)"
    by (simp add: level_orders_def)
  with assms(2) have "abs_of (pl_price l) (hd (pl_orders l)) \<in> set (flat ls)"
    by (auto simp: flat_def)
  then show ?thesis by (rule bexI[rotated]) simp
qed

lemma levels_wf_Nil [simp]: "levels_wf key []"
  by (simp add: levels_wf_def)

lemma levels_wf_Cons:
  "levels_wf key (l # ls) \<longleftrightarrow>
     (\<forall>l' \<in> set ls. key (pl_price l) < key (pl_price l')) \<and> pl_orders l \<noteq> [] \<and>
     list_all order_ok (level_orders l) \<and> levels_wf key ls"
  by (auto simp: levels_wf_def)

lemma first_best_le: "f (first_best f y ys) \<le> f y"
  by (induction f y ys rule: first_best.induct) auto

lemma sort_key_first_best: "\<exists>s. sort_key f (x # xs) = first_best f x xs # s"
proof (induction f x xs rule: first_best.induct)
  case (1 f x)
  show ?case by simp
next
  case (2 f x y ys)
  show ?case
  proof (cases "f y < f x")
    case True
    from "2.IH"(1)[OF True] obtain s where "sort_key f (y # ys) = first_best f y ys # s" by blast
    with True first_best_le[of f y ys] show ?thesis by simp
  next
    case False
    from "2.IH"(2)[OF False] obtain s where s: "sort_key f (x # ys) = first_best f x ys # s" by blast
    show ?thesis
    proof (cases "sort_key f ys")
      case Nil
      with s False show ?thesis by simp
    next
      case (Cons c cs)
      with s False show ?thesis by (auto split: if_splits)
    qed
  qed
qed

section \<open>Inserting into a side\<close>

text \<open>
  What the operations of the book need from the direction of a side and from its insertion: keys of
  different prices differ, an order joins the end of the queue of its price, and a new price goes in
  front of the first worse one.
\<close>

locale price_side =
  fixes key :: "int \<Rightarrow> int"
    and ins :: "price_level list \<Rightarrow> int \<Rightarrow> resting_order \<Rightarrow> price_level list"
  assumes key_inj: "key p = key q \<Longrightarrow> p = q"
    and ins_Nil: "ins [] p r = [\<lparr>pl_price = p, pl_orders = [r]\<rparr>]"
    and ins_same: "pl_price l = p \<Longrightarrow> ins (l # ls) p r = l\<lparr>pl_orders := pl_orders l @ [r]\<rparr> # ls"
    and ins_before: "key p < key (pl_price l) \<Longrightarrow>
      ins (l # ls) p r = \<lparr>pl_price = p, pl_orders = [r]\<rparr> # l # ls"
    and ins_after: "key (pl_price l) < key p \<Longrightarrow> ins (l # ls) p r = l # ins ls p r"
begin

lemma ins_cases [case_names same before after]:
  obtains "pl_price l = p" | "key p < key (pl_price l)" | "key (pl_price l) < key p"
  using key_inj by (metis linorder_neqE)

lemma set_price_ins: "pl_price ` set (ins ls p r) = insert p (pl_price ` set ls)"
proof (induction ls)
  case Nil
  show ?case by (simp add: ins_Nil)
next
  case (Cons l ls)
  show ?case
    by (cases l p rule: ins_cases) (auto simp: ins_same ins_before ins_after Cons.IH)
qed

lemma mset_flat_ins: "mset (flat (ins ls p r)) = mset (flat ls) + {#abs_of p r#}"
proof (induction ls)
  case Nil
  show ?case by (simp add: ins_Nil level_orders_def)
next
  case (Cons l ls)
  show ?case
    by (cases l p rule: ins_cases)
      (auto simp: ins_same ins_before ins_after Cons.IH level_orders_def)
qed

lemma levels_wf_ins [inv_intro]:
  assumes "levels_wf key ls" and "order_ok (abs_of p r)"
  shows "levels_wf key (ins ls p r)"
  using assms(1)
proof (induction ls)
  case Nil
  with assms(2) show ?case by (simp add: ins_Nil levels_wf_Cons level_orders_def)
next
  case (Cons l ls)
  have prices: "\<forall>l' \<in> set (ins ls p r). pl_price l' = p \<or> pl_price l' \<in> pl_price ` set ls"
    using set_price_ins[of ls p r] by blast
  show ?case
  proof (cases l p rule: ins_cases)
    case same
    with Cons.prems assms(2) show ?thesis
      by (auto simp: ins_same levels_wf_Cons level_orders_def)
  next
    case before
    with Cons.prems assms(2) show ?thesis
      by (auto simp: ins_before levels_wf_Cons level_orders_def)
  next
    case after
    with Cons prices show ?thesis
      by (auto simp: ins_after levels_wf_Cons)
  qed
qed

lemma flat_key_less:
  "\<forall>l' \<in> set ls. k < key (pl_price l') \<Longrightarrow> x \<in> set (flat ls) \<Longrightarrow> k < okey key x"
  by (auto simp: okey_apply dest: flat_price)

lemma filter_flat_ins:
  assumes "levels_wf key ls"
  shows "filter (\<lambda>x. k = okey key x) (flat (ins ls p r)) =
    filter (\<lambda>x. k = okey key x) (flat ls @ [abs_of p r])"
  using assms
proof (induction ls)
  case Nil
  show ?case by (simp add: ins_Nil level_orders_def)
next
  case (Cons l ls)
  have none: "filter (\<lambda>x. k' = okey key x) (flat ls') = []"
    if "\<forall>l' \<in> set ls'. k' < key (pl_price l')" for k' ls'
    using flat_key_less[OF that] by (fastforce simp: filter_empty_conv)
  show ?case
  proof (cases l p rule: ins_cases)
    case same
    with Cons.prems show ?thesis
      by (cases "k = key p") (auto simp: ins_same level_orders_def levels_wf_Cons none)
  next
    case before
    with Cons.prems have "\<forall>l' \<in> set (l # ls). key p < key (pl_price l')"
      by (auto simp: levels_wf_Cons)
    with before none[of "l # ls"] show ?thesis
      by (cases "k = key p") (auto simp: ins_before level_orders_def)
  next
    case after
    with Cons show ?thesis by (simp add: ins_after levels_wf_Cons)
  qed
qed

lemma sorted_flat: "levels_wf key ls \<Longrightarrow> sorted (map (okey key) (flat ls))"
proof (induction ls)
  case Nil
  show ?case by simp
next
  case (Cons l ls)
  have "sorted (map (okey key) (level_orders l))"
    by (simp add: level_orders_def sorted_wrt_map sorted_wrt_iff_nth_less okey_apply)
  moreover have "sorted (map (okey key) (flat ls))"
    using Cons by (simp add: levels_wf_Cons)
  moreover have "okey key x \<le> okey key y" if "x \<in> set (level_orders l)" "y \<in> set (flat ls)" for x y
    using that Cons.prems flat_key_less[of ls "key (pl_price l)" y]
    by (simp add: levels_wf_Cons level_orders_price okey_apply)
  ultimately show ?case by (auto simp: sorted_append)
qed

text \<open>Resting an order is appending it to the arrivals: price-time priority of the insertion.\<close>

lemma side_rel_ins [inv_intro]:
  assumes "side_rel key ls arr" and "order_ok (abs_of p r)"
  shows "side_rel key (ins ls p r) (arr @ [abs_of p r])"
proof -
  let ?ls' = "ins ls p r"
  from assms have wf: "levels_wf key ls" "levels_wf key ?ls'"
    and fl: "flat ls = sort_key (okey key) arr"
    by (auto simp: side_rel_def levels_wf_ins)
  have "sort_key (okey key) (arr @ [abs_of p r]) = flat ?ls'"
  proof (rule properties_for_sort_key)
    show "mset (flat ?ls') = mset (arr @ [abs_of p r])"
      by (simp add: mset_flat_ins fl)
    show "filter (\<lambda>x. okey key k = okey key x) (flat ?ls') =
        filter (\<lambda>x. okey key k = okey key x) (arr @ [abs_of p r])" for k
      using filter_flat_ins[OF wf(1), of "okey key k" p r]
        sort_key_stable_flip[of "okey key k" "okey key" arr] by (simp add: fl)
    show "sorted (map (okey key) (flat ?ls'))" by (rule sorted_flat[OF wf(2)])
  qed
  with wf show ?thesis by (simp add: side_rel_def)
qed

end

interpretation bid_side: price_side uminus "\<lambda>ls p r. insertLevel ls p r True"
  by unfold_locales auto

interpretation ask_side: price_side "\<lambda>p. p" "\<lambda>ls p r. insertLevel ls p r False"
  by unfold_locales auto

section \<open>Matching against a side\<close>

definition spec_trade :: "int \<Rightarrow> bool \<Rightarrow> abs_order \<times> int \<Rightarrow> trade" where
  "spec_trade band market = (\<lambda>(b, m).
     \<lparr>tr_makerBot = ao_id b, tr_qty = m, tr_makerPrice = ao_price b, tr_aggLimit = band,
      tr_aggMarket = market\<rparr>)"

text \<open>The ids of the orders that a sequence of fills used up.\<close>

definition used_up :: "(abs_order \<times> int) list \<Rightarrow> string set" where
  "used_up fs = {ao_id b |b m. (b, m) \<in> set fs \<and> m = ao_qty b}"

lemma used_up_simps [simp]:
  "used_up [] = {}"
  "used_up ((b, m) # fs) = (if m = ao_qty b then insert (ao_id b) (used_up fs) else used_up fs)"
  by (auto simp: used_up_def)

lemma mk_trade_spec: "mk_trade r m p band market = spec_trade band market (abs_of p r, m)"
  by (simp add: mk_trade_def spec_trade_def)

lemma flat_Nil_iff: "levels_wf key ls \<Longrightarrow> flat ls = [] \<longleftrightarrow> ls = []"
  by (cases ls) (auto simp: levels_wf_Cons)

lemma side_rel_Nil: "side_rel key ls [] \<longleftrightarrow> ls = []"
  by (auto simp: side_rel_def flat_Nil_iff)

text \<open>The first order of the first level is the abstract side's best order.\<close>

lemma side_rel_Cons:
  assumes "side_rel key ls (x # xs)"
  obtains level rest maker others where
    "ls = level # rest" "pl_orders level = maker # others"
    "first_best (okey key) x xs = abs_of (pl_price level) maker"
    "0 < ro_qty maker" "in_i64 (ro_qty maker)"
proof -
  obtain s where s: "sort_key (okey key) (x # xs) = first_best (okey key) x xs # s"
    using sort_key_first_best[of "okey key" x xs] by blast
  with assms have wf: "levels_wf key ls" and fl: "flat ls = first_best (okey key) x xs # s"
    by (auto simp: side_rel_def)
  from fl obtain level rest where ls: "ls = level # rest" by (cases ls) auto
  with wf obtain maker others where os: "pl_orders level = maker # others"
    by (cases "pl_orders level") (auto simp: levels_wf_Cons)
  from fl ls os have best: "first_best (okey key) x xs = abs_of (pl_price level) maker"
    by (simp add: level_orders_def)
  from wf ls os have "order_ok (abs_of (pl_price level) maker)"
    by (simp add: level_orders_def levels_wf_Cons)
  with ls os best show thesis by (intro that) (auto simp: order_ok_def)
qed

lemma side_rel_sorted:
  assumes "side_rel key (level # rest) arr" and "pl_orders level = maker # others"
  shows "sort_key (okey key) arr =
    abs_of (pl_price level) maker # map (abs_of (pl_price level)) others @ flat rest"
  using assms by (simp add: side_rel_def level_orders_def)

lemma side_rel_pop:
  assumes "side_rel key (level # rest) arr" and "pl_orders level = maker # others"
  shows "side_rel key (if others = [] then rest else level\<lparr>pl_orders := others\<rparr> # rest)
    (remove1 (abs_of (pl_price level) maker) arr)"
  using assms sort_key_remove1_hd[OF side_rel_sorted[OF assms]]
  by (auto simp: side_rel_def levels_wf_Cons level_orders_def)

lemma side_rel_reduce:
  assumes "side_rel key (level # rest) arr" and "pl_orders level = maker # others"
    and "0 < q" "in_i64 q"
  shows "side_rel key (level\<lparr>pl_orders := maker\<lparr>ro_qty := q\<rparr> # others\<rparr> # rest)
    (replace1 (abs_of (pl_price level) maker)
       ((abs_of (pl_price level) maker)\<lparr>ao_qty := q\<rparr>) arr)"
proof -
  have red: "(abs_of p r)\<lparr>ao_qty := q\<rparr> = abs_of p (r\<lparr>ro_qty := q\<rparr>)" for p r
    by (simp add: abs_of_def)
  show ?thesis
    unfolding red
    using assms sort_key_replace1_hd[OF side_rel_sorted[OF assms(1,2)],
        of "abs_of (pl_price level) (maker\<lparr>ro_qty := q\<rparr>)"]
    by (auto simp: side_rel_def levels_wf_Cons level_orders_def order_ok_def)
qed

lemma match_loop_stops [simp]:
  "need \<le> 0 \<Longrightarrow> match_loop stop band market need ls live acc = Inr (acc, need, ls, live)"
  "match_loop stop band market need [] live acc = Inr (acc, need, [], live)"
  by (simp_all add: match_loop.simps[of stop band market need])

lemma spec_fill_stops [simp]:
  "need \<le> 0 \<Longrightarrow> spec_fill key stop need arr = ([], need, arr)"
  "spec_fill key stop need [] = ([], need, [])"
  by (simp_all add: spec_fill.simps[of key stop need])

text \<open>The sweep over the levels is the abstract fill; in particular it does not panic.\<close>

lemma match_loop_refines:
  assumes "side_rel key ls arr" and "in_i64 need"
    and "spec_fill key stop need arr = (fs, need', arr')"
  shows "\<exists>ls'. match_loop stop band market need ls live acc =
      Inr (acc @ map (spec_trade band market) fs, need', ls', live |` (- used_up fs)) \<and>
    side_rel key ls' arr'"
  using assms
proof (induction key stop need arr arbitrary: ls live acc fs need' arr' rule: spec_fill.induct)
  case (1 key stop need arr)
  show ?case
  proof (cases "need \<le> 0")
    case True
    with "1.prems" show ?thesis by auto
  next
    case need: False
    show ?thesis
    proof (cases arr)
      case Nil
      with "1.prems" show ?thesis by (auto simp: side_rel_Nil)
    next
      case (Cons x xs)
      then obtain level rest maker others where
        ls: "ls = level # rest" and os: "pl_orders level = maker # others"
        and best: "first_best (okey key) x xs = abs_of (pl_price level) maker"
        and q: "0 < ro_qty maker" "in_i64 (ro_qty maker)"
        using side_rel_Cons "1.prems"(1) by metis
      define b where "b = first_best (okey key) x xs"
      define m where "m = min need (ao_qty b)"
      have b: "b = abs_of (pl_price level) maker" using best by (simp add: b_def)
      have m: "0 < m" "m \<le> need" "m \<le> ro_qty maker" "m = min need (ro_qty maker)"
        using need q by (auto simp: m_def b)
      have wrap: "i64 (need - m) = need - m" "i64 (ro_qty maker - m) = ro_qty maker - m"
        "in_i64 (need - m)" "in_i64 (ro_qty maker - m)"
        using m in_i64_mono[OF "1.prems"(2), of "need - m"] in_i64_mono[OF q(2), of "ro_qty maker - m"]
        by (auto simp: i64_id)
      show ?thesis
      proof (cases "stop (pl_price level)")
        case True
        then have "fs = []" "need' = need" "arr' = arr"
          using "1.prems"(3) Cons best by (simp_all add: spec_fill.simps[of key stop need "x # xs"] need)
        moreover have "match_loop stop band market need ls live acc = Inr (acc, need, ls, live)"
          using True need ls by (simp add: match_loop.simps[of _ _ _ need])
        ultimately show ?thesis using "1.prems"(1) by simp
      next
        case go: False
        define arr1 where "arr1 = (if m = ao_qty b then remove1 b arr
          else replace1 b (b\<lparr>ao_qty := ao_qty b - m\<rparr>) arr)"
        define ls1 where "ls1 = (if m = ro_qty maker
          then if others = [] then rest else level\<lparr>pl_orders := others\<rparr> # rest
          else level\<lparr>pl_orders := maker\<lparr>ro_qty := ro_qty maker - m\<rparr> # others\<rparr> # rest)"
        define live1 where "live1 = (if m = ro_qty maker then live(ro_botID maker := None) else live)"
        have "spec_fill key stop need arr =
            (case spec_fill key stop (need - m) arr1 of (fs, n, a) \<Rightarrow> ((b, m) # fs, n, a))"
          using need go Cons b
          by (simp add: spec_fill.simps[of key stop need "x # xs"] Let_def arr1_def m_def b_def[symmetric]
              del: replace1.simps remove1.simps)
        then obtain fs1 where fs1: "spec_fill key stop (need - m) arr1 = (fs1, need', arr')"
            "fs = (b, m) # fs1"
          using "1.prems"(3) by (auto split: prod.splits)
        let ?acc = "acc @ [spec_trade band market (b, m)]"
        have step: "match_loop stop band market need ls live acc =
            match_loop stop band market (need - m) ls1 live1 ?acc"
          using need ls os go m(1)
          by (subst match_loop.simps)
            (auto simp: Let_def m(4)[symmetric] wrap mk_trade_spec b ls1_def live1_def)
        have rel: "side_rel key ls1 arr1"
          using side_rel_pop[of key level rest arr maker others]
            side_rel_reduce[of key level rest arr maker others "ro_qty maker - m"] "1.prems"(1) ls os m wrap
          by (auto simp: ls1_def arr1_def b)
        have "live1 |` (- used_up fs1) = live |` (- used_up fs)"
          by (auto simp: live1_def b fs1(2) restrict_map_def fun_eq_iff)
        moreover have "\<not> stop (ao_price b)" using go by (simp add: b)
        moreover note "1.IH"[OF need Cons b_def m_def this arr1_def rel wrap(3) fs1(1), of live1 ?acc]
        ultimately show ?thesis unfolding step by (simp add: fs1(2))
      qed
    qed
  qed
qed

end
