(* ===== verification/AbstractBook.thy ===== *)
theory AbstractBook
  imports PriceTime
begin

text \<open>
  The whole abstract book, the proof that \<open>submit\<close> and \<open>cancel\<close> of \<open>OrderBook\<close> implement it, and what
  every reachable book satisfies.
\<close>

section \<open>What a fill does\<close>

lemma in_set_replace1: "z \<in> set (replace1 x y zs) \<Longrightarrow> z = y \<or> z \<in> set zs"
  by (induction zs) (auto split: if_splits)

lemma map_replace1: "f y = f x \<Longrightarrow> map f (replace1 x y zs) = map f zs"
  by (induction zs) auto

lemma sum_list_remove1: "x \<in> set xs \<Longrightarrow> (\<Sum>z \<leftarrow> remove1 x xs. f z) = (\<Sum>z \<leftarrow> xs. f z) - (f x :: int)"
  by (induction xs) auto

lemma sum_list_replace1:
  "x \<in> set xs \<Longrightarrow> (\<Sum>z \<leftarrow> replace1 x y xs. f z) = (\<Sum>z \<leftarrow> xs. f z) - f x + (f y :: int)"
  by (induction xs) auto

text \<open>
  One step of the fill, as an induction rule for orders with positive quantities: either nothing
  happens, or the best order \<open>b\<close> gives \<open>m\<close> units and the fill goes on with \<open>arr1\<close>.
\<close>

lemma spec_fill_cases [case_names stop step]:
  assumes "spec_fill key stp need arr = (fs, need', arr')"
  obtains
    "fs = []" "need' = need" "arr' = arr"
    "need \<le> 0 \<or> arr = [] \<or> (\<exists>x xs. arr = x # xs \<and> stp (ao_price (first_best (okey key) x xs)))"
  | x xs b m fs1 where "arr = x # xs" "b = first_best (okey key) x xs" "b \<in> set arr"
    "0 < need" "\<not> stp (ao_price b)" "m = min need (ao_qty b)" "fs = (b, m) # fs1"
    "spec_fill key stp (need - m)
       (if m = ao_qty b then remove1 b arr else replace1 b (b\<lparr>ao_qty := ao_qty b - m\<rparr>) arr)
       = (fs1, need', arr')"
proof (cases "0 < need \<and> arr \<noteq> []")
  case False
  with assms have "fs = [] \<and> need' = need \<and> arr' = arr" by auto
  with False that(1) show thesis by auto
next
  case True
  then obtain x xs where arr: "arr = x # xs" by (cases arr) auto
  let ?b = "first_best (okey key) x xs"
  show thesis
  proof (cases "stp (ao_price ?b)")
    case stop: True
    with assms True arr have "fs = [] \<and> need' = need \<and> arr' = arr"
      by (simp add: spec_fill.simps[of key stp need "x # xs"])
    with stop arr that(1) show thesis by auto
  next
    case go: False
    let ?m = "min need (ao_qty ?b)"
    have "spec_fill key stp need arr =
        (case spec_fill key stp (need - ?m)
           (if ?m = ao_qty ?b then remove1 ?b arr else replace1 ?b (?b\<lparr>ao_qty := ao_qty ?b - ?m\<rparr>) arr)
         of (fs, n, a) \<Rightarrow> ((?b, ?m) # fs, n, a))"
      using True go arr
      by (simp add: spec_fill.simps[of key stp need "x # xs"] Let_def
          del: replace1.simps remove1.simps)
    with assms that(2)[of x xs ?b ?m] True go arr first_best_mem[of "okey key" x xs]
    show thesis by (auto simp del: replace1.simps remove1.simps split: prod.splits)
  qed
qed

definition after_fill :: "abs_order \<Rightarrow> int \<Rightarrow> abs_order list \<Rightarrow> abs_order list" where
  "after_fill b m arr =
     (if m = ao_qty b then remove1 b arr else replace1 b (b\<lparr>ao_qty := ao_qty b - m\<rparr>) arr)"

lemma spec_fill_induct [consumes 1, case_names stop step]:
  assumes "spec_fill key stp need arr = (fs, need', arr')"
    and stop: "\<And>need arr. need \<le> 0 \<or> arr = [] \<or>
        (\<exists>x xs. arr = x # xs \<and> stp (ao_price (first_best (okey key) x xs))) \<Longrightarrow> P need arr [] need arr"
    and step: "\<And>need arr x xs b m fs need' arr'. arr = x # xs \<Longrightarrow> b = first_best (okey key) x xs \<Longrightarrow>
        b \<in> set arr \<Longrightarrow> 0 < need \<Longrightarrow> \<not> stp (ao_price b) \<Longrightarrow> m = min need (ao_qty b) \<Longrightarrow>
        P (need - m) (after_fill b m arr) fs need' arr' \<Longrightarrow> P need arr ((b, m) # fs) need' arr'"
  shows "P need arr fs need' arr'"
  using assms(1)
proof (induction "length arr + (if 0 < need then 1 else 0)" arbitrary: need arr fs rule: less_induct)
  case less
  from less.prems show ?case
  proof (cases rule: spec_fill_cases)
    case stop
    with assms(2) show ?thesis by blast
  next
    case (step x xs b m fs1)
    note 2 = step
    have "length (remove1 b arr) < length arr"
      using 2(3) length_pos_if_in_set[of b arr] by (simp add: length_remove1)
    with 2 have "length (after_fill b m arr) + (if 0 < need - m then 1 else 0) <
        length arr + (if 0 < need then 1 else 0)"
      by (auto simp: after_fill_def min_def split: if_splits)
    with less.hyps 2(8) have "P (need - m) (after_fill b m arr) fs1 need' arr'"
      by (simp add: after_fill_def)
    with assms(3) 2 show ?thesis by metis
  qed
qed

lemma after_fill_ok:
  assumes "list_all order_ok arr" and "b \<in> set arr" and "m = min need (ao_qty b)" and "0 < need"
  shows "list_all order_ok (after_fill b m arr)"
proof -
  have b: "0 < ao_qty b" "in_i64 (ao_qty b)" using assms by (auto simp: list_all_iff order_ok_def)
  have "order_ok (b\<lparr>ao_qty := ao_qty b - m\<rparr>)" if "m \<noteq> ao_qty b"
    using that assms(3,4) b in_i64_mono[OF b(2), of "ao_qty b - m"] by (auto simp: order_ok_def)
  with assms show ?thesis
    by (auto simp: after_fill_def list_all_iff dest: in_set_replace1 notin_set_remove1)
qed

lemma after_fill_total:
  "b \<in> set arr \<Longrightarrow> (\<Sum>x \<leftarrow> after_fill b m arr. ao_qty x) = (\<Sum>x \<leftarrow> arr. ao_qty x) - m"
  by (auto simp: after_fill_def sum_list_remove1 sum_list_replace1)

lemma after_fill_ids:
  assumes "distinct (map ao_id arr)" and "b \<in> set arr"
  shows "distinct (map ao_id (after_fill b m arr))"
    and "ao_id ` set (after_fill b m arr) =
      (if m = ao_qty b then ao_id ` set arr - {ao_id b} else ao_id ` set arr)"
proof -
  have ids: "map ao_id (replace1 b (b\<lparr>ao_qty := q\<rparr>) arr) = map ao_id arr" for q
    by (rule map_replace1) simp
  have rem: "map ao_id (remove1 b arr) = remove1 (ao_id b) (map ao_id arr)"
    using assms by (induction arr) (auto simp: rev_image_eqI)
  show "distinct (map ao_id (after_fill b m arr))"
    using assms by (simp add: after_fill_def ids rem)
  have "ao_id ` set (remove1 b arr) = ao_id ` set arr - {ao_id b}"
    using assms by (simp flip: set_map add: rem)
  moreover have "ao_id ` set (replace1 b (b\<lparr>ao_qty := q\<rparr>) arr) = ao_id ` set arr" for q
    by (simp flip: set_map add: ids)
  ultimately show "ao_id ` set (after_fill b m arr) =
      (if m = ao_qty b then ao_id ` set arr - {ao_id b} else ao_id ` set arr)"
    by (simp add: after_fill_def)
qed

lemma after_fill_old:
  "b \<in> set arr \<Longrightarrow> x \<in> set (after_fill b m arr) \<Longrightarrow>
     \<exists>y \<in> set arr. ao_id y = ao_id x \<and> ao_price y = ao_price x"
  by (auto simp: after_fill_def split: if_splits
      dest!: in_set_replace1 set_remove1_subset[THEN subsetD])

text \<open>Everything the rest of the development needs to know of a fill.\<close>

lemma spec_fill_ok:
  "spec_fill key stp need arr = (fs, need', arr') \<Longrightarrow> list_all order_ok arr \<Longrightarrow> list_all order_ok arr'"
proof (induction rule: spec_fill_induct)
  case stop
  then show ?case by simp
next
  case (step need arr x xs b m fs need' arr')
  with after_fill_ok[of arr b m need] show ?case by simp
qed

lemma spec_fill_need:
  "spec_fill key stp need arr = (fs, need', arr') \<Longrightarrow> (\<Sum>(b, m) \<leftarrow> fs. m) + need' = need"
  by (induction rule: spec_fill_induct) auto

lemma spec_fill_need_nonneg:
  "spec_fill key stp need arr = (fs, need', arr') \<Longrightarrow> 0 \<le> need \<Longrightarrow> 0 \<le> need'"
  by (induction rule: spec_fill_induct) auto

lemma spec_fill_total:
  "spec_fill key stp need arr = (fs, need', arr') \<Longrightarrow>
     (\<Sum>x \<leftarrow> arr'. ao_qty x) = (\<Sum>x \<leftarrow> arr. ao_qty x) - (\<Sum>(b, m) \<leftarrow> fs. m)"
  by (induction rule: spec_fill_induct) (auto simp: after_fill_total)

lemma spec_fill_ids:
  "spec_fill key stp need arr = (fs, need', arr') \<Longrightarrow> distinct (map ao_id arr) \<Longrightarrow>
     distinct (map ao_id arr') \<and> ao_id ` set arr' = ao_id ` set arr - used_up fs"
proof (induction rule: spec_fill_induct)
  case stop
  then show ?case by simp
next
  case (step need arr x xs b m fs need' arr')
  with after_fill_ids[OF step.prems step.hyps(3), of m] show ?case by (auto split: if_splits)
qed

lemma spec_fill_old:
  "spec_fill key stp need arr = (fs, need', arr') \<Longrightarrow> x \<in> set arr' \<Longrightarrow>
     \<exists>y \<in> set arr. ao_id y = ao_id x \<and> ao_price y = ao_price x"
proof (induction rule: spec_fill_induct)
  case stop
  then show ?case by blast
next
  case (step need arr x' xs b m fs need' arr')
  then obtain z where "z \<in> set (after_fill b m arr)" "ao_id z = ao_id x" "ao_price z = ao_price x"
    by blast
  with after_fill_old[OF step.hyps(3), of z m] show ?case by auto
qed

lemma spec_fill_fills:
  "spec_fill key stp need arr = (fs, need', arr') \<Longrightarrow> list_all order_ok arr \<Longrightarrow> (b, m) \<in> set fs \<Longrightarrow>
     0 < m \<and> m \<le> ao_qty b \<and> \<not> stp (ao_price b) \<and> (\<exists>y \<in> set arr. ao_id y = ao_id b \<and> ao_price y = ao_price b)"
proof (induction rule: spec_fill_induct)
  case stop
  then show ?case by simp
next
  case (step need arr x xs b' m' fs need' arr')
  show ?case
  proof (cases "(b, m) = (b', m')")
    case True
    with step.hyps step.prems(1) show ?thesis by (auto simp: list_all_iff order_ok_def)
  next
    case False
    with step.prems have "(b, m) \<in> set fs" by auto
    with step.IH after_fill_ok[of arr b' m' need] step.hyps step.prems(1)
    obtain z where "0 < m \<and> m \<le> ao_qty b \<and> \<not> stp (ao_price b)"
      "z \<in> set (after_fill b' m' arr)" "ao_id z = ao_id b" "ao_price z = ao_price b" by blast
    with after_fill_old[OF step.hyps(3), of z m'] show ?thesis by auto
  qed
qed

lemma spec_fill_fills_nonneg:
  "spec_fill key stp need arr = (fs, need', arr') \<Longrightarrow> list_all order_ok arr \<Longrightarrow>
     0 \<le> (\<Sum>(b, m) \<leftarrow> fs. m)"
  by (rule sum_list_nonneg) (auto dest: spec_fill_fills)

lemma first_best_least: "x \<in> set (y # ys) \<Longrightarrow> f (first_best f y ys) \<le> f x"
proof -
  assume x: "x \<in> set (y # ys)"
  obtain s where s: "sort_key f (y # ys) = first_best f y ys # s"
    using sort_key_first_best[of f y ys] by blast
  have "sorted (map f (sort_key f (y # ys)))" by (rule sorted_sort_key)
  moreover have "x \<in> set (sort_key f (y # ys))" using x by (simp add: set_insort_key)
  ultimately show ?thesis unfolding s by auto
qed

text \<open>No order is met twice.\<close>

lemma spec_fill_distinct:
  assumes "spec_fill key stp need arr = (fs, need', arr')" and "distinct (map ao_id arr)"
  shows "distinct (map (\<lambda>(b, m). ao_id b) fs)"
proof -
  have "(need \<le> 0 \<longrightarrow> fs = []) \<and> (distinct (map ao_id arr) \<longrightarrow>
      distinct (map (\<lambda>(b, m). ao_id b) fs) \<and> set (map (\<lambda>(b, m). ao_id b) fs) \<subseteq> ao_id ` set arr)"
    using assms(1)
  proof (induction rule: spec_fill_induct)
    case stop
    then show ?case by simp
  next
    case (step need arr x xs b m fs need' arr')
    show ?case
    proof (cases "m = ao_qty b")
      case True
      define ids where "ids = map (\<lambda>(b, m). ao_id b) fs"
      have "distinct ids \<and> set ids \<subseteq> ao_id ` set arr - {ao_id b}" if "distinct (map ao_id arr)"
        using step.IH after_fill_ids[OF that step.hyps(3), of m] True by (auto simp: ids_def)
      moreover have "map (\<lambda>(b, m). ao_id b) ((b, m) # fs) = ao_id b # ids" by (simp add: ids_def)
      ultimately show ?thesis using step.hyps(3,4) by auto
    next
      case False
      with step show ?thesis by auto
    qed
  qed
  with assms(2) show ?thesis by blast
qed

text \<open>Price priority: nothing that is left is better than anything that traded.\<close>

lemma spec_fill_priority:
  assumes "spec_fill key stp need arr = (fs, need', arr')" and "(b, m) \<in> set fs" and "x \<in> set arr'"
  shows "key (ao_price b) \<le> key (ao_price x)"
proof -
  have "(\<forall>x \<in> set arr'. \<exists>y \<in> set arr. ao_price y = ao_price x) \<and>
      (\<forall>(b, m) \<in> set fs. \<forall>x \<in> set arr'. key (ao_price b) \<le> key (ao_price x))"
    using assms(1)
  proof (induction rule: spec_fill_induct)
    case stop
    then show ?case by auto
  next
    case (step need arr y ys b m fs need' arr')
    have old: "\<forall>x \<in> set arr'. \<exists>y \<in> set arr. ao_price y = ao_price x"
      using step.IH after_fill_old[OF step.hyps(3), of _ m] by metis
    have "key (ao_price b) \<le> key (ao_price x)" if "x \<in> set arr" for x
      using first_best_least[of x y ys "okey key"] step.hyps that by (simp add: okey_apply)
    with old have "\<forall>x \<in> set arr'. key (ao_price b) \<le> key (ao_price x)" by metis
    with old step.IH show ?case by auto
  qed
  with assms show ?thesis by blast
qed

text \<open>A fill that still needs something has met every order whose price is acceptable.\<close>

lemma spec_fill_exhausted:
  assumes "spec_fill key stp need arr = (fs, need', arr')" and "0 < need'"
    and mono: "\<And>p q. stp p \<Longrightarrow> key p \<le> key q \<Longrightarrow> stp q" and "x \<in> set arr'"
  shows "stp (ao_price x)"
  using assms(1,2,4)
proof (induction rule: spec_fill_induct)
  case (stop need arr)
  then obtain y ys where arr: "arr = y # ys" and st: "stp (ao_price (first_best (okey key) y ys))"
    by auto
  have "key (ao_price (first_best (okey key) y ys)) \<le> key (ao_price x)"
    using first_best_least[of x y ys "okey key"] stop.prems arr by (auto simp: okey_apply)
  with st show ?case by (rule mono)
next
  case step
  then show ?case by blast
qed

section \<open>The abstract book\<close>

text \<open>
  The two sides of a book, each in order of arrival, and the specification of an order's arrival: every
  order type matches what its limit accepts, best price first and oldest first; FOK does so only if
  enough is available; MARKET and FAK drop the remainder and the other types rest it.
\<close>

record abs_book =
  ab_bids :: "abs_order list"
  ab_asks :: "abs_order list"

definition accepts :: "string \<Rightarrow> bool \<Rightarrow> int \<Rightarrow> int \<Rightarrow> bool" where
  "accepts side market limit p \<longleftrightarrow> market \<or> (if side = ''BUY'' then p \<le> limit else limit \<le> p)"

definition opposing :: "abs_book \<Rightarrow> string \<Rightarrow> abs_order list" where
  "opposing ab side = (if side = ''BUY'' then ab_asks ab else ab_bids ab)"

definition opp_key :: "string \<Rightarrow> int \<Rightarrow> int" where
  "opp_key side p = (if side = ''BUY'' then p else - p)"

definition available :: "abs_book \<Rightarrow> string \<Rightarrow> bool \<Rightarrow> int \<Rightarrow> int" where
  "available ab side market limit =
     (\<Sum>x \<leftarrow> filter (\<lambda>x. accepts side market limit (ao_price x)) (opposing ab side). ao_qty x)"

text \<open>The worst opposing price at arrival bounds the execution price of a market order.\<close>

definition spec_band :: "abs_book \<Rightarrow> string \<Rightarrow> bool \<Rightarrow> int \<Rightarrow> int" where
  "spec_band ab side market limit =
     (if market \<and> opposing ab side \<noteq> [] then
        (if side = ''BUY'' then Max (ao_price ` set (ab_asks ab)) else Min (ao_price ` set (ab_bids ab)))
      else limit)"

definition spec_rests :: "string \<Rightarrow> bool" where
  "spec_rests otype \<longleftrightarrow> otype \<noteq> ''MARKET'' \<and> otype \<noteq> ''FAK''"

definition spec_submit ::
  "abs_book \<Rightarrow> string \<Rightarrow> string \<Rightarrow> string \<Rightarrow> int \<Rightarrow> int \<Rightarrow> trade list \<times> abs_book" where
  "spec_submit ab botID side orderType limit qty =
     (let otype = norm_token orderType; market = (otype = ''MARKET'');
          (fs, left, opp) = spec_fill (opp_key side) (\<lambda>p. \<not> accepts side market limit p) qty
            (opposing ab side);
          new = (if 0 < left \<and> spec_rests otype
                 then [\<lparr>ao_id = botID, ao_price = limit, ao_qty = left\<rparr>] else [])
      in if otype = ''FOK'' \<and> available ab side market limit < qty then ([], ab)
         else (map (spec_trade (spec_band ab side market limit) market) fs,
               if side = ''BUY'' then \<lparr>ab_bids = ab_bids ab @ new, ab_asks = opp\<rparr>
               else \<lparr>ab_bids = opp, ab_asks = ab_asks ab @ new\<rparr>))"

definition spec_cancel :: "abs_book \<Rightarrow> string \<Rightarrow> abs_book" where
  "spec_cancel ab botID =
     \<lparr>ab_bids = filter (\<lambda>x. ao_id x \<noteq> botID) (ab_bids ab),
      ab_asks = filter (\<lambda>x. ao_id x \<noteq> botID) (ab_asks ab)\<rparr>"

definition book_ids :: "abs_book \<Rightarrow> string list" where
  "book_ids ab = map ao_id (ab_bids ab @ ab_asks ab)"

text \<open>What the id map must say.\<close>

definition live_says :: "abs_book \<Rightarrow> string \<Rightarrow> live_ref \<Rightarrow> bool" where
  "live_says ab i ref \<longleftrightarrow>
     (\<exists>x \<in> set (ab_bids ab). ao_id x = i \<and> ref = \<lparr>lr_side = ''BUY'', lr_price = ao_price x\<rparr>) \<or>
     (\<exists>x \<in> set (ab_asks ab). ao_id x = i \<and> ref = \<lparr>lr_side = ''SELL'', lr_price = ao_price x\<rparr>)"

definition book_rel :: "order_book \<Rightarrow> abs_book \<Rightarrow> bool" where
  "book_rel b ab \<longleftrightarrow>
     side_rel uminus (ob_bids b) (ab_bids ab) \<and> side_rel (\<lambda>p. p) (ob_asks b) (ab_asks ab) \<and>
     distinct (book_ids ab) \<and> (\<forall>i ref. ob_live b i = Some ref \<longleftrightarrow> live_says ab i ref)"

lemma book_rel_empty: "book_rel newOrderBook \<lparr>ab_bids = [], ab_asks = []\<rparr>"
  by (simp add: book_rel_def newOrderBook_def side_rel_Nil book_ids_def live_says_def)

lemma side_rel_ok: "side_rel key ls arr \<Longrightarrow> list_all order_ok arr"
  by (metis levels_wf_def list_all_iff set_sort side_rel_def)

lemma side_rel_wf: "side_rel key ls arr \<Longrightarrow> levels_wf key ls"
  by (simp add: side_rel_def)

lemma side_rel_set: "side_rel key ls arr \<Longrightarrow> set (flat ls) = set arr"
  by (simp add: side_rel_def)

section \<open>The price band of a market order\<close>

lemma last_level_worst:
  assumes "levels_wf key ls" and "x \<in> set (flat ls)"
  shows "ls \<noteq> [] \<and> key (ao_price x) \<le> key (pl_price (last ls))"
  using assms
proof (induction ls)
  case Nil
  then show ?case by simp
next
  case (Cons l ls)
  show ?case
  proof (cases "ls = []")
    case True
    with Cons.prems show ?thesis by (auto dest: level_orders_price)
  next
    case False
    with Cons.prems have "key (pl_price l) < key (pl_price (last ls))" "levels_wf key ls"
      by (auto simp: levels_wf_Cons)
    with Cons False show ?thesis
      by (cases "x \<in> set (level_orders l)") (auto dest: level_orders_price)
  qed
qed

lemma last_level_price:
  assumes "side_rel key ls arr" and "ls \<noteq> []"
  shows "pl_price (last ls) \<in> ao_price ` set arr"
  using assms level_price_flat[of key ls "last ls"] side_rel_set[OF assms(1)]
  by (force simp: side_rel_def)

lemma side_rel_Nil_iff: "side_rel key ls arr \<Longrightarrow> ls = [] \<longleftrightarrow> arr = []"
  by (metis flat_simps(1) set_empty side_rel_Nil side_rel_set)

lemma agg_band_refines:
  assumes "book_rel b ab" and "side = ''BUY'' \<or> side = ''SELL''"
  shows "agg_band b side market limit = spec_band ab side market limit"
proof -
  have asks: "side_rel (\<lambda>p. p) (ob_asks b) (ab_asks ab)" and bids: "side_rel uminus (ob_bids b) (ab_bids ab)"
    using assms by (auto simp: book_rel_def)
  have "pl_price (last (ob_asks b)) = Max (ao_price ` set (ab_asks ab))" if "ob_asks b \<noteq> []"
    using last_level_price[OF asks that] last_level_worst[of "\<lambda>p. p" "ob_asks b"] asks side_rel_set[OF asks]
    by (intro Max_eqI[symmetric]) (auto simp: side_rel_def)
  moreover have "pl_price (last (ob_bids b)) = Min (ao_price ` set (ab_bids ab))" if "ob_bids b \<noteq> []"
    using last_level_price[OF bids that] last_level_worst[of uminus "ob_bids b"] bids side_rel_set[OF bids]
    by (intro Min_eqI[symmetric]) (auto simp: side_rel_def)
  ultimately show ?thesis
    using assms(2) side_rel_Nil_iff[OF asks] side_rel_Nil_iff[OF bids]
    by (auto simp: agg_band_def spec_band_def opposing_def)
qed

section \<open>The fill-or-kill test\<close>

lemma need_orders_sum:
  assumes "0 < need" and "in_i64 need" and "\<forall>r \<in> set ords. 0 < ro_qty r \<and> in_i64 (ro_qty r)"
  shows "need_orders need ords =
    (if need \<le> (\<Sum>r \<leftarrow> ords. ro_qty r) then Inl () else Inr (need - (\<Sum>r \<leftarrow> ords. ro_qty r)))"
  using assms
proof (induction ords arbitrary: need)
  case Nil
  then show ?case by simp
next
  case (Cons r ords)
  have pos: "0 \<le> (\<Sum>r \<leftarrow> ords. ro_qty r)" using Cons.prems(3) by (intro sum_list_nonneg) auto
  have "in_i64 (need - ro_qty r)" using Cons.prems by (auto simp: in_i64_def)
  with Cons pos show ?case by (simp add: go_int)
qed

lemma sum_level: "(\<Sum>x \<leftarrow> level_orders l. ao_qty x) = (\<Sum>r \<leftarrow> pl_orders l. ro_qty r)"
  by (simp add: level_orders_def comp_def)

lemma need_levels_sum:
  assumes "0 < need" and "in_i64 need" and "levels_wf key ls"
    and mono: "\<And>p q. stp p \<Longrightarrow> key p \<le> key q \<Longrightarrow> stp q"
  shows "need_levels stp need ls \<longleftrightarrow>
    need \<le> (\<Sum>x \<leftarrow> filter (\<lambda>x. \<not> stp (ao_price x)) (flat ls). ao_qty x)"
  using assms(1-3)
proof (induction ls arbitrary: need)
  case Nil
  then show ?case by simp
next
  case (Cons l ls)
  show ?case
  proof (cases "stp (pl_price l)")
    case True
    have "stp (ao_price x)" if x: "x \<in> set (flat (l # ls))" for x
    proof -
      from x obtain l' where "l' \<in> set (l # ls)" "ao_price x = pl_price l'"
        using flat_price[of x "l # ls"] by blast
      then have "key (pl_price l) \<le> key (ao_price x)"
        using Cons.prems(3) by (auto simp: levels_wf_Cons intro: less_imp_le)
      with True show ?thesis by (rule mono)
    qed
    then have "filter (\<lambda>x. \<not> stp (ao_price x)) (flat (l # ls)) = []" by (simp add: filter_empty_conv)
    with True Cons.prems show ?thesis by simp
  next
    case False
    then have all: "filter (\<lambda>x. \<not> stp (ao_price x)) (level_orders l) = level_orders l"
      by (auto simp: filter_id_conv dest: level_orders_price)
    have ok: "\<forall>r \<in> set (pl_orders l). 0 < ro_qty r \<and> in_i64 (ro_qty r)" and wf: "levels_wf key ls"
      using Cons.prems(3) by (auto simp: levels_wf_Cons level_orders_def list_all_iff order_ok_def)
    let ?s = "\<Sum>r \<leftarrow> pl_orders l. ro_qty r"
    have nn: "0 \<le> (\<Sum>x \<leftarrow> filter (\<lambda>x. \<not> stp (ao_price x)) (flat ls). ao_qty x)"
      using wf by (intro sum_list_nonneg) (auto simp: levels_wf_def list_all_iff order_ok_def)
    have "0 \<le> ?s" using ok by (intro sum_list_nonneg) auto
    then have "in_i64 (need - ?s)" if "\<not> need \<le> ?s"
      using that in_i64_mono[OF Cons.prems(2), of "need - ?s"] by simp
    with Cons.IH[of "need - ?s"] Cons.prems(1,2) False wf nn show ?thesis
      by (auto simp: need_orders_sum[OF Cons.prems(1,2) ok] all sum_level)
  qed
qed

lemma side_rel_sum:
  assumes "side_rel key ls arr"
  shows "(\<Sum>x \<leftarrow> filter P (flat ls). ao_qty x) = (\<Sum>x \<leftarrow> filter P arr. ao_qty x)"
proof -
  have "mset (map ao_qty (filter P (flat ls))) = mset (map ao_qty (filter P arr))"
    using assms by (simp add: side_rel_def)
  then show ?thesis by (metis sum_mset_sum_list)
qed

lemma canFullyFill_refines:
  assumes "book_rel b ab" and "side = ''BUY'' \<or> side = ''SELL''" and "0 < qty" and "in_i64 qty"
  shows "canFullyFill b side market limit qty \<longleftrightarrow> qty \<le> available ab side market limit"
proof -
  have asks: "side_rel (\<lambda>p. p) (ob_asks b) (ab_asks ab)" and bids: "side_rel uminus (ob_bids b) (ab_bids ab)"
    using assms by (auto simp: book_rel_def)
  from assms(2) show ?thesis
  proof
    assume side: "side = ''BUY''"
    have "canFullyFill b side market limit qty \<longleftrightarrow>
        need_levels (\<lambda>p. \<not> accepts side market limit p) qty (ob_asks b)"
      by (simp add: canFullyFill_def accepts_def side not_le)
    also have "\<dots> \<longleftrightarrow> qty \<le> available ab side market limit"
      using side
      by (subst need_levels_sum[OF assms(3,4) side_rel_wf[OF asks]])
        (auto simp: available_def accepts_def side_rel_sum[OF asks] opposing_def)
    finally show ?thesis .
  next
    assume side: "side = ''SELL''"
    have "canFullyFill b side market limit qty \<longleftrightarrow>
        need_levels (\<lambda>p. \<not> accepts side market limit p) qty (ob_bids b)"
      by (simp add: canFullyFill_def accepts_def side not_le)
    also have "\<dots> \<longleftrightarrow> qty \<le> available ab side market limit"
      using side
      by (subst need_levels_sum[OF assms(3,4) side_rel_wf[OF bids]])
        (auto simp: available_def accepts_def side_rel_sum[OF bids] opposing_def)
    finally show ?thesis .
  qed
qed

section \<open>Cancelling\<close>

lemma drop_order_None_iff: "drop_order i ords = None \<longleftrightarrow> i \<notin> ro_botID ` set ords"
  by (induction ords) auto

lemma drop_order_SomeD:
  "drop_order i ords = Some os \<Longrightarrow> \<exists>r xs ys. ords = xs @ r # ys \<and> os = xs @ ys \<and> ro_botID r = i"
proof (induction ords arbitrary: os)
  case Nil
  then show ?case by simp
next
  case (Cons r ords)
  show ?case
  proof (cases "ro_botID r = i")
    case True
    with Cons.prems show ?thesis by (intro exI[of _ r] exI[of _ "[]"] exI[of _ ords]) auto
  next
    case False
    with Cons.prems obtain os' where os': "drop_order i ords = Some os'" "os = r # os'" by auto
    with Cons.IH obtain r' xs ys where "ords = xs @ r' # ys" "os' = xs @ ys" "ro_botID r' = i"
      by blast
    with os' show ?thesis by (intro exI[of _ r'] exI[of _ "r # xs"] exI[of _ ys]) auto
  qed
qed

lemma cancel_prices: "pl_price ` set (cancel_levels i p ls) \<subseteq> pl_price ` set ls"
  by (induction ls) (auto split: option.splits)

lemma levels_wf_cancel [inv_intro]:
  "levels_wf key ls \<Longrightarrow> levels_wf key (cancel_levels i p ls)"
proof (induction ls)
  case Nil
  then show ?case by simp
next
  case (Cons l ls)
  have "\<forall>l' \<in> set (cancel_levels i p ls). pl_price l' \<in> pl_price ` set ls"
    using cancel_prices[of i p ls] by blast
  with Cons show ?case
    by (fastforce simp: levels_wf_Cons level_orders_def split: option.splits dest: drop_order_SomeD)
qed

lemma cancel_flat_subset: "set (flat (cancel_levels i p ls)) \<subseteq> set (flat ls)"
proof (induction ls)
  case Nil
  then show ?case by simp
next
  case (Cons l ls)
  have "set (level_orders (l\<lparr>pl_orders := os\<rparr>)) \<subseteq> set (level_orders l)"
    if "drop_order i (pl_orders l) = Some os" for os
    using drop_order_SomeD[OF that] by (auto simp: level_orders_def)
  with Cons show ?case by (auto split: option.splits)
qed

text \<open>With distinct ids, cancelling a resting order at its price removes exactly that order.\<close>

lemma drop_order_filter:
  assumes "drop_order i ords = Some os" and "distinct (map ro_botID ords)"
  shows "map (abs_of p) os = filter (\<lambda>x. ao_id x \<noteq> i) (map (abs_of p) ords)"
proof -
  obtain r xs ys where "ords = xs @ r # ys" "os = xs @ ys" "ro_botID r = i"
    using drop_order_SomeD[OF assms(1)] by blast
  note split = this
  with assms(2) have "i \<notin> ro_botID ` set (xs @ ys)" by auto
  then have "filter (\<lambda>r'. ro_botID r' \<noteq> i) xs = xs" "filter (\<lambda>r'. ro_botID r' \<noteq> i) ys = ys"
    by (auto simp: filter_id_conv)
  then show ?thesis using split by (simp add: filter_map comp_def)
qed

lemma cancel_flat:
  assumes "levels_wf key ls" and "distinct (map ao_id (flat ls))"
    and "x \<in> set (flat ls)" and "ao_id x = i" and "ao_price x = p"
  shows "flat (cancel_levels i p ls) = filter (\<lambda>x. ao_id x \<noteq> i) (flat ls)"
  using assms(1-3)
proof (induction ls)
  case Nil
  then show ?case by simp
next
  case (Cons l ls)
  have ids: "map ao_id (level_orders l) = map ro_botID (pl_orders l)"
    by (simp add: level_orders_def)
  show ?case
  proof (cases "x \<in> set (level_orders l)")
    case True
    then have price: "pl_price l = p" using level_orders_price[of x l] assms(5) by simp
    have "i \<in> set (map ao_id (level_orders l))" using True assms(4) by force
    then obtain os where os: "drop_order i (pl_orders l) = Some os"
      using drop_order_None_iff[of i "pl_orders l"] by (auto simp: ids)
    have dist: "distinct (map ro_botID (pl_orders l))" using Cons.prems(2) by (simp add: ids[symmetric])
    have "i \<notin> ao_id ` set (flat ls)"
      using Cons.prems(2) \<open>i \<in> set (map ao_id (level_orders l))\<close> by auto
    then have "filter (\<lambda>x. ao_id x \<noteq> i) (flat ls) = flat ls" by (auto simp: filter_id_conv)
    with os price drop_order_filter[OF os dist, of p] show ?thesis
      by (auto simp: level_orders_def)
  next
    case False
    with Cons.prems have x: "x \<in> set (flat ls)" by simp
    then have "pl_price l \<noteq> p"
      using flat_price[OF x] Cons.prems(1) assms(5) by (auto simp: levels_wf_Cons)
    moreover have "i \<notin> ao_id ` set (level_orders l)"
      using Cons.prems(2) x assms(4) by force
    then have "filter (\<lambda>x. ao_id x \<noteq> i) (level_orders l) = level_orders l"
      by (auto simp: filter_id_conv)
    ultimately show ?thesis using Cons.IH Cons.prems x by (simp add: levels_wf_Cons)
  qed
qed

lemma side_rel_cancel [inv_intro]:
  assumes "side_rel key ls arr" and "distinct (map ao_id arr)" and "x \<in> set arr"
  shows "side_rel key (cancel_levels (ao_id x) (ao_price x) ls) (filter (\<lambda>y. ao_id y \<noteq> ao_id x) arr)"
proof -
  have wf: "levels_wf key ls" and fl: "flat ls = sort_key (okey key) arr"
    using assms(1) by (auto simp: side_rel_def)
  have "distinct (map ao_id (flat ls))"
    using assms(2) by (simp add: distinct_map fl)
  with assms(3) have "flat (cancel_levels (ao_id x) (ao_price x) ls) = filter (\<lambda>y. ao_id y \<noteq> ao_id x) (flat ls)"
    by (intro cancel_flat[OF wf]) (auto simp: fl)
  with wf show ?thesis by (simp add: side_rel_def levels_wf_cancel fl filter_sort)
qed

lemma filter_absent: "i \<notin> ao_id ` set arr \<Longrightarrow> filter (\<lambda>y. ao_id y \<noteq> i) arr = arr"
  by (auto simp: filter_id_conv)

lemma book_ids_cancel: "book_ids (spec_cancel ab i) = filter (\<lambda>j. j \<noteq> i) (book_ids ab)"
  by (simp add: book_ids_def spec_cancel_def filter_map comp_def)

lemma cancel_rel:
  assumes "book_rel b ab"
  shows "(fst (cancel_order b i) \<longleftrightarrow> i \<in> set (book_ids ab)) \<and>
    book_rel (snd (cancel_order b i)) (spec_cancel ab i)"
proof -
  have asks: "side_rel (\<lambda>p. p) (ob_asks b) (ab_asks ab)" and bids: "side_rel uminus (ob_bids b) (ab_bids ab)"
    and dist: "distinct (book_ids ab)" and live: "\<And>i ref. ob_live b i = Some ref \<longleftrightarrow> live_says ab i ref"
    using assms by (auto simp: book_rel_def)
  have found: "(\<exists>ref. ob_live b i = Some ref) \<longleftrightarrow> i \<in> set (book_ids ab)"
    by (auto simp: live live_says_def book_ids_def)
  then have first: "fst (cancel_order b i) \<longleftrightarrow> i \<in> set (book_ids ab)"
    by (auto simp: cancel_order_def Let_def split: option.splits)
  have dist': "distinct (book_ids (spec_cancel ab i))"
    using dist by (simp add: book_ids_cancel)
  have live': "((ob_live b)(i := None)) j = Some ref \<longleftrightarrow> live_says (spec_cancel ab i) j ref" for j ref
    by (auto simp: live live_says_def spec_cancel_def)
  have "book_rel (snd (cancel_order b i)) (spec_cancel ab i)"
  proof (cases "ob_live b i")
    case None
    with found have "i \<notin> set (book_ids ab)" by simp
    then have "spec_cancel ab i = ab" by (auto simp: spec_cancel_def book_ids_def filter_absent)
    with None assms show ?thesis by (simp add: cancel_order_def)
  next
    case (Some ref)
    then have "live_says ab i ref" by (simp add: live)
    then consider
        (bid) x where "x \<in> set (ab_bids ab)" "ao_id x = i" "ref = \<lparr>lr_side = ''BUY'', lr_price = ao_price x\<rparr>"
      | (ask) x where "x \<in> set (ab_asks ab)" "ao_id x = i" "ref = \<lparr>lr_side = ''SELL'', lr_price = ao_price x\<rparr>"
      by (auto simp: live_says_def)
    then show ?thesis
    proof cases
      case bid
      have "i \<notin> ao_id ` set (ab_asks ab)" using dist bid by (auto simp: book_ids_def)
      with bid Some side_rel_cancel[OF bids _ bid(1)] asks dist dist' live' show ?thesis
        by (simp add: book_rel_def cancel_order_def spec_cancel_def filter_absent book_ids_def)
    next
      case ask
      have "i \<notin> ao_id ` set (ab_bids ab)" using dist ask by (auto simp: book_ids_def)
      with ask Some side_rel_cancel[OF asks _ ask(1)] bids dist dist' live' show ?thesis
        by (simp add: book_rel_def cancel_order_def spec_cancel_def filter_absent book_ids_def)
    qed
  qed
  with first show ?thesis by simp
qed

text \<open>
  \<open>cancel\<close> implements the specified cancellation: it reports whether the order rests, and removes
  that order and nothing else.
\<close>

theorem cancel_refines:
  assumes "book_rel b ab"
  shows "(fst (cancel_order b i) \<longleftrightarrow> i \<in> set (book_ids ab)) \<and>
    book_rel (snd (cancel_order b i)) (spec_cancel ab i)"
  by (rule cancel_rel[OF assms])

definition sample_abs :: abs_book where
  "sample_abs =
     \<lparr>ab_bids = [\<lparr>ao_id = ''b1'', ao_price = 99, ao_qty = 10\<rparr>],
      ab_asks = [\<lparr>ao_id = ''a2'', ao_price = 102, ao_qty = 7\<rparr>, \<lparr>ao_id = ''a1'', ao_price = 101, ao_qty = 5\<rparr>]\<rparr>"

lemma sample_rel: "book_rel sample_book sample_abs"
  by (auto simp: book_rel_def side_rel_def levels_wf_Cons level_orders_def order_ok_def in_i64_def
      okey_def abs_of_def sample_book_def sample_abs_def book_ids_def live_says_def)

theorem cancel_refines_witness:
  "fst (cancel_order sample_book ''a1'') \<and>
    book_rel (snd (cancel_order sample_book ''a1'')) (spec_cancel sample_abs ''a1'')"
  using cancel_refines[OF sample_rel, of "''a1''"] by (simp add: sample_abs_def book_ids_def)

section \<open>Submitting\<close>

definition says :: "abs_order list \<Rightarrow> string \<Rightarrow> int \<Rightarrow> bool" where
  "says arr i p \<longleftrightarrow> (\<exists>x \<in> set arr. ao_id x = i \<and> ao_price x = p)"

lemma says_append [simp]: "says (xs @ ys) i p \<longleftrightarrow> says xs i p \<or> says ys i p"
  by (auto simp: says_def)

lemma says_Nil [simp]: "\<not> says [] i p"
  by (simp add: says_def)

lemma says_Cons [simp]: "says (x # xs) i p \<longleftrightarrow> ao_id x = i \<and> ao_price x = p \<or> says xs i p"
  by (auto simp: says_def)

lemma says_id: "says arr i p \<Longrightarrow> i \<in> ao_id ` set arr"
  by (auto simp: says_def)

lemma live_says_iff:
  "live_says ab i ref \<longleftrightarrow>
     lr_side ref = ''BUY'' \<and> says (ab_bids ab) i (lr_price ref) \<or>
     lr_side ref = ''SELL'' \<and> says (ab_asks ab) i (lr_price ref)"
  by (cases ref) (auto simp: live_says_def says_def)

lemma spec_fill_says:
  assumes "spec_fill key stp need arr = (fs, need', arr')" and "distinct (map ao_id arr)"
  shows "says arr' i p \<longleftrightarrow> says arr i p \<and> i \<notin> used_up fs"
proof
  assume "says arr' i p"
  then show "says arr i p \<and> i \<notin> used_up fs"
    using spec_fill_old[OF assms(1)] spec_fill_ids[OF assms] unfolding says_def by blast
next
  assume a: "says arr i p \<and> i \<notin> used_up fs"
  then have "i \<in> ao_id ` set arr'" using spec_fill_ids[OF assms] by (auto simp: says_def)
  then obtain y where y: "y \<in> set arr'" "ao_id y = i" by blast
  with spec_fill_old[OF assms(1)] obtain z where z: "z \<in> set arr" "ao_id z = i" "ao_price z = ao_price y"
    by metis
  from a obtain x where "x \<in> set arr" "ao_id x = i" "ao_price x = p" by (auto simp: says_def)
  with z assms(2) have "x = z" by (auto simp: distinct_map inj_on_def)
  with y z \<open>ao_price x = p\<close> show "says arr' i p" by (auto simp: says_def)
qed

lemma used_up_ids:
  assumes "spec_fill key stp need arr = (fs, need', arr')"
  shows "used_up fs \<subseteq> ao_id ` set arr"
  using assms
proof (induction rule: spec_fill_induct)
  case stop
  then show ?case by simp
next
  case (step need arr x xs b m fs need' arr')
  have "ao_id ` set (after_fill b m arr) \<subseteq> ao_id ` set arr"
    using after_fill_old[OF step.hyps(3)] by (metis image_eqI image_subsetI)
  with step show ?case by auto
qed

definition set_opposing :: "abs_book \<Rightarrow> string \<Rightarrow> abs_order list \<Rightarrow> abs_book" where
  "set_opposing ab side opp = (if side = ''BUY'' then ab\<lparr>ab_asks := opp\<rparr> else ab\<lparr>ab_bids := opp\<rparr>)"

definition add_own :: "abs_book \<Rightarrow> string \<Rightarrow> abs_order list \<Rightarrow> abs_book" where
  "add_own ab side new =
     (if side = ''BUY'' then ab\<lparr>ab_bids := ab_bids ab @ new\<rparr> else ab\<lparr>ab_asks := ab_asks ab @ new\<rparr>)"

lemma opp_key_simps: "opp_key ''BUY'' = (\<lambda>p. p)" "opp_key ''SELL'' = uminus"
  by (simp_all add: opp_key_def fun_eq_iff)

lemma match_book_refines:
  assumes rel: "book_rel b ab" and side: "side = ''BUY'' \<or> side = ''SELL''" and "in_i64 qty"
    and fill: "spec_fill (opp_key side) (\<lambda>p. \<not> accepts side market limit p) qty (opposing ab side)
      = (fs, left, opp)"
  shows "\<exists>b'. match_book b side market limit qty =
      Inr (map (spec_trade (spec_band ab side market limit) market) fs, left, b') \<and>
    book_rel b' (set_opposing ab side opp)"
proof -
  have asks: "side_rel (\<lambda>p. p) (ob_asks b) (ab_asks ab)" and bids: "side_rel uminus (ob_bids b) (ab_bids ab)"
    and dist: "distinct (book_ids ab)" and live: "\<And>i ref. ob_live b i = Some ref \<longleftrightarrow> live_says ab i ref"
    using rel by (auto simp: book_rel_def)
  let ?live = "ob_live b |` (- used_up fs)"
  have od: "distinct (map ao_id (opposing ab side))"
    using dist by (auto simp: opposing_def book_ids_def)
  note fill_ids = spec_fill_ids[OF fill od] and fill_says = spec_fill_says[OF fill od]
  note used = used_up_ids[OF fill]
  have restrict: "?live i = Some ref \<longleftrightarrow> live_says ab i ref \<and> i \<notin> used_up fs" for i ref
    by (auto simp: restrict_map_def live)
  have ids': "distinct (book_ids (set_opposing ab side opp))"
    using side fill_ids dist by (auto simp: set_opposing_def opposing_def book_ids_def)
  have own: "i \<notin> used_up fs" if "says (ab_bids ab) i p" "side = ''BUY''" for i p
    using that used dist says_id[OF that(1)] by (auto simp: book_ids_def opposing_def)
  have own': "i \<notin> used_up fs" if "says (ab_asks ab) i p" "side = ''SELL''" for i p
    using that used dist says_id[OF that(1)] by (auto simp: book_ids_def opposing_def)
  have live': "?live i = Some ref \<longleftrightarrow> live_says (set_opposing ab side opp) i ref" for i ref
    using side fill_says own own'
    by (auto simp: restrict live_says_iff set_opposing_def opposing_def)
  have band: "agg_band b side market limit = spec_band ab side market limit"
    by (rule agg_band_refines[OF rel side])
  from side show ?thesis
  proof
    assume s: "side = ''BUY''"
    with fill match_loop_refines[OF asks assms(3), of "\<lambda>p. \<not> accepts side market limit p" fs left opp
        "spec_band ab side market limit" market "ob_live b" "[]"]
    obtain ls' where "match_loop (\<lambda>p. \<not> accepts side market limit p) (spec_band ab side market limit)
        market qty (ob_asks b) (ob_live b) [] =
        Inr (map (spec_trade (spec_band ab side market limit) market) fs, left, ls', ?live)"
      "side_rel (\<lambda>p. p) ls' opp"
      by (auto simp: opp_key_simps opposing_def)
    with s bids ids' live' show ?thesis
      by (simp add: match_book_def band[unfolded s] accepts_def book_rel_def set_opposing_def not_le)
  next
    assume s: "side = ''SELL''"
    with fill match_loop_refines[OF bids assms(3), of "\<lambda>p. \<not> accepts side market limit p" fs left opp
        "spec_band ab side market limit" market "ob_live b" "[]"]
    obtain ls' where "match_loop (\<lambda>p. \<not> accepts side market limit p) (spec_band ab side market limit)
        market qty (ob_bids b) (ob_live b) [] =
        Inr (map (spec_trade (spec_band ab side market limit) market) fs, left, ls', ?live)"
      "side_rel uminus ls' opp"
      by (auto simp: opp_key_simps opposing_def)
    with s asks ids' live' show ?thesis
      by (simp add: match_book_def band[unfolded s] accepts_def book_rel_def set_opposing_def not_le)
  qed
qed

lemma rest_refines:
  assumes rel: "book_rel b ab" and side: "side = ''BUY'' \<or> side = ''SELL''"
    and "0 < q" "in_i64 q" and new: "i \<notin> set (book_ids ab)"
  shows "book_rel (rest_order b i side p q)
    (add_own ab side [\<lparr>ao_id = i, ao_price = p, ao_qty = q\<rparr>])"
proof -
  let ?r = "\<lparr>ro_botID = i, ro_qty = q\<rparr>"
  have asks: "side_rel (\<lambda>p. p) (ob_asks b) (ab_asks ab)" and bids: "side_rel uminus (ob_bids b) (ab_bids ab)"
    and dist: "distinct (book_ids ab)" and live: "\<And>i ref. ob_live b i = Some ref \<longleftrightarrow> live_says ab i ref"
    using rel by (auto simp: book_rel_def)
  have abs: "abs_of p ?r = \<lparr>ao_id = i, ao_price = p, ao_qty = q\<rparr>" "order_ok (abs_of p ?r)"
    using assms(3,4) by (simp_all add: abs_of_def order_ok_def)
  note asks' = ask_side.side_rel_ins[OF asks abs(2)] and bids' = bid_side.side_rel_ins[OF bids abs(2)]
  have none: "\<not> says (ab_bids ab) i p'" "\<not> says (ab_asks ab) i p'" for p'
    using new by (auto simp: book_ids_def dest: says_id)
  have live': "((ob_live b)(i \<mapsto> \<lparr>lr_side = side, lr_price = p\<rparr>)) j = Some ref \<longleftrightarrow>
      live_says (add_own ab side [\<lparr>ao_id = i, ao_price = p, ao_qty = q\<rparr>]) j ref" for j ref
    using side none by (cases ref) (auto simp: live live_says_iff add_own_def)
  have "ob_live (rest_order b i side p q) = (ob_live b)(i \<mapsto> \<lparr>lr_side = side, lr_price = p\<rparr>)"
    by (simp add: rest_order_def Let_def)
  note live'' = live'[folded this]
  have "side_rel uminus (ob_bids (rest_order b i side p q))
      (ab_bids (add_own ab side [\<lparr>ao_id = i, ao_price = p, ao_qty = q\<rparr>]))"
    using side bids bids' by (auto simp: rest_order_def add_own_def abs)
  moreover have "side_rel (\<lambda>p. p) (ob_asks (rest_order b i side p q))
      (ab_asks (add_own ab side [\<lparr>ao_id = i, ao_price = p, ao_qty = q\<rparr>]))"
    using side asks asks' by (auto simp: rest_order_def add_own_def abs)
  moreover have "distinct (book_ids (add_own ab side [\<lparr>ao_id = i, ao_price = p, ao_qty = q\<rparr>]))"
    using side dist new by (auto simp: add_own_def book_ids_def)
  ultimately show ?thesis
    unfolding book_rel_def using live'' by blast
qed

lemma submit_order_rests:
  "submit_order b i side orderType limit qty =
     (let otype = norm_token orderType; market = (otype = ''MARKET'') in
      if otype = ''FOK'' \<and> \<not> canFullyFill b side market limit qty then Inr ([], b)
      else (case match_book b side market limit qty of
          Inl e \<Rightarrow> Inl e
        | Inr (trades, left, b') \<Rightarrow>
            Inr (trades, if 0 < left \<and> spec_rests otype then rest_order b' i side limit left else b')))"
proof -
  have "(if 0 < r then if otype = ''MARKET'' \<or> otype = ''FAK'' then b'
         else if \<not> (otype = ''MARKET'') then rest_order b' i side limit r else b' else b') =
      (if 0 < r \<and> spec_rests otype then rest_order b' i side limit r else b')" for r otype b'
    by (simp add: spec_rests_def)
  then show ?thesis by (simp only: submit_order_def Let_def)
qed

lemma set_opposing_add_own:
  "add_own (set_opposing ab side opp) side new =
     (if side = ''BUY'' then \<lparr>ab_bids = ab_bids ab @ new, ab_asks = opp\<rparr>
      else \<lparr>ab_bids = opp, ab_asks = ab_asks ab @ new\<rparr>)"
  by (simp add: set_opposing_def add_own_def)

lemma spec_submit_unfold:
  assumes "spec_fill (opp_key side) (\<lambda>p. \<not> accepts side (norm_token orderType = ''MARKET'') limit p) qty
      (opposing ab side) = (fs, left, opp)"
  shows "spec_submit ab i side orderType limit qty =
    (if norm_token orderType = ''FOK'' \<and> available ab side (norm_token orderType = ''MARKET'') limit < qty then ([], ab)
     else (map (spec_trade (spec_band ab side (norm_token orderType = ''MARKET'') limit)
             (norm_token orderType = ''MARKET'')) fs,
           add_own (set_opposing ab side opp) side
             (if 0 < left \<and> spec_rests (norm_token orderType)
              then [\<lparr>ao_id = i, ao_price = limit, ao_qty = left\<rparr>] else [])))"
  unfolding set_opposing_add_own
  using assms by (simp add: spec_submit_def Let_def split del: if_split)

lemma add_own_Nil [simp]: "add_own ab side [] = ab"
  by (simp add: add_own_def)

lemma book_ids_set_opposing:
  assumes "spec_fill key stp need (opposing ab side) = (fs, left, opp)"
  shows "set (book_ids (set_opposing ab side opp)) \<subseteq> set (book_ids ab)"
proof -
  have "ao_id ` set opp \<subseteq> ao_id ` set (opposing ab side)"
    using spec_fill_old[OF assms] by (metis image_eqI image_subsetI)
  then show ?thesis by (auto simp: set_opposing_def opposing_def book_ids_def split: if_splits)
qed

lemma submit_rel:
  assumes rel: "book_rel b ab" and side: "side = ''BUY'' \<or> side = ''SELL''"
    and qty: "in_i64 qty" and new: "i \<notin> set (book_ids ab)"
  shows "\<exists>b'. submit_order b i side orderType limit qty =
      Inr (fst (spec_submit ab i side orderType limit qty), b') \<and>
    book_rel b' (snd (spec_submit ab i side orderType limit qty))"
proof -
  define otype where "otype = norm_token orderType"
  define market where "market = (otype = ''MARKET'')"
  obtain fs left opp where fill: "spec_fill (opp_key side) (\<lambda>p. \<not> accepts side market limit p) qty
      (opposing ab side) = (fs, left, opp)" by (metis prod_cases3)
  have ok: "list_all order_ok (opposing ab side)"
    using rel by (auto simp: book_rel_def opposing_def dest: side_rel_ok)
  note unfold = spec_submit_unfold[of side orderType limit qty ab fs left opp i,
      folded otype_def, folded market_def, OF fill]
  note submit = submit_order_rests[of b i side orderType limit qty, unfolded Let_def, folded otype_def, folded market_def]
  obtain b1 where m: "match_book b side market limit qty =
      Inr (map (spec_trade (spec_band ab side market limit) market) fs, left, b1)"
    and rel1: "book_rel b1 (set_opposing ab side opp)"
    using match_book_refines[OF rel side qty fill] by blast
  show ?thesis
  proof (cases "0 < qty")
    case False
    then have "fs = []" "left = qty" "opp = opposing ab side" using fill by auto
    moreover from this have "add_own (set_opposing ab side opp) side [] = ab"
      by (simp add: set_opposing_def opposing_def)
    ultimately show ?thesis
      using False m rel rel1
      by (auto simp: unfold submit)
  next
    case pos: True
    have fok: "canFullyFill b side market limit qty \<longleftrightarrow> qty \<le> available ab side market limit"
      by (rule canFullyFill_refines[OF rel side pos qty])
    show ?thesis
    proof (cases "otype = ''FOK'' \<and> available ab side market limit < qty")
      case True
      with rel fok show ?thesis
        by (simp add: unfold submit)
    next
      case False
      show ?thesis
      proof (cases "0 < left \<and> spec_rests otype")
        case True
        have "in_i64 left"
          using spec_fill_need[OF fill] spec_fill_fills_nonneg[OF fill ok] True qty
            in_i64_mono[of qty left] by simp
        moreover have "i \<notin> set (book_ids (set_opposing ab side opp))"
          using new book_ids_set_opposing[OF fill] by blast
        ultimately have "book_rel (rest_order b1 i side limit left)
            (add_own (set_opposing ab side opp) side [\<lparr>ao_id = i, ao_price = limit, ao_qty = left\<rparr>])"
          using rest_refines[OF rel1 side] True by blast
        with False True fok m show ?thesis
          by (auto simp: unfold submit)
      next
        case nr: False
        with False fok m rel1 show ?thesis
          by (auto simp: unfold submit)
      qed
    qed
  qed
qed

text \<open>
  C6. Price-time priority: on a book whose contents are those of an abstract book, an order with a new id
  does not panic, produces exactly the trades of the specification (best price first, oldest order
  first, all or nothing for FOK, nothing left of MARKET and FAK) and leaves the specified book.
\<close>

theorem submit_refines:
  assumes rel: "book_rel b ab" and side: "side = ''BUY'' \<or> side = ''SELL''"
    and qty: "in_i64 qty" and new: "i \<notin> set (book_ids ab)"
  shows "\<exists>b'. submit_order b i side orderType limit qty =
      Inr (fst (spec_submit ab i side orderType limit qty), b') \<and>
    book_rel b' (snd (spec_submit ab i side orderType limit qty))"
  by (rule submit_rel[OF assms])

theorem submit_refines_witness:
  "\<exists>b'. submit_order sample_book ''x'' ''BUY'' ''LIMIT'' 101 12 =
      Inr (fst (spec_submit sample_abs ''x'' ''BUY'' ''LIMIT'' 101 12), b') \<and>
    book_rel b' (snd (spec_submit sample_abs ''x'' ''BUY'' ''LIMIT'' 101 12))"
  by (rule submit_refines[OF sample_rel]) (simp_all add: in_i64_def sample_abs_def book_ids_def)

end
