(* ===== verification/BookSafety.thy ===== *)
theory BookSafety
  imports AbstractBook
begin

text \<open>
  What holds of every book that operations can build, whatever ids the orders carry: the levels stay
  ordered and non-empty, the book never crosses, \<open>submit\<close> never panics, and what each order type does
  with its remainder. The refinement of \<open>AbstractBook\<close> needs fresh ids; nothing here does.
\<close>

section \<open>Reachable books\<close>

definition is_side :: "string \<Rightarrow> bool" where
  "is_side s \<longleftrightarrow> s = ''BUY'' \<or> s = ''SELL''"

inductive book_reach :: "order_book \<Rightarrow> bool" where
  empty: "book_reach newOrderBook"
| submit: "book_reach b \<Longrightarrow> is_side side \<Longrightarrow> in_i64 qty \<Longrightarrow>
    submit_order b i side orderType limit qty = Inr (trades, b') \<Longrightarrow> book_reach b'"
| cancel: "book_reach b \<Longrightarrow> book_reach (snd (cancel_order b i))"

definition uncrossed :: "order_book \<Rightarrow> bool" where
  "uncrossed b \<longleftrightarrow>
     (\<forall>x \<in> set (flat (ob_bids b)). \<forall>y \<in> set (flat (ob_asks b)). ao_price x < ao_price y)"

definition book_inv :: "order_book \<Rightarrow> bool" where
  "book_inv b \<longleftrightarrow> levels_wf uminus (ob_bids b) \<and> levels_wf (\<lambda>p. p) (ob_asks b) \<and> uncrossed b"

definition opp_levels :: "order_book \<Rightarrow> string \<Rightarrow> price_level list" where
  "opp_levels b side = (if side = ''BUY'' then ob_asks b else ob_bids b)"

definition own_levels :: "order_book \<Rightarrow> string \<Rightarrow> price_level list" where
  "own_levels b side = (if side = ''BUY'' then ob_bids b else ob_asks b)"

definition own_key :: "string \<Rightarrow> int \<Rightarrow> int" where
  "own_key side = (if side = ''BUY'' then uminus else (\<lambda>p. p))"

definition book_units :: "price_level list \<Rightarrow> int" where
  "book_units ls = (\<Sum>x \<leftarrow> flat ls. ao_qty x)"

definition traded :: "trade list \<Rightarrow> int" where
  "traded ts = (\<Sum>t \<leftarrow> ts. tr_qty t)"

lemma side_rel_flat:
  assumes "levels_wf (opp_key side) ls"
  shows "side_rel (opp_key side) ls (flat ls)"
proof -
  have "sorted (map (okey (opp_key side)) (flat ls))"
    using ask_side.sorted_flat[of ls] bid_side.sorted_flat[of ls] assms
    by (cases "side = ''BUY''") (auto simp: opp_key_def[abs_def])
  then show ?thesis using assms by (simp add: side_rel_def sort_key_id_if_sorted)
qed

lemma book_inv_levels:
  assumes "book_inv b"
  shows "levels_wf (opp_key side) (opp_levels b side)" "levels_wf (own_key side) (own_levels b side)"
  using assms
  by (auto simp: book_inv_def opp_key_def[abs_def] own_key_def opp_levels_def own_levels_def)

lemma stop_mono: "\<not> accepts side market limit p \<Longrightarrow> opp_key side p \<le> opp_key side q \<Longrightarrow>
    \<not> accepts side market limit q"
  by (auto simp: accepts_def opp_key_def split: if_splits)

lemma match_book_flat:
  assumes "book_inv b" and "is_side side" and "in_i64 qty"
    and fill: "spec_fill (opp_key side) (\<lambda>p. \<not> accepts side market limit p) qty
      (flat (opp_levels b side)) = (fs, left, opp)"
  shows "\<exists>b'. match_book b side market limit qty =
      Inr (map (spec_trade (agg_band b side market limit) market) fs, left, b') \<and>
    own_levels b' side = own_levels b side \<and> side_rel (opp_key side) (opp_levels b' side) opp"
proof -
  have rel: "side_rel (opp_key side) (opp_levels b side) (flat (opp_levels b side))"
    by (rule side_rel_flat[OF book_inv_levels(1)[OF assms(1)]])
  from match_loop_refines[OF rel assms(3) fill, of "agg_band b side market limit" market "ob_live b" "[]"]
  obtain ls' where "match_loop (\<lambda>p. \<not> accepts side market limit p) (agg_band b side market limit)
      market qty (opp_levels b side) (ob_live b) [] =
      Inr (map (spec_trade (agg_band b side market limit) market) fs, left, ls', ob_live b |` (- used_up fs))"
    "side_rel (opp_key side) ls' opp" by auto
  with assms(2) show ?thesis
    by (auto simp: match_book_def accepts_def opp_levels_def own_levels_def is_side_def not_le)
qed

lemma canFullyFill_flat:
  assumes "book_inv b" and "is_side side" and "0 < qty" "in_i64 qty"
  shows "canFullyFill b side market limit qty \<longleftrightarrow> qty \<le>
    (\<Sum>x \<leftarrow> filter (\<lambda>x. accepts side market limit (ao_price x)) (flat (opp_levels b side)). ao_qty x)"
proof -
  have "canFullyFill b side market limit qty \<longleftrightarrow>
      need_levels (\<lambda>p. \<not> accepts side market limit p) qty (opp_levels b side)"
    using assms(2) by (auto simp: canFullyFill_def accepts_def is_side_def opp_levels_def not_le)
  also have "\<dots> \<longleftrightarrow> qty \<le>
      (\<Sum>x \<leftarrow> filter (\<lambda>x. accepts side market limit (ao_price x)) (flat (opp_levels b side)). ao_qty x)"
    using need_levels_sum[OF assms(3,4) book_inv_levels(1)[OF assms(1), of side]] stop_mono by simp
  finally show ?thesis .
qed

section \<open>The effect of a submission\<close>

text \<open>
  One lemma that says everything about a submission on a good book, in terms of the fill \<open>fs\<close> of the
  opposing side: the safety properties below are read off it.
\<close>

definition fok_fails :: "order_book \<Rightarrow> string \<Rightarrow> string \<Rightarrow> int \<Rightarrow> int \<Rightarrow> bool" where
  "fok_fails b side orderType limit qty \<longleftrightarrow>
     norm_token orderType = ''FOK'' \<and> \<not> canFullyFill b side False limit qty"

lemma submit_effect:
  assumes "book_inv b" and "is_side side" and "in_i64 qty" and "\<not> fok_fails b side orderType limit qty"
  obtains fs left opp b' where
    "spec_fill (opp_key side) (\<lambda>p. \<not> accepts side (norm_token orderType = ''MARKET'') limit p) qty
       (flat (opp_levels b side)) = (fs, left, opp)"
    "submit_order b i side orderType limit qty =
       Inr (map (spec_trade (agg_band b side (norm_token orderType = ''MARKET'') limit)
              (norm_token orderType = ''MARKET'')) fs, b')"
    "side_rel (opp_key side) (opp_levels b' side) opp"
    "own_levels b' side =
       (if 0 < left \<and> spec_rests (norm_token orderType)
        then insertLevel (own_levels b side) limit \<lparr>ro_botID = i, ro_qty = left\<rparr> (side = ''BUY'')
        else own_levels b side)"
proof -
  define otype where "otype = norm_token orderType"
  define market where "market = (otype = ''MARKET'')"
  obtain fs left opp where fill: "spec_fill (opp_key side) (\<lambda>p. \<not> accepts side market limit p) qty
      (flat (opp_levels b side)) = (fs, left, opp)" by (metis prod_cases3)
  obtain b1 where m: "match_book b side market limit qty =
      Inr (map (spec_trade (agg_band b side market limit) market) fs, left, b1)"
    "own_levels b1 side = own_levels b side" "side_rel (opp_key side) (opp_levels b1 side) opp"
    using match_book_flat[OF assms(1-3) fill] by blast
  have nofail: "\<not> (otype = ''FOK'' \<and> \<not> canFullyFill b side market limit qty)"
    using assms(4) by (auto simp: fok_fails_def otype_def market_def)
  have "submit_order b i side orderType limit qty =
      Inr (map (spec_trade (agg_band b side market limit) market) fs,
        if 0 < left \<and> spec_rests otype then rest_order b1 i side limit left else b1)"
    by (simp only: submit_order_rests Let_def otype_def[symmetric] market_def[symmetric] nofail m(1)
        if_False sum.case prod.case)
  with that[OF fill[unfolded market_def otype_def]] m show thesis
    by (auto simp: otype_def market_def rest_order_def opp_levels_def own_levels_def split: if_splits)
qed

lemma submit_fok_fails:
  "fok_fails b side orderType limit qty \<Longrightarrow> submit_order b i side orderType limit qty = Inr ([], b)"
  by (simp add: fok_fails_def submit_order_def)

section \<open>Every reachable book is good\<close>

lemma insertLevel_wf:
  assumes "levels_wf (own_key side) ls" and "0 < q" "in_i64 q"
  shows "levels_wf (own_key side) (insertLevel ls p \<lparr>ro_botID = i, ro_qty = q\<rparr> (side = ''BUY''))"
  using assms bid_side.levels_wf_ins[of ls p "\<lparr>ro_botID = i, ro_qty = q\<rparr>"]
    ask_side.levels_wf_ins[of ls p "\<lparr>ro_botID = i, ro_qty = q\<rparr>"]
  by (auto simp: own_key_def order_ok_def split: if_splits)

lemma insertLevel_mset:
  "mset (flat (insertLevel ls p r desc)) = mset (flat ls) + {#abs_of p r#}"
  using bid_side.mset_flat_ins[of ls p r] ask_side.mset_flat_ins[of ls p r]
  by (cases desc) auto

lemma insertLevel_set: "set (flat (insertLevel ls p r desc)) = insert (abs_of p r) (set (flat ls))"
  using arg_cong[OF insertLevel_mset[of ls p r desc], of set_mset] by simp

lemma book_inv_sides:
  assumes "is_side side"
  shows "book_inv b \<longleftrightarrow>
    levels_wf (opp_key side) (opp_levels b side) \<and> levels_wf (own_key side) (own_levels b side) \<and>
    (\<forall>x \<in> set (flat (own_levels b side)). \<forall>y \<in> set (flat (opp_levels b side)).
       own_key side (ao_price x) + opp_key side (ao_price y) > 0)"
  using assms
  by (auto simp: book_inv_def is_side_def opp_key_simps own_key_def opp_levels_def own_levels_def
      uncrossed_def)

text \<open>The remainder that rests cannot cross: what it could trade with is gone.\<close>

lemma left_in_i64:
  assumes "spec_fill key stp qty arr = (fs, left, opp)" and "list_all order_ok arr"
    and "in_i64 qty" and "0 < left"
  shows "in_i64 left"
  using spec_fill_need[OF assms(1)] spec_fill_fills_nonneg[OF assms(1,2)] assms(3,4)
    in_i64_mono[of qty left] by simp

lemma opp_ok: "book_inv b \<Longrightarrow> list_all order_ok (flat (opp_levels b side))"
  using book_inv_levels(1)[of b side] by (simp add: levels_wf_def)

lemma submit_inv [inv_intro]:
  assumes inv: "book_inv b" and side: "is_side side" and qty: "in_i64 qty"
    and sub: "submit_order b i side orderType limit qty = Inr (trades, b')"
  shows "book_inv b'"
proof (cases "fok_fails b side orderType limit qty")
  case True
  with sub inv submit_fok_fails show ?thesis by auto
next
  case False
  then obtain fs left opp b1 where fill: "spec_fill (opp_key side)
      (\<lambda>p. \<not> accepts side (norm_token orderType = ''MARKET'') limit p) qty
      (flat (opp_levels b side)) = (fs, left, opp)"
    and sub': "submit_order b i side orderType limit qty = Inr (map (spec_trade
      (agg_band b side (norm_token orderType = ''MARKET'') limit) (norm_token orderType = ''MARKET'')) fs, b1)"
    and rel: "side_rel (opp_key side) (opp_levels b1 side) opp"
    and own: "own_levels b1 side =
       (if 0 < left \<and> spec_rests (norm_token orderType)
        then insertLevel (own_levels b side) limit \<lparr>ro_botID = i, ro_qty = left\<rparr> (side = ''BUY'')
        else own_levels b side)"
    by (rule submit_effect[OF inv side qty, of orderType limit i])
  have b': "b' = b1" using sub sub' by simp
  have inv': "levels_wf (own_key side) (own_levels b side)"
    "\<forall>x \<in> set (flat (own_levels b side)). \<forall>y \<in> set (flat (opp_levels b side)).
       own_key side (ao_price x) + opp_key side (ao_price y) > 0"
    using inv by (auto simp: book_inv_sides[OF side])
  have "in_i64 left" if "0 < left" using left_in_i64[OF fill opp_ok[OF inv] qty that] .
  then have wf: "levels_wf (own_key side) (own_levels b' side)"
    using insertLevel_wf[OF inv'(1)] inv'(1) by (auto simp: b' own)
  have old: "\<exists>y \<in> set (flat (opp_levels b side)). ao_price y = ao_price x"
    if "x \<in> set (flat (opp_levels b' side))" for x
    using that spec_fill_old[OF fill, of x] side_rel_set[OF rel] by (auto simp: b')
  have new: "own_key side limit + opp_key side (ao_price y) > 0"
    if "0 < left" "spec_rests (norm_token orderType)" "y \<in> set (flat (opp_levels b' side))" for y
  proof -
    have "\<not> accepts side (norm_token orderType = ''MARKET'') limit (ao_price y)"
      using that side_rel_set[OF rel] by (intro spec_fill_exhausted[OF fill]) (auto simp: b' stop_mono)
    then show ?thesis
      using that(2) side
      by (auto simp: accepts_def own_key_def opp_key_def spec_rests_def is_side_def split: if_splits)
  qed
  have cross: "own_key side (ao_price x) + opp_key side (ao_price y) > 0"
    if "x \<in> set (flat (own_levels b side))" "y \<in> set (flat (opp_levels b' side))" for x y
    using that(1) old[OF that(2)] inv'(2) by metis
  have "own_key side (ao_price x) + opp_key side (ao_price y) > 0"
    if "x \<in> set (flat (own_levels b' side))" "y \<in> set (flat (opp_levels b' side))" for x y
    using that new[OF _ _ that(2)] cross[OF _ that(2)]
    by (auto simp: own b' insertLevel_set split: if_splits)
  with wf rel show ?thesis by (auto simp: book_inv_sides[OF side] side_rel_wf b')
qed

lemma cancel_inv [inv_intro]:
  assumes "book_inv b"
  shows "book_inv (snd (cancel_order b i))"
proof (cases "ob_live b i")
  case None
  with assms show ?thesis by (simp add: cancel_order_def)
next
  case (Some ref)
  with assms show ?thesis
    using cancel_flat_subset[of i "lr_price ref" "ob_bids b"] cancel_flat_subset[of i "lr_price ref" "ob_asks b"]
    by (simp add: book_inv_def cancel_order_def uncrossed_def levels_wf_cancel Let_def) (meson subsetD)
qed

lemma book_reach_inv: "book_reach b \<Longrightarrow> book_inv b"
proof (induction rule: book_reach.induct)
  case empty
  show ?case by (simp add: book_inv_def newOrderBook_def uncrossed_def)
next
  case submit
  then show ?case by (blast intro: submit_inv)
next
  case cancel
  then show ?case by (blast intro: cancel_inv)
qed

lemma submit_total:
  assumes "book_inv b" and "is_side side" and "in_i64 qty"
  obtains trades b' where "submit_order b i side orderType limit qty = Inr (trades, b')"
proof (cases "fok_fails b side orderType limit qty")
  case True
  with that show thesis by (simp add: submit_fok_fails)
next
  case False
  show thesis by (rule submit_effect[OF assms False, of i]) (rule that)
qed

section \<open>What a submission trades\<close>

lemma traded_fills: "traded (map (spec_trade band market) fs) = (\<Sum>(b, m) \<leftarrow> fs. m)"
  by (induction fs) (auto simp: traded_def spec_trade_def)

text \<open>
  Opposing orders that a fill-or-kill order accepts cover it, so its fill leaves nothing over.
\<close>

lemma spec_fill_accepted_total:
  "spec_fill key stp need arr = (fs, left, opp) \<Longrightarrow>
     (\<Sum>x \<leftarrow> filter (\<lambda>x. \<not> stp (ao_price x)) opp. ao_qty x) =
     (\<Sum>x \<leftarrow> filter (\<lambda>x. \<not> stp (ao_price x)) arr. ao_qty x) - (\<Sum>(b, m) \<leftarrow> fs. m)"
  by (induction rule: spec_fill_induct)
    (auto simp: after_fill_def sum_list_map_filter' sum_list_remove1 sum_list_replace1)

lemma fok_fills_all:
  assumes fill: "spec_fill key stp need arr = (fs, left, opp)"
    and mono: "\<And>p q. stp p \<Longrightarrow> key p \<le> key q \<Longrightarrow> stp q"
    and enough: "need \<le> (\<Sum>x \<leftarrow> filter (\<lambda>x. \<not> stp (ao_price x)) arr. ao_qty x)"
  shows "left \<le> 0"
proof (rule ccontr)
  assume "\<not> left \<le> 0"
  then have "\<forall>x \<in> set opp. stp (ao_price x)"
    using spec_fill_exhausted[OF fill _ mono] by auto
  then have "filter (\<lambda>x. \<not> stp (ao_price x)) opp = []" by (simp add: filter_empty_conv)
  with spec_fill_accepted_total[OF fill] spec_fill_need[OF fill] enough \<open>\<not> left \<le> 0\<close>
  show False by simp
qed

lemma sample_book_reach: "book_reach sample_book"
proof -
  note run = submit_order_def Let_def match_book_def agg_band_def rest_order_def newOrderBook_def
    match_loop.simps sample_book_def
  let ?b1 = "rest_order newOrderBook ''b1'' ''BUY'' 99 10"
  let ?b2 = "rest_order ?b1 ''a1'' ''SELL'' 101 5"
  have s1: "submit_order newOrderBook ''b1'' ''BUY'' ''LIMIT'' 99 10 = Inr ([], ?b1)"
    and s2: "submit_order ?b1 ''a1'' ''SELL'' ''LIMIT'' 101 5 = Inr ([], ?b2)"
    and s3: "submit_order ?b2 ''a2'' ''SELL'' ''LIMIT'' 102 7 = Inr ([], sample_book)"
    by (simp_all add: run fun_upd_twist)
  note side = is_side_def in_i64_def
  have "book_reach ?b1" by (rule book_reach.submit[OF book_reach.empty _ _ s1]) (simp_all add: side)
  then have "book_reach ?b2" by (rule book_reach.submit[OF _ _ _ s2]) (simp_all add: side)
  then show ?thesis by (rule book_reach.submit[OF _ _ _ s3]) (simp_all add: side)
qed

text \<open>The book after an order has taken both asks of the sample.\<close>

lemma sample_sweep:
  "submit_order sample_book ''x'' ''BUY'' ''FOK'' 102 12 =
     Inr ([\<lparr>tr_makerBot = ''a1'', tr_qty = 5, tr_makerPrice = 101, tr_aggLimit = 102, tr_aggMarket = False\<rparr>,
           \<lparr>tr_makerBot = ''a2'', tr_qty = 7, tr_makerPrice = 102, tr_aggLimit = 102, tr_aggMarket = False\<rparr>],
          sample_book\<lparr>ob_asks := [], ob_live := (ob_live sample_book)(''a1'' := None, ''a2'' := None)\<rparr>)"
  by (simp add: submit_order_def Let_def canFullyFill_def match_book_def agg_band_def match_loop.simps
      mk_trade_def sample_book_def i64_def)

lemma sample_partial:
  "submit_order sample_book ''x'' ''BUY'' ''LIMIT'' 101 12 =
     Inr ([\<lparr>tr_makerBot = ''a1'', tr_qty = 5, tr_makerPrice = 101, tr_aggLimit = 101, tr_aggMarket = False\<rparr>],
          rest_order (sample_book\<lparr>ob_asks := [\<lparr>pl_price = 102, pl_orders = [\<lparr>ro_botID = ''a2'', ro_qty = 7\<rparr>]\<rparr>],
            ob_live := (ob_live sample_book)(''a1'' := None)\<rparr>) ''x'' ''BUY'' 101 7)"
  by (simp add: submit_order_def Let_def match_book_def agg_band_def match_loop.simps
      mk_trade_def sample_book_def i64_def)

text \<open>
  C12. On every book that submissions and cancellations build, whatever ids they use, the two sides stay
  sorted from best to worst without empty levels and with positive quantities, the best bid is below
  the best ask, and no further submission panics.
\<close>

theorem reachable_book_good:
  assumes "book_reach b" and "is_side side" and "in_i64 qty"
  shows "levels_wf uminus (ob_bids b) \<and> levels_wf (\<lambda>p. p) (ob_asks b) \<and> uncrossed b \<and>
    (\<exists>trades b'. submit_order b i side orderType limit qty = Inr (trades, b'))"
proof -
  note inv = book_reach_inv[OF assms(1)]
  then have "\<exists>trades b'. submit_order b i side orderType limit qty = Inr (trades, b')"
    using submit_total[OF inv assms(2,3)] by metis
  with inv show ?thesis by (simp add: book_inv_def)
qed

theorem reachable_book_good_witness:
  "levels_wf uminus (ob_bids sample_book) \<and> levels_wf (\<lambda>p. p) (ob_asks sample_book) \<and>
    uncrossed sample_book \<and>
    (\<exists>trades b'. submit_order sample_book ''x'' ''BUY'' ''MARKET'' 0 9 = Inr (trades, b'))"
  by (rule reachable_book_good[OF sample_book_reach]) (simp_all add: is_side_def in_i64_def)

definition rest_left :: "string \<Rightarrow> int \<Rightarrow> int" where
  "rest_left orderType left = (if 0 < left \<and> spec_rests (norm_token orderType) then left else 0)"

lemma book_units_insert:
  "book_units (insertLevel ls p r desc) = book_units ls + ro_qty r"
proof -
  have "mset (map ao_qty (flat (insertLevel ls p r desc))) =
      mset (map ao_qty (flat ls @ [abs_of p r]))"
    by (simp add: insertLevel_mset)
  then have "sum_list (map ao_qty (flat (insertLevel ls p r desc))) =
      sum_list (map ao_qty (flat ls @ [abs_of p r]))"
    by (metis sum_mset_sum_list)
  then show ?thesis by (simp add: book_units_def)
qed

lemma book_units_side_rel: "side_rel key ls arr \<Longrightarrow> book_units ls = (\<Sum>x \<leftarrow> arr. ao_qty x)"
  using side_rel_sum[of key ls arr "\<lambda>_. True"] by (simp add: book_units_def)

text \<open>
  C36. A submission on a reachable book trades at most its quantity, every trade is positive, at a price
  its limit accepts, and the quantity that leaves the opposing side is the quantity traded; what
  remains of a LIMIT or GFD order rests on its own side, and nothing else does: units are conserved.
\<close>

theorem submit_conserves_units:
  assumes reach: "book_reach b" and side: "is_side side" and qty: "in_i64 qty" and pos: "0 < qty"
    and ok: "\<not> fok_fails b side orderType limit qty"
    and sub: "submit_order b i side orderType limit qty = Inr (trades, b')"
  shows "0 \<le> traded trades \<and> traded trades \<le> qty \<and>
    (\<forall>t \<in> set trades. 0 < tr_qty t \<and>
       accepts side (norm_token orderType = ''MARKET'') limit (tr_makerPrice t)) \<and>
    book_units (opp_levels b' side) = book_units (opp_levels b side) - traded trades \<and>
    book_units (own_levels b' side) =
      book_units (own_levels b side) + rest_left orderType (qty - traded trades)"
proof -
  note inv = book_reach_inv[OF reach]
  obtain fs left opp b1 where fill: "spec_fill (opp_key side)
      (\<lambda>p. \<not> accepts side (norm_token orderType = ''MARKET'') limit p) qty
      (flat (opp_levels b side)) = (fs, left, opp)"
    and sub': "submit_order b i side orderType limit qty = Inr (map (spec_trade
      (agg_band b side (norm_token orderType = ''MARKET'') limit) (norm_token orderType = ''MARKET'')) fs, b1)"
    and rel: "side_rel (opp_key side) (opp_levels b1 side) opp"
    and own: "own_levels b1 side =
       (if 0 < left \<and> spec_rests (norm_token orderType)
        then insertLevel (own_levels b side) limit \<lparr>ro_botID = i, ro_qty = left\<rparr> (side = ''BUY'')
        else own_levels b side)"
    by (rule submit_effect[OF inv side qty ok, of i])
  have b': "b' = b1" and tr: "traded trades = (\<Sum>(b, m) \<leftarrow> fs. m)"
    using sub sub' by (auto simp: traded_fills)
  have left: "left = qty - traded trades" "0 \<le> left"
    using spec_fill_need[OF fill] spec_fill_need_nonneg[OF fill] pos by (auto simp: tr)
  have each: "0 < m" "accepts side (norm_token orderType = ''MARKET'') limit (ao_price x)"
    if "(x, m) \<in> set fs" for x m
    using spec_fill_fills[OF fill opp_ok[OF inv] that] by auto
  have "0 \<le> traded trades"
    unfolding tr using spec_fill_fills_nonneg[OF fill opp_ok[OF inv]] .
  moreover have "book_units (opp_levels b' side) = book_units (opp_levels b side) - traded trades"
    using spec_fill_total[OF fill] book_units_side_rel[OF rel] by (simp add: b' tr book_units_def)
  moreover have "book_units (own_levels b' side) =
      book_units (own_levels b side) + rest_left orderType (qty - traded trades)"
    by (simp add: b' own rest_left_def left(1)[symmetric] book_units_insert)
  moreover have "\<forall>t \<in> set trades. 0 < tr_qty t \<and>
       accepts side (norm_token orderType = ''MARKET'') limit (tr_makerPrice t)"
    using each sub sub' by (auto simp: spec_trade_def)
  ultimately show ?thesis using left by simp
qed

theorem submit_conserves_units_witness:
  "\<exists>trades b'. submit_order sample_book ''x'' ''BUY'' ''LIMIT'' 101 12 = Inr (trades, b') \<and>
    book_units (opp_levels b' ''BUY'') = book_units (opp_levels sample_book ''BUY'') - traded trades \<and>
    book_units (own_levels b' ''BUY'') =
      book_units (own_levels sample_book ''BUY'') + rest_left ''LIMIT'' (12 - traded trades)"
  using submit_conserves_units[OF sample_book_reach _ _ _ _ sample_partial] sample_partial
  by (simp add: is_side_def in_i64_def fok_fails_def)

text \<open>
  A fill-or-kill order is all or nothing: on a reachable book it trades its whole quantity, or it
  trades nothing and leaves the book as it was; and it trades exactly if the opposing orders that its
  limit accepts cover it.
\<close>

theorem fok_all_or_nothing:
  assumes reach: "book_reach b" and side: "is_side side" and qty: "in_i64 qty" and pos: "0 < qty"
    and fok: "norm_token orderType = ''FOK''"
    and sub: "submit_order b i side orderType limit qty = Inr (trades, b')"
  shows "(if qty \<le> (\<Sum>x \<leftarrow> filter (\<lambda>x. accepts side False limit (ao_price x)) (flat (opp_levels b side)). ao_qty x)
     then traded trades = qty else trades = [] \<and> b' = b)"
proof -
  note inv = book_reach_inv[OF reach]
  have can: "fok_fails b side orderType limit qty \<longleftrightarrow> \<not> qty \<le>
      (\<Sum>x \<leftarrow> filter (\<lambda>x. accepts side False limit (ao_price x)) (flat (opp_levels b side)). ao_qty x)"
    using canFullyFill_flat[OF inv side pos qty] fok by (simp add: fok_fails_def)
  show ?thesis
  proof (cases "fok_fails b side orderType limit qty")
    case True
    with can sub show ?thesis by (simp add: submit_fok_fails)
  next
    case False
    then obtain fs left opp b1 where fill: "spec_fill (opp_key side)
      (\<lambda>p. \<not> accepts side (norm_token orderType = ''MARKET'') limit p) qty
      (flat (opp_levels b side)) = (fs, left, opp)"
    and sub': "submit_order b i side orderType limit qty = Inr (map (spec_trade
      (agg_band b side (norm_token orderType = ''MARKET'') limit) (norm_token orderType = ''MARKET'')) fs, b1)"
      by (rule submit_effect[OF inv side qty, of orderType limit i])
    have "traded trades = (\<Sum>(b, m) \<leftarrow> fs. m)" using sub sub' by (auto simp: traded_fills)
    moreover have "left \<le> 0"
      using False can fok by (intro fok_fills_all[OF fill]) (auto simp: stop_mono)
    ultimately have "traded trades = qty"
      using spec_fill_need[OF fill] spec_fill_need_nonneg[OF fill] pos by simp
    with False can show ?thesis by simp
  qed
qed

theorem fok_all_or_nothing_witness:
  "\<exists>trades b'. submit_order sample_book ''x'' ''BUY'' ''FOK'' 102 12 = Inr (trades, b') \<and> traded trades = 12"
proof -
  have "(\<Sum>x \<leftarrow> filter (\<lambda>x. accepts ''BUY'' False 102 (ao_price x)) (flat (opp_levels sample_book ''BUY'')). ao_qty x) = 12"
    by (simp add: sample_book_def opp_levels_def level_orders_def accepts_def)
  then show ?thesis
    using fok_all_or_nothing[OF sample_book_reach _ _ _ _ sample_sweep] sample_sweep
    by (simp add: is_side_def in_i64_def)
qed

text \<open>
  Price priority: after a submission on a reachable book, no order left on the opposing side has a
  better price than any price at which it traded.
\<close>

theorem submit_price_priority:
  assumes reach: "book_reach b" and side: "is_side side" and qty: "in_i64 qty"
    and sub: "submit_order b i side orderType limit qty = Inr (trades, b')"
  shows "\<forall>t \<in> set trades. \<forall>l \<in> set (opp_levels b' side).
    opp_key side (tr_makerPrice t) \<le> opp_key side (pl_price l)"
proof (cases "fok_fails b side orderType limit qty")
  case True
  with sub show ?thesis by (simp add: submit_fok_fails)
next
  case False
  note inv = book_reach_inv[OF reach]
  from False obtain fs left opp b1 where fill: "spec_fill (opp_key side)
      (\<lambda>p. \<not> accepts side (norm_token orderType = ''MARKET'') limit p) qty
      (flat (opp_levels b side)) = (fs, left, opp)"
    and sub': "submit_order b i side orderType limit qty = Inr (map (spec_trade
      (agg_band b side (norm_token orderType = ''MARKET'') limit) (norm_token orderType = ''MARKET'')) fs, b1)"
    and rel: "side_rel (opp_key side) (opp_levels b1 side) opp"
    by (rule submit_effect[OF inv side qty, of orderType limit i])
  have "opp_key side (ao_price x) \<le> opp_key side (pl_price l)"
    if x: "(x, m) \<in> set fs" and l: "l \<in> set (opp_levels b' side)" for x m l
  proof -
    obtain y where "y \<in> set opp" "ao_price y = pl_price l"
      using level_price_flat[OF side_rel_wf[OF rel], of l] l sub sub' side_rel_set[OF rel] by auto
    with spec_fill_priority[OF fill x] show ?thesis by fastforce
  qed
  then show ?thesis using sub sub' by (auto simp: spec_trade_def)
qed

theorem submit_price_priority_witness:
  "\<exists>trades b'. submit_order sample_book ''x'' ''BUY'' ''LIMIT'' 101 12 = Inr (trades, b') \<and>
    map tr_makerPrice trades = [101] \<and> map pl_price (opp_levels b' ''BUY'') = [102] \<and>
    opp_key ''BUY'' 101 \<le> opp_key ''BUY'' 102"
  using submit_price_priority[OF sample_book_reach _ _ sample_partial] sample_partial
  by (simp add: is_side_def in_i64_def opp_levels_def rest_order_def Let_def)

text \<open>
  An order that is MARKET, FAK or FOK, in any spelling that the code normalises, never rests: its
  own side of the book is untouched.
\<close>

theorem immediate_orders_never_rest:
  assumes reach: "book_reach b" and side: "is_side side" and qty: "in_i64 qty"
    and kind: "norm_token orderType \<in> {''MARKET'', ''FAK'', ''FOK''}"
    and sub: "submit_order b i side orderType limit qty = Inr (trades, b')"
  shows "own_levels b' side = own_levels b side"
proof (cases "fok_fails b side orderType limit qty")
  case True
  with sub show ?thesis by (simp add: submit_fok_fails)
next
  case False
  note inv = book_reach_inv[OF reach]
  from False obtain fs left opp b1 where fill: "spec_fill (opp_key side)
      (\<lambda>p. \<not> accepts side (norm_token orderType = ''MARKET'') limit p) qty
      (flat (opp_levels b side)) = (fs, left, opp)"
    and sub': "submit_order b i side orderType limit qty = Inr (map (spec_trade
      (agg_band b side (norm_token orderType = ''MARKET'') limit) (norm_token orderType = ''MARKET'')) fs, b1)"
    and own: "own_levels b1 side =
       (if 0 < left \<and> spec_rests (norm_token orderType)
        then insertLevel (own_levels b side) limit \<lparr>ro_botID = i, ro_qty = left\<rparr> (side = ''BUY'')
        else own_levels b side)"
    by (rule submit_effect[OF inv side qty, of orderType limit i])
  have "\<not> (0 < left \<and> spec_rests (norm_token orderType))"
  proof (cases "norm_token orderType = ''FOK''")
    case True
    show ?thesis
    proof (cases "0 < qty")
      case pos: True
      have "left \<le> 0"
        using False True canFullyFill_flat[OF inv side pos qty, of False limit]
        by (intro fok_fills_all[OF fill]) (auto simp: stop_mono fok_fails_def)
      then show ?thesis by simp
    next
      case neg: False
      with fill show ?thesis by auto
    qed
  next
    case no: False
    with kind show ?thesis by (auto simp: spec_rests_def)
  qed
  with own sub sub' show ?thesis by simp
qed

theorem immediate_orders_never_rest_witness:
  "\<exists>trades b'. submit_order sample_book ''x'' ''BUY'' ''FOK'' 102 12 = Inr (trades, b') \<and>
    own_levels b' ''BUY'' = own_levels sample_book ''BUY''"
  using immediate_orders_never_rest[OF sample_book_reach _ _ _ sample_sweep] sample_sweep
  by (simp add: is_side_def in_i64_def)

end
