(* ===== verification/Float64.thy ===== *)
theory Float64
  imports GoStrings "HOL-Library.Log_Nat"
begin

text \<open>
  Go's \<open>float64\<close>: IEEE 754 binary64 with rounding to nearest, ties to even, as exact rationals. The
  operations compute the exact result and round it once, which is what the hardware does. The sign of
  zero is not modelled: no operation of the services looks at it. The last sections hold
  \<open>math.Round\<close>, the conversions from and to \<open>int64\<close>, and the verb \<open>%.nf\<close> of \<open>Sprintf\<close>.
\<close>

section \<open>Values and rounding\<close>

datatype f64 = Fin rat | Inf bool \<comment> \<open>\<open>Inf True\<close> is positive infinity\<close> | NaN

definition pow2 :: "int \<Rightarrow> rat" where
  "pow2 e = (if 0 \<le> e then 2 ^ nat e else 1 / 2 ^ nat (- e))"

text \<open>The exponent \<open>e\<close> with \<open>2 ^ e \<le> x < 2 ^ (e + 1)\<close> of a positive \<open>x\<close>.\<close>

definition exponent_of :: "rat \<Rightarrow> int" where
  "exponent_of x =
     (let (n, d) = quotient_of x; e = bitlen n - bitlen d in if pow2 e \<le> x then e else e - 1)"

text \<open>The nearest integer, ties to even.\<close>

definition nearest_even :: "rat \<Rightarrow> int" where
  "nearest_even x =
     (let f = \<lfloor>x\<rfloor>; r = x - of_int f in
      if r < 1 / 2 then f else if 1 / 2 < r then f + 1 else if even f then f else f + 1)"

definition round_pos :: "rat \<Rightarrow> rat" where
  "round_pos x =
     (let u = max (exponent_of x - 52) (- 1074) in of_int (nearest_even (x / pow2 u)) * pow2 u)"

definition rnd :: "rat \<Rightarrow> f64" where
  "rnd x =
     (if x = 0 then Fin 0
      else (let y = round_pos \<bar>x\<bar> in
            if pow2 1024 \<le> y then Inf (0 < x) else Fin (if 0 < x then y else - y)))"

section \<open>Operations\<close>

fun f64_mul :: "f64 \<Rightarrow> f64 \<Rightarrow> f64" where
  "f64_mul (Fin x) (Fin y) = rnd (x * y)"
| "f64_mul NaN y = NaN"
| "f64_mul x NaN = NaN"
| "f64_mul (Inf s) (Fin y) = (if y = 0 then NaN else Inf (s = (0 < y)))"
| "f64_mul (Fin x) (Inf s) = (if x = 0 then NaN else Inf ((0 < x) = s))"
| "f64_mul (Inf s) (Inf t) = Inf (s = t)"

text \<open>Division of a finite number by a positive one: the only divisions of the services.\<close>

fun f64_div :: "f64 \<Rightarrow> f64 \<Rightarrow> f64" where
  "f64_div (Fin x) (Fin y) =
     (if y = 0 then (if x = 0 then NaN else Inf (0 < x)) else rnd (x / y))"
| "f64_div NaN y = NaN"
| "f64_div x NaN = NaN"
| "f64_div (Inf s) (Fin y) = Inf (s = (0 \<le> y))"
| "f64_div (Fin x) (Inf s) = Fin 0"
| "f64_div (Inf s) (Inf t) = NaN"

fun f64_less :: "f64 \<Rightarrow> f64 \<Rightarrow> bool" where
  "f64_less (Fin x) (Fin y) \<longleftrightarrow> x < y"
| "f64_less NaN y \<longleftrightarrow> False"
| "f64_less x NaN \<longleftrightarrow> False"
| "f64_less (Inf s) (Fin y) \<longleftrightarrow> \<not> s"
| "f64_less (Fin x) (Inf s) \<longleftrightarrow> s"
| "f64_less (Inf s) (Inf t) \<longleftrightarrow> \<not> s \<and> t"

fun f64_le :: "f64 \<Rightarrow> f64 \<Rightarrow> bool" where
  "f64_le NaN y \<longleftrightarrow> False"
| "f64_le x NaN \<longleftrightarrow> False"
| "f64_le x y \<longleftrightarrow> \<not> f64_less y x"

definition f64_of_int :: "int \<Rightarrow> f64" where
  "f64_of_int k = rnd (of_int k)"

text \<open>\<open>math.Round\<close>: to the nearest integer, halves away from zero.\<close>

definition round_away :: "rat \<Rightarrow> int" where
  "round_away x = (if 0 \<le> x then \<lfloor>x + 1 / 2\<rfloor> else - \<lfloor>- x + 1 / 2\<rfloor>)"

fun math_Round :: "f64 \<Rightarrow> f64" where
  "math_Round (Fin x) = Fin (of_int (round_away x))"
| "math_Round x = x"

fun math_Ceil :: "f64 \<Rightarrow> f64" where
  "math_Ceil (Fin x) = Fin (of_int \<lceil>x\<rceil>)"
| "math_Ceil x = x"

text \<open>
  \<open>int64(x)\<close> truncates. Go leaves the result open when it does not fit; the amd64 instruction that the
  compiler emits, whose behaviour is written here, then gives the smallest \<open>int64\<close>.
\<close>

definition truncate_rat :: "rat \<Rightarrow> int" where
  "truncate_rat x = (if 0 \<le> x then \<lfloor>x\<rfloor> else - \<lfloor>- x\<rfloor>)"

fun int64_of :: "f64 \<Rightarrow> int" where
  "int64_of (Fin x) = (if in_i64 (truncate_rat x) then truncate_rat x else - (2 ^ 63))"
| "int64_of _ = - (2 ^ 63)"

fun f64_add :: "f64 \<Rightarrow> f64 \<Rightarrow> f64" where
  "f64_add (Fin x) (Fin y) = rnd (x + y)"
| "f64_add NaN y = NaN"
| "f64_add x NaN = NaN"
| "f64_add (Inf s) (Fin y) = Inf s"
| "f64_add (Fin x) (Inf s) = Inf s"
| "f64_add (Inf s) (Inf t) = (if s = t then Inf s else NaN)"

section \<open>Formatting\<close>

definition fmt_fixed :: "nat \<Rightarrow> rat \<Rightarrow> string" where
  "fmt_fixed n x =
     (let m = nearest_even (\<bar>x\<bar> * 10 ^ n); q = m div 10 ^ n; r = m mod 10 ^ n;
          ds = fmt_d r
      in (if x < 0 then ''-'' else '''') @ fmt_d q @
         (if n = 0 then '''' else ''.'' @ replicate (n - length ds) CHR ''0'' @ ds))"

fun fmt_f :: "nat \<Rightarrow> f64 \<Rightarrow> string" where
  "fmt_f n (Fin x) = fmt_fixed n x"
| "fmt_f n (Inf s) = (if s then ''+Inf'' else ''-Inf'')"
| "fmt_f n NaN = ''NaN''"

section \<open>How far rounding goes\<close>

lemma pow2_powi: "pow2 e = 2 powi e"
  by (simp add: pow2_def power_int_def power_divide inverse_eq_divide)

lemma pow2_pos [simp]: "0 < pow2 e"
  by (simp add: pow2_def)

lemma pow2_simps [simp]: "pow2 e \<noteq> 0" "\<not> pow2 e \<le> 0" "0 \<le> pow2 e"
  using pow2_pos[of e] by linarith+

lemma pow2_add: "pow2 (a + b) = pow2 a * pow2 b"
  by (simp add: pow2_powi power_int_add)

lemma pow2_mono: "a \<le> b \<Longrightarrow> pow2 a \<le> pow2 b"
  by (simp add: pow2_powi power_int_increasing)

lemma pow2_less_iff: "pow2 a < pow2 b \<longleftrightarrow> a < b"
  using power_int_strict_increasing[of a b "2 :: rat"] pow2_mono[of b a]
  by (auto simp: pow2_powi not_le[symmetric])

lemma exponent_of_le:
  assumes "0 < x"
  shows "pow2 (exponent_of x) \<le> x"
proof -
  obtain n d where q: "quotient_of x = (n, d)" by (cases "quotient_of x") auto
  have d: "0 < d" and x: "x = of_int n / of_int d"
    using quotient_of_denom_pos[OF q] quotient_of_div[OF q] by auto
  with assms have n: "0 < n" by (auto simp: zero_less_divide_iff)
  let ?e = "bitlen n - bitlen d"
  have bl: "1 \<le> bitlen n" "0 \<le> bitlen d" using n by (simp_all add: bitlen_nonneg bitlen_alt_def)
  have "of_int d \<le> pow2 (bitlen d)"
    using bitlen_bounds[OF d] bl(2) by (simp add: pow2_def)
  then have "pow2 (?e - 1) * of_int d \<le> pow2 (?e - 1) * pow2 (bitlen d)"
    by (intro mult_left_mono) (simp_all add: less_imp_le)
  also have "\<dots> = pow2 (bitlen n - 1)" by (simp flip: pow2_add)
  also have "\<dots> \<le> of_int n"
    using bitlen_bounds[OF n] bl(1) by (simp add: pow2_def)
  finally have "pow2 (?e - 1) \<le> x" using d by (simp add: x pos_le_divide_eq)
  then show ?thesis by (simp add: exponent_of_def q Let_def)
qed

lemma nearest_even_error: "\<bar>of_int (nearest_even x) - x\<bar> \<le> 1 / 2"
  using floor_correct[of x] by (auto simp: nearest_even_def Let_def abs_le_iff)

lemma nearest_even_int [simp]: "nearest_even (of_int k) = k"
  by (simp add: nearest_even_def)

text \<open>Normal numbers are rounded with a relative error of at most \<open>2 ^ -53\<close>.\<close>

lemma round_pos_error:
  assumes "pow2 (- 1022) \<le> x"
  shows "\<bar>round_pos x - x\<bar> \<le> x / 2 ^ 53"
proof -
  have x: "0 < x" using assms pow2_pos[of "- 1022"] by linarith
  let ?e = "exponent_of x" and ?u = "max (exponent_of x - 52) (- 1074)"
  have half: "\<bar>round_pos x - x\<bar> \<le> pow2 ?u / 2"
  proof -
    let ?k = "nearest_even (x / pow2 ?u)"
    have "round_pos x - x = (of_int ?k - x / pow2 ?u) * pow2 ?u"
      by (simp add: round_pos_def Let_def field_simps)
    then have "\<bar>round_pos x - x\<bar> = \<bar>of_int ?k - x / pow2 ?u\<bar> * pow2 ?u"
      by (simp add: abs_mult)
    also have "\<dots> \<le> 1 / 2 * pow2 ?u"
      by (intro mult_right_mono nearest_even_error) (simp add: less_imp_le)
    finally show ?thesis by simp
  qed
  have "pow2 ?u \<le> x / 2 ^ 52"
  proof (cases "?e - 52 \<le> - 1074")
    case True
    have "pow2 (- 1074) * 2 ^ 52 = pow2 (- 1022)"
      using pow2_add[of "- 1074" 52] by (simp add: pow2_def)
    with True assms show ?thesis by (simp add: field_simps)
  next
    case False
    have "pow2 (?e - 52) * 2 ^ 52 = pow2 ?e"
      using pow2_add[of "?e - 52" 52] by (simp add: pow2_def)
    with False exponent_of_le[OF x] show ?thesis by (simp add: field_simps)
  qed
  with half show ?thesis by simp
qed

lemma rnd_error:
  assumes "pow2 (- 1022) \<le> \<bar>x\<bar>" and "\<bar>x\<bar> \<le> pow2 1000"
  obtains y where "rnd x = Fin y" "\<bar>y - x\<bar> \<le> \<bar>x\<bar> / 2 ^ 53"
proof -
  have nz: "x \<noteq> 0" using assms(1) pow2_pos[of "- 1022"] by auto
  note err = round_pos_error[OF assms(1)]
  have "\<bar>x\<bar> / 2 ^ 53 \<le> \<bar>x\<bar>" by (simp add: field_simps)
  then have "round_pos \<bar>x\<bar> \<le> 2 * \<bar>x\<bar>"
    using err abs_ge_self[of "round_pos \<bar>x\<bar> - \<bar>x\<bar>"] by linarith
  also have "\<dots> \<le> 2 * pow2 1000" using assms(2) by simp
  also have "\<dots> < pow2 1024" by (simp add: pow2_def)
  finally have "\<not> pow2 1024 \<le> round_pos \<bar>x\<bar>" by simp
  then have "rnd x = Fin (if 0 < x then round_pos \<bar>x\<bar> else - round_pos \<bar>x\<bar>)"
    using nz by (simp add: rnd_def Let_def)
  then show thesis
    by (rule that) (use err nz in \<open>auto simp: abs_if split: if_splits\<close>)
qed

lemma rnd_zero [simp]: "rnd 0 = Fin 0"
  by (simp add: rnd_def)

text \<open>Integers of at most 53 bits are exact.\<close>

lemma f64_of_int_exact:
  assumes "\<bar>k\<bar> < 2 ^ 53"
  shows "f64_of_int k = Fin (of_int k)"
proof (cases "k = 0")
  case False
  let ?x = "of_int \<bar>k\<bar> :: rat"
  have x: "0 < ?x" using False by simp
  have "pow2 (exponent_of ?x) < pow2 53"
    using exponent_of_le[OF x] assms by (simp add: pow2_def[of 53])
  then have e: "exponent_of ?x < 53" by (simp add: pow2_less_iff)
  let ?u = "max (exponent_of ?x - 52) (- 1074)"
  have u: "?u \<le> 0" using e by simp
  have "?x / pow2 ?u = of_int (\<bar>k\<bar> * 2 ^ nat (- ?u))"
    using u by (auto simp: pow2_def)
  then have "round_pos ?x = of_int (\<bar>k\<bar> * 2 ^ nat (- ?u)) * pow2 ?u"
    unfolding round_pos_def Let_def by (metis nearest_even_int)
  also have "\<dots> = ?x" using u by (auto simp: pow2_def)
  finally have r: "round_pos \<bar>of_int k\<bar> = \<bar>of_int k\<bar>" by simp
  have "\<bar>of_int k :: rat\<bar> < pow2 53" using assms by (simp add: pow2_def)
  also have "\<dots> \<le> pow2 1024" by (rule pow2_mono) simp
  finally show ?thesis using False by (simp add: f64_of_int_def rnd_def Let_def r)
qed (simp add: f64_of_int_def)

text \<open>Values that are far enough apart keep their order.\<close>

lemma rnd_less:
  assumes "pow2 (- 1022) \<le> x" and "y \<le> pow2 1000" and "x + (x + y) / 2 ^ 53 < y" and "x \<le> y"
  shows "f64_less (rnd x) (rnd y)"
proof -
  have x: "0 < x" using assms(1) pow2_pos[of "- 1022"] by linarith
  have xy: "\<bar>x\<bar> = x" "\<bar>y\<bar> = y" using x assms(4) by auto
  obtain x' where x': "rnd x = Fin x'" "\<bar>x' - x\<bar> \<le> \<bar>x\<bar> / 2 ^ 53"
    by (rule rnd_error[of x]) (use assms xy in auto)
  obtain y' where y': "rnd y = Fin y'" "\<bar>y' - y\<bar> \<le> \<bar>y\<bar> / 2 ^ 53"
    by (rule rnd_error[of y]) (use assms xy in auto)
  have "x' - x \<le> x / 2 ^ 53" "y - y' \<le> y / 2 ^ 53"
    using abs_ge_self[of "x' - x"] abs_ge_minus_self[of "y' - y"] x'(2) y'(2) xy by linarith+
  moreover have "x / 2 ^ 53 + y / 2 ^ 53 = (x + y) / 2 ^ 53" by (simp only: add_divide_distrib)
  ultimately have "x' < y'" using assms(3) by linarith
  with x'(1) y'(1) show ?thesis by simp
qed

end
