(* ===== verification/Ticks.thy ===== *)
theory Ticks
  imports Float64
begin

text \<open>
  \<open>toTick\<close> and \<open>tickStr\<close> of \<open>replayengine/engine.go\<close>: prices become integer hundredths before they are
  compared. Every price with two decimals is recovered exactly from its \<open>float64\<close>; and the verdict
  policy's two float comparisons decide what the exact fractions would.
\<close>

section \<open>Prices\<close>

definition toTick :: "f64 \<Rightarrow> int" where
  "toTick price = int64_of (math_Round (f64_mul price (Fin 100)))"

definition tickStr :: "int \<Rightarrow> string" where
  "tickStr tick = fmt_f 2 (f64_div (f64_of_int tick) (Fin 100))"

text \<open>The price of \<open>k\<close> hundredths as a JSON decoder stores it: the \<open>float64\<close> nearest to \<open>k / 100\<close>.\<close>

definition price_of_ticks :: "int \<Rightarrow> f64" where
  "price_of_ticks k = rnd (of_int k / 100)"

lemma round_away_near:
  assumes "\<bar>x - of_int k\<bar> < 1 / 2"
  shows "round_away x = k"
proof -
  have near: "x - of_int k < 1 / 2" "of_int k - x < 1 / 2"
    using assms abs_ge_self[of "x - of_int k"] abs_ge_minus_self[of "x - of_int k"] by linarith+
  show ?thesis
  proof (cases "0 \<le> x")
    case True
    have "\<lfloor>x + 1 / 2\<rfloor> = k" using near by (intro floor_unique) linarith+
    with True show ?thesis by (simp add: round_away_def)
  next
    case False
    have "of_int (- k) = - (of_int k :: rat)" by simp
    then have "\<lfloor>- x + 1 / 2\<rfloor> = - k" using near by (intro floor_unique) linarith+
    with False show ?thesis by (simp add: round_away_def)
  qed
qed

lemma small_ge: "1 / 100 \<le> \<bar>x\<bar> \<Longrightarrow> pow2 (- 1022) \<le> \<bar>x\<bar>"
proof -
  assume "1 / 100 \<le> \<bar>x\<bar>"
  moreover have "pow2 (- 1022) \<le> 1 / 100" by (simp add: pow2_def)
  ultimately show ?thesis by linarith
qed

lemma toTick_price:
  assumes "\<bar>k\<bar> < 2 ^ 50"
  shows "toTick (price_of_ticks k) = k"
proof (cases "k = 0")
  case True
  then show ?thesis
    using round_away_near[of 0 0]
    by (simp add: toTick_def price_of_ticks_def in_i64_def truncate_rat_def)
next
  case False
  let ?K = "of_int k :: rat"
  have K: "1 \<le> \<bar>?K\<bar>" "\<bar>?K\<bar> < 2 ^ 50" using False assms by (simp_all flip: of_int_abs)
  have big: "2 ^ 50 \<le> pow2 1000" by (simp add: pow2_def)
  obtain x where x: "rnd (?K / 100) = Fin x" "\<bar>x - ?K / 100\<bar> \<le> \<bar>?K / 100\<bar> / 2 ^ 53"
  proof (rule rnd_error[of "?K / 100"])
    show "pow2 (- 1022) \<le> \<bar>?K / 100\<bar>"
      using K by (intro small_ge) simp
    have "\<bar>?K / 100\<bar> = \<bar>?K\<bar> / 100" by simp
    then show "\<bar>?K / 100\<bar> \<le> pow2 1000" using K big by linarith
  qed
  have y: "\<bar>x * 100 - ?K\<bar> \<le> \<bar>?K\<bar> / 2 ^ 53"
    using x(2) by (simp add: abs_le_iff field_simps)
  have "\<bar>?K\<bar> / 2 ^ 53 \<le> \<bar>?K\<bar> / 2" by (simp add: field_simps)
  with y have x100: "\<bar>?K\<bar> / 2 \<le> \<bar>x * 100\<bar>" "\<bar>x * 100\<bar> \<le> 2 * \<bar>?K\<bar>"
    using abs_triangle_ineq2[of "x * 100" ?K] abs_triangle_ineq2[of ?K "x * 100"]
      abs_minus_commute[of "x * 100" ?K] by linarith+
  obtain z where z: "rnd (x * 100) = Fin z" "\<bar>z - x * 100\<bar> \<le> \<bar>x * 100\<bar> / 2 ^ 53"
  proof (rule rnd_error[of "x * 100"])
    show "pow2 (- 1022) \<le> \<bar>x * 100\<bar>" using small_ge[of "x * 100"] K x100 by linarith
    show "\<bar>x * 100\<bar> \<le> pow2 1000" using K x100 big by (simp add: pow2_def)
  qed
  have "\<bar>x * 100\<bar> / 2 ^ 53 < 1 / 4" "\<bar>?K\<bar> / 2 ^ 53 < 1 / 8"
    using x100 K by (simp_all add: field_simps)
  then have "\<bar>z - ?K\<bar> < 1 / 2"
    using z(2) y abs_triangle_ineq[of "z - x * 100" "x * 100 - ?K"] by simp
  then have r: "round_away z = k" by (rule round_away_near)
  have "in_i64 k" using assms by (auto simp: in_i64_def)
  then have "int64_of (Fin (of_int k)) = k" by (simp add: truncate_rat_def)
  with x z r show ?thesis by (simp add: toTick_def price_of_ticks_def)
qed

text \<open>
  C38. A price of \<open>k\<close> hundredths survives the trip through \<open>float64\<close>: \<open>toTick\<close> gives back exactly \<open>k\<close>, for
  every \<open>k\<close> of at most 50 bits, so different decimal prices on the wire are never merged.
\<close>

theorem toTick_exact:
  assumes "\<bar>k\<bar> < 2 ^ 50" and "\<bar>l\<bar> < 2 ^ 50"
  shows "toTick (price_of_ticks k) = k \<and>
    (toTick (price_of_ticks k) < toTick (price_of_ticks l) \<longleftrightarrow> k < l)"
  using assms by (simp add: toTick_price)

theorem toTick_exact_witness:
  "toTick (price_of_ticks 10001) = 10001 \<and>
    (toTick (price_of_ticks 10001) < toTick (price_of_ticks 10002) \<longleftrightarrow> (10001 :: int) < 10002)"
  by (rule toTick_exact) simp_all

section \<open>The thresholds of the verdict policy\<close>

definition unknownTolerance :: f64 where
  "unknownTolerance = rnd (5 / 100)"

definition unhealthyThreshold :: f64 where
  "unhealthyThreshold = rnd (50 / 100)"

definition frac_of :: "int \<Rightarrow> int \<Rightarrow> f64" where
  "frac_of unverifiable attempts = f64_div (f64_of_int unverifiable) (f64_of_int attempts)"

text \<open>Rounding does not merge a fraction with a bound that it misses by more than the error of both.\<close>

lemma rnd_frac_cases:
  assumes "0 \<le> u" "u < 2 ^ 50" "0 < t" "t < 2 ^ 50"
  obtains y where "frac_of u t = Fin y" "\<bar>y - of_int u / of_int t\<bar> \<le> (of_int u / of_int t) / 2 ^ 53"
proof -
  let ?x = "of_int u / of_int t :: rat"
  have fr: "frac_of u t = rnd ?x"
    using assms by (simp add: frac_of_def f64_of_int_exact)
  show thesis
  proof (cases "u = 0")
    case True
    with fr that show thesis by simp
  next
    case False
    have t: "1 \<le> (of_int t :: rat)" "(of_int t :: rat) \<le> 2 ^ 50" and u: "1 \<le> (of_int u :: rat)" "(of_int u :: rat) \<le> 2 ^ 50"
      using assms False by (simp_all flip: of_int_le_iff)
    have "1 / 2 ^ 50 \<le> ?x" using t u by (simp add: field_simps)
    moreover have "pow2 (- 1022) \<le> 1 / 2 ^ 50" by (simp add: pow2_def)
    moreover have "?x \<le> of_int u / 1" using t u by (intro divide_left_mono) auto
    then have "?x \<le> 2 ^ 50" using u by simp
    moreover have "(2 ^ 50 :: rat) \<le> pow2 1000" by (simp add: pow2_def)
    moreover have abs: "\<bar>?x\<bar> = ?x" using t u by simp
    ultimately have "pow2 (- 1022) \<le> \<bar>?x\<bar>" "\<bar>?x\<bar> \<le> pow2 1000" by linarith+
    then obtain y where "rnd ?x = Fin y" "\<bar>y - ?x\<bar> \<le> ?x / 2 ^ 53"
      using rnd_error[of ?x] unfolding abs by blast
    with fr that show thesis by simp
  qed
qed

lemma bound_margin:
  fixes b c x y :: rat
  shows "0 < c \<Longrightarrow> c + c / 2 ^ 50 \<le> x \<Longrightarrow> x - y \<le> x / 2 ^ 53 \<Longrightarrow> b - c \<le> c / 2 ^ 53 \<Longrightarrow> b < y"
    and "0 < c \<Longrightarrow> x + c / 2 ^ 50 \<le> c \<Longrightarrow> y - x \<le> x / 2 ^ 53 \<Longrightarrow> c - b \<le> c / 2 ^ 53 \<Longrightarrow> y < b"
  by (simp_all add: field_simps)

lemma frac_vs_bound:
  assumes u: "0 \<le> u" "u < 2 ^ 50" and t: "0 < t" "t < 2 ^ 50" and n: "0 < n" "n < 2 ^ 10"
    and ne: "n * u \<noteq> t"
    and y: "\<bar>y - of_int u / of_int t\<bar> \<le> (of_int u / of_int t) / 2 ^ 53"
    and b: "\<bar>b - 1 / of_int n\<bar> \<le> (1 / of_int n) / 2 ^ 53"
  shows "if t < n * u then b < y else y < (b :: rat)"
proof -
  let ?x = "of_int u / of_int t :: rat" and ?c = "1 / of_int n :: rat"
  have c: "0 < ?c" "?c * of_int n = 1" using n by simp_all
  have T: "0 < (of_int t :: rat)" "of_int t \<le> (2 ^ 50 :: rat)"
    using t by (simp_all flip: of_int_le_iff)
  have gap: "?c / 2 ^ 50 \<le> ?c / of_int t" using T c(1) by (intro divide_left_mono) auto
  have yb: "y - ?x \<le> ?x / 2 ^ 53" "?x - y \<le> ?x / 2 ^ 53" "b - ?c \<le> ?c / 2 ^ 53" "?c - b \<le> ?c / 2 ^ 53"
    using y b by (auto simp: abs_le_iff)
  let ?d = "of_int n * of_int t :: rat"
  have d: "0 \<le> ?d" using n T by simp
  have over: "?c + ?c / of_int t = of_int (t + 1) / ?d" "?x = of_int (n * u) / ?d"
      "?x + ?c / of_int t = of_int (n * u + 1) / ?d" "?c = of_int t / ?d"
    using T n by (simp_all add: field_simps)
  show ?thesis
  proof (cases "t < n * u")
    case True
    then have "of_int (t + 1) \<le> (of_int (n * u) :: rat)" by linarith
    then have "?c + ?c / of_int t \<le> ?x"
      unfolding over(1,2) by (rule divide_right_mono[OF _ d])
    with gap have "?c + ?c / 2 ^ 50 \<le> ?x" by linarith
    then have "b < y" by (rule bound_margin(1)[OF c(1) _ yb(2,3)])
    with True show ?thesis by simp
  next
    case False
    with ne have "of_int (n * u + 1) \<le> (of_int t :: rat)" by linarith
    then have "?x + ?c / of_int t \<le> ?c"
      unfolding over(3) by (subst over(4)) (rule divide_right_mono[OF _ d])
    with gap have "?x + ?c / 2 ^ 50 \<le> ?c" by linarith
    then have "y < b" by (rule bound_margin(2)[OF c(1) _ yb(1,4)])
    with False show ?thesis by simp
  qed
qed

lemma bound_near:
  assumes "0 < n" and "n \<le> (100 :: int)"
  obtains b where "rnd (1 / of_int n) = Fin b" "\<bar>b - 1 / of_int n\<bar> \<le> (1 / of_int n) / 2 ^ 53"
proof -
  let ?c = "1 / of_int n :: rat"
  have c: "1 / 100 \<le> ?c" "?c \<le> 1" using assms by (simp_all add: field_simps)
  moreover have "\<bar>?c\<bar> = ?c" using assms by simp
  moreover have "(1 :: rat) \<le> pow2 1000" by (simp add: pow2_def)
  ultimately show thesis using rnd_error[of ?c] small_ge[of ?c] that by auto
qed

lemma frac_decides:
  assumes u: "0 \<le> u" "u < 2 ^ 50" and t: "0 < t" "t < 2 ^ 50" and n: "0 < n" "n \<le> 100"
  shows "f64_less (rnd (1 / of_int n)) (frac_of u t) \<longleftrightarrow> t < n * u"
    and "f64_le (rnd (1 / of_int n)) (frac_of u t) \<longleftrightarrow> t \<le> n * u"
proof -
  obtain b where b: "rnd (1 / of_int n) = Fin b" "\<bar>b - 1 / of_int n\<bar> \<le> (1 / of_int n) / 2 ^ 53"
    by (rule bound_near[OF n])
  obtain y where y: "frac_of u t = Fin y" "\<bar>y - of_int u / of_int t\<bar> \<le> (of_int u / of_int t) / 2 ^ 53"
    by (rule rnd_frac_cases[OF u t])
  have "y = b" if "n * u = t"
  proof -
    have "of_int u / of_int t = (1 / of_int n :: rat)" using that n t by (auto simp: field_simps)
    then have "frac_of u t = rnd (1 / of_int n)"
      using u t by (simp add: frac_of_def f64_of_int_exact)
    with b(1) y(1) show ?thesis by simp
  qed
  moreover have "if t < n * u then b < y else y < b" if "n * u \<noteq> t"
    using frac_vs_bound[OF u t _ _ that y(2) b(2)] n by simp
  ultimately show "f64_less (rnd (1 / of_int n)) (frac_of u t) \<longleftrightarrow> t < n * u"
    and "f64_le (rnd (1 / of_int n)) (frac_of u t) \<longleftrightarrow> t \<le> n * u"
    by (cases "n * u = t"; simp add: b(1) y(1) not_less split: if_splits)+
qed

lemma thresholds_decide:
  assumes "0 \<le> u" "u < 2 ^ 50" "0 < t" "t < 2 ^ 50"
  shows "f64_less unhealthyThreshold (frac_of u t) \<longleftrightarrow> t < 2 * u"
    and "f64_le unknownTolerance (frac_of u t) \<longleftrightarrow> t \<le> 20 * u"
proof -
  have "(50 / 100 :: rat) = 1 / of_int 2" "(5 / 100 :: rat) = 1 / of_int 20" by simp_all
  then have eqs: "unhealthyThreshold = rnd (1 / of_int 2)" "unknownTolerance = rnd (1 / of_int 20)"
    by (simp_all only: unhealthyThreshold_def unknownTolerance_def)
  show "f64_less unhealthyThreshold (frac_of u t) \<longleftrightarrow> t < 2 * u"
    unfolding eqs by (rule frac_decides(1)[OF assms]) simp_all
  show "f64_le unknownTolerance (frac_of u t) \<longleftrightarrow> t \<le> 20 * u"
    unfolding eqs by (rule frac_decides(2)[OF assms]) simp_all
qed

end
