(* ===== verification/Models.thy ===== *)
theory Models
  imports Ticks
begin

text \<open>
  The data that the artifact checker's stages exchange (\<open>artifact-checker/internal/models/models.go\<close>).
  \<open>UnmarshalJSON\<close> is modelled from the structs \<open>orderEventJSON\<close> and \<open>metricsBatchJSON\<close> that
  \<open>json.Unmarshal\<close> has filled: the aliases, the defaults and the unit of the timestamps are the
  code's; the JSON text is the library's. Unsigned fields are non-negative integers below \<open>2 ^ 64\<close>.
\<close>

section \<open>Events\<close>

record order_event =
  ev_submissionID :: string
  ev_eventTimestamp :: int
  ev_orderID :: string
  ev_action :: string
  ev_price :: f64
  ev_volume :: int
  ev_ticker :: string
  ev_orderType :: string
  ev_seq :: int
  ev_contestantOrderID :: int
  ev_matchedOrderID :: int
  ev_cancelTargetID :: int
  ev_executionPrice :: f64
  ev_aggressorOrderID :: string
  ev_endOfRun :: bool
  ev_outcome :: string

text \<open>The zero value of the struct.\<close>

definition zero_event :: order_event where
  "zero_event =
     \<lparr>ev_submissionID = [], ev_eventTimestamp = 0, ev_orderID = [], ev_action = [], ev_price = Fin 0,
      ev_volume = 0, ev_ticker = [], ev_orderType = [], ev_seq = 0, ev_contestantOrderID = 0,
      ev_matchedOrderID = 0, ev_cancelTargetID = 0, ev_executionPrice = Fin 0,
      ev_aggressorOrderID = [], ev_endOfRun = False, ev_outcome = []\<rparr>"

record order_event_json =
  oj_submissionID :: string
  oj_eventTimestamp :: int
  oj_timestamp :: int
  oj_orderID :: string
  oj_action :: string
  oj_price :: f64
  oj_volume :: int
  oj_quantity :: int
  oj_ticker :: string
  oj_orderType :: string
  oj_seq :: int
  oj_contestantOrderID :: int
  oj_matchedOrderID :: int
  oj_cancelTargetID :: int
  oj_executionPrice :: f64
  oj_aggressorOrderID :: string
  oj_endOfRun :: bool
  oj_outcome :: string

text \<open>The branch that divides only sees positive numbers, for which Go's \<open>/\<close> is \<open>div\<close>.\<close>

definition normalizeEpochMicros :: "int \<Rightarrow> int \<Rightarrow> int" where
  "normalizeEpochMicros eventTimestamp alternateTimestamp =
     (let timestamp = (if eventTimestamp = 0 then alternateTimestamp else eventTimestamp) in
      if timestamp > 10000000000000000 then timestamp div 1000 else timestamp)"

definition event_of_json :: "order_event_json \<Rightarrow> order_event" where
  "event_of_json d =
     \<lparr>ev_submissionID = oj_submissionID d,
      ev_eventTimestamp = normalizeEpochMicros (oj_eventTimestamp d) (oj_timestamp d),
      ev_orderID = oj_orderID d, ev_action = oj_action d, ev_price = oj_price d,
      ev_volume = (if oj_volume d = 0 then oj_quantity d else oj_volume d),
      ev_ticker = oj_ticker d, ev_orderType = oj_orderType d, ev_seq = oj_seq d,
      ev_contestantOrderID = oj_contestantOrderID d, ev_matchedOrderID = oj_matchedOrderID d,
      ev_cancelTargetID = oj_cancelTargetID d, ev_executionPrice = oj_executionPrice d,
      ev_aggressorOrderID = oj_aggressorOrderID d, ev_endOfRun = oj_endOfRun d,
      ev_outcome = oj_outcome d\<rparr>"

section \<open>Metrics batches\<close>

text \<open>A \<open>nil\<close> slice is \<open>None\<close>: the code distinguishes it from an empty one.\<close>

record metrics_batch =
  mb_submissionID :: string
  mb_threadID :: int
  mb_totalReqs :: int
  mb_http200 :: int
  mb_histogram :: "int list option"

record metrics_batch_json =
  mj_submissionID :: string
  mj_threadID :: int
  mj_totalReqs :: int
  mj_samples :: int
  mj_http200 :: int
  mj_histogram :: "int list option"
  mj_hist :: "int list option"

definition batch_of_json :: "metrics_batch_json \<Rightarrow> metrics_batch" where
  "batch_of_json d =
     \<lparr>mb_submissionID = mj_submissionID d, mb_threadID = mj_threadID d,
      mb_totalReqs = (if mj_totalReqs d = 0 then mj_samples d else mj_totalReqs d),
      mb_http200 = mj_http200 d,
      mb_histogram = (case mj_histogram d of None \<Rightarrow> mj_hist d | Some h \<Rightarrow> Some h)\<rparr>"

section \<open>Verdicts and scores\<close>

text \<open>\<open>VerdictZero\<close> is the empty string, the zero value of the Go type.\<close>

datatype verdict = VerdictZero | VerdictUnverified | VerdictCorrect | VerdictIncorrect

definition verdict_str :: "verdict \<Rightarrow> string" where
  "verdict_str v = (case v of
      VerdictZero \<Rightarrow> [] | VerdictUnverified \<Rightarrow> ''unverified'' | VerdictCorrect \<Rightarrow> ''correct''
    | VerdictIncorrect \<Rightarrow> ''incorrect'')"

record correctness_update =
  cu_submissionID :: string
  cu_verdict :: verdict
  cu_reason :: string

record score =
  sc_submissionID :: string
  sc_teamName :: string
  sc_tps :: int
  sc_p50Ms :: f64
  sc_p90Ms :: f64
  sc_p99Ms :: f64
  sc_p99Bucket :: int
  sc_verdict :: verdict

section \<open>The unit of event time\<close>

text \<open>
  The normalised timestamp is in microseconds whatever unit the producer used: for any instant from
  late April 1970 up to the year 2262, a nanosecond clock reading and a microsecond reading of the same
  instant normalise to the same value, in either field, and the nanosecond reading fits in an \<open>int64\<close>.
\<close>

theorem normalizeEpochMicros_unit:
  assumes "10 ^ 13 < us" and "us \<le> 9223372036854774" and "0 \<le> r" "r < 1000"
  shows "normalizeEpochMicros (us * 1000 + r) alt = us \<and> normalizeEpochMicros us alt = us \<and>
    normalizeEpochMicros 0 (us * 1000 + r) = us \<and> in_i64 (us * 1000 + r)"
  using assms by (simp add: normalizeEpochMicros_def Let_def in_i64_def)

theorem normalizeEpochMicros_unit_witness:
  "normalizeEpochMicros 1700000000000000123 7 = 1700000000000000 \<and>
   normalizeEpochMicros 1700000000000000 7 = 1700000000000000"
  using normalizeEpochMicros_unit[of 1700000000000000 123 7] by simp

end
