(* ===== verification/Diff.thy ===== *)
theory Diff
  imports OrderBook Models
begin

text \<open>
  The comparison of one order's golden trades with the fills the contestant reported
  (\<open>diffAggressor\<close> and \<open>priceBand\<close> of \<open>replayengine/engine.go\<close>). Two loops range over maps; Go
  leaves their order open, so the order is an argument: \<open>rng keys\<close> is the sequence in which the keys
  are visited. The verdict does not depend on it, only the reason does.
\<close>

section \<open>Data\<close>

record observed_fill =
  fl_makerBot :: string
  fl_makerKnown :: bool
  fl_makerID :: int
  fl_qty :: int
  fl_price :: int

record exp_entry =
  ee_qty :: int
  ee_makerPrice :: int
  ee_aggLimit :: int
  ee_aggMarket :: bool

text \<open>An order in which a \<open>range\<close> loop visits the keys of a map.\<close>

type_synonym range_order = "string list \<Rightarrow> string list"

definition range_ok :: "range_order \<Rightarrow> bool" where
  "range_ok rng \<longleftrightarrow> (\<forall>ks. mset (rng ks) = mset ks)"

lemma range_ok_set: "range_ok rng \<Longrightarrow> set (rng ks) = set ks"
  by (metis range_ok_def set_mset_mset)

section \<open>The comparison\<close>

definition priceBand :: "int \<Rightarrow> int \<Rightarrow> bool \<Rightarrow> int \<times> int" where
  "priceBand makerPrice aggLimit market =
     (if makerPrice \<le> aggLimit then (makerPrice, aggLimit) else (aggLimit, makerPrice))"

definition exp_add :: "trade \<Rightarrow> (string, exp_entry) gomap \<Rightarrow> (string, exp_entry) gomap" where
  "exp_add t m =
     (let e = (case gm_get m (tr_makerBot t) of
                 None \<Rightarrow> \<lparr>ee_qty = 0, ee_makerPrice = tr_makerPrice t, ee_aggLimit = tr_aggLimit t,
                          ee_aggMarket = tr_aggMarket t\<rparr>
               | Some e \<Rightarrow> e)
      in gm_put (tr_makerBot t) (e\<lparr>ee_qty := i64 (ee_qty e + tr_qty t)\<rparr>) m)"

definition exp_map :: "trade list \<Rightarrow> (string, exp_entry) gomap" where
  "exp_map trades = fold exp_add trades []"

definition exp_total :: "trade list \<Rightarrow> int" where
  "exp_total trades = fold (\<lambda>t n. i64 (n + tr_qty t)) trades 0"

definition obs_add :: "observed_fill \<Rightarrow> (string, int) gomap \<Rightarrow> (string, int) gomap" where
  "obs_add f m =
     (if fl_makerKnown f
      then gm_put (fl_makerBot f)
             (i64 ((case gm_get m (fl_makerBot f) of None \<Rightarrow> 0 | Some q \<Rightarrow> q) + fl_qty f)) m
      else m)"

definition obs_map :: "observed_fill list \<Rightarrow> (string, int) gomap" where
  "obs_map obs = fold obs_add obs []"

definition obs_total :: "observed_fill list \<Rightarrow> int" where
  "obs_total obs = fold (\<lambda>f n. i64 (n + fl_qty f)) obs 0"

text \<open>\<open>m[k]\<close> of a map of integers: 0 if there is no such key.\<close>

definition get_or0 :: "('k, int) gomap \<Rightarrow> 'k \<Rightarrow> int" where
  "get_or0 m k = (case gm_get m k of None \<Rightarrow> 0 | Some q \<Rightarrow> q)"

definition em_dash :: string where
  "em_dash = [CHR 0xE2, CHR 0x80, CHR 0x94]"

definition price_outside :: "(string, exp_entry) gomap \<Rightarrow> observed_fill \<Rightarrow> bool" where
  "price_outside em f \<longleftrightarrow> fl_makerKnown f \<and>
     (case gm_get em (fl_makerBot f) of
        None \<Rightarrow> False
      | Some e \<Rightarrow> (let (lo, hi) = priceBand (ee_makerPrice e) (ee_aggLimit e) (ee_aggMarket e) in
                   fl_price f < lo \<or> hi < fl_price f))"

definition reason_unknown :: "string \<Rightarrow> observed_fill \<Rightarrow> string" where
  "reason_unknown aggID f =
     ''order_id='' @ aggID @ '': fill against maker id '' @ fmt_d (fl_makerID f) @
     '' that was never submitted as an order '' @ em_dash @
     '' counterparty cannot be verified (incomplete telemetry or unrecognized response shape)''"

definition reason_total :: "string \<Rightarrow> int \<Rightarrow> int \<Rightarrow> string" where
  "reason_total aggID o_total e_total =
     ''order_id='' @ aggID @ '': contestant filled total qty '' @ fmt_d o_total @
     '' but the golden model matches '' @ fmt_d e_total"

definition reason_maker :: "string \<Rightarrow> string \<Rightarrow> int \<Rightarrow> int \<Rightarrow> string" where
  "reason_maker aggID maker q got =
     ''order_id='' @ aggID @ '': price-time priority selects '' @ fmt_d q @ '' qty against maker '' @ maker @
     '', contestant filled '' @ fmt_d got"

definition reason_not_selected :: "string \<Rightarrow> string \<Rightarrow> int \<Rightarrow> string" where
  "reason_not_selected aggID maker q =
     ''order_id='' @ aggID @ '': contestant filled '' @ fmt_d q @ '' against maker '' @ maker @
     '' which price-time priority did not select''"

definition reason_price :: "string \<Rightarrow> observed_fill \<Rightarrow> int \<Rightarrow> int \<Rightarrow> string" where
  "reason_price aggID f lo hi =
     ''order_id='' @ aggID @ '': execution price '' @ tickStr (fl_price f) @ '' against maker '' @
     fl_makerBot f @ '' is outside the valid band ['' @ tickStr lo @ '', '' @ tickStr hi @ '']''"

definition diffAggressor ::
  "range_order \<Rightarrow> range_order \<Rightarrow> string \<Rightarrow> trade list option \<Rightarrow> observed_fill list \<Rightarrow> verdict \<times> string" where
  "diffAggressor rng1 rng2 aggID expd obs =
     (case find (\<lambda>f. \<not> fl_makerKnown f) obs of
        Some f \<Rightarrow> (VerdictUnverified, reason_unknown aggID f)
      | None \<Rightarrow>
     (let trades = (case expd of None \<Rightarrow> [] | Some ts \<Rightarrow> ts);
          em = exp_map trades; om = obs_map obs in
      if obs_total obs \<noteq> exp_total trades
      then (VerdictIncorrect, reason_total aggID (obs_total obs) (exp_total trades))
      else (case find (\<lambda>k. get_or0 om k \<noteq> ee_qty (the (gm_get em k))) (rng1 (gm_keys em)) of
        Some k \<Rightarrow> (VerdictIncorrect, reason_maker aggID k (ee_qty (the (gm_get em k))) (get_or0 om k))
      | None \<Rightarrow>
     (case find (\<lambda>k. gm_get em k = None) (rng2 (gm_keys om)) of
        Some k \<Rightarrow> (VerdictIncorrect, reason_not_selected aggID k (get_or0 om k))
      | None \<Rightarrow>
     (case find (price_outside em) obs of
        Some f \<Rightarrow>
          (let e = the (gm_get em (fl_makerBot f));
               (lo, hi) = priceBand (ee_makerPrice e) (ee_aggLimit e) (ee_aggMarket e)
           in (VerdictIncorrect, reason_price aggID f lo hi))
      | None \<Rightarrow> (VerdictCorrect, ''''))))))"

section \<open>The two maps\<close>

definition maker_units :: "trade list \<Rightarrow> string \<Rightarrow> int" where
  "maker_units trades k = (\<Sum>t \<leftarrow> filter (\<lambda>t. tr_makerBot t = k) trades. tr_qty t)"

definition filled_units :: "observed_fill list \<Rightarrow> string \<Rightarrow> int" where
  "filled_units obs k = (\<Sum>f \<leftarrow> filter (\<lambda>f. fl_makerBot f = k) obs. fl_qty f)"

lemma exp_total_sum: "exp_total trades = i64 (\<Sum>t \<leftarrow> trades. tr_qty t)"
proof -
  have "fold (\<lambda>t n. i64 (n + tr_qty t)) trades (i64 n) = i64 (n + (\<Sum>t \<leftarrow> trades. tr_qty t))" for n
    by (induction trades arbitrary: n) (auto simp: ac_simps)
  from this[of 0] show ?thesis by (simp add: exp_total_def)
qed

lemma obs_total_sum: "obs_total obs = i64 (\<Sum>f \<leftarrow> obs. fl_qty f)"
proof -
  have "fold (\<lambda>f n. i64 (n + fl_qty f)) obs (i64 n) = i64 (n + (\<Sum>f \<leftarrow> obs. fl_qty f))" for n
    by (induction obs arbitrary: n) (auto simp: ac_simps)
  from this[of 0] show ?thesis by (simp add: obs_total_def)
qed

lemma exp_map_snoc: "exp_map (ts @ [t]) = exp_add t (exp_map ts)"
  by (simp add: exp_map_def)

lemma obs_map_snoc: "obs_map (obs @ [f]) = obs_add f (obs_map obs)"
  by (simp add: obs_map_def)

lemma find_snoc: "find P (xs @ [x]) = (case find P xs of Some y \<Rightarrow> Some y | None \<Rightarrow> if P x then Some x else None)"
  by (induction xs) auto

text \<open>The entry of a maker: its total, and the price and bound of its first trade.\<close>

lemma exp_map_get:
  "gm_get (exp_map ts) k =
     (case find (\<lambda>t. tr_makerBot t = k) ts of
        None \<Rightarrow> None
      | Some t \<Rightarrow> Some \<lparr>ee_qty = i64 (maker_units ts k), ee_makerPrice = tr_makerPrice t,
          ee_aggLimit = tr_aggLimit t, ee_aggMarket = tr_aggMarket t\<rparr>)"
proof (induction ts rule: rev_induct)
  case Nil
  show ?case by (simp add: exp_map_def)
next
  case (snoc t ts)
  have none: "maker_units ts k = 0" if "find (\<lambda>t. tr_makerBot t = k) ts = None"
    using that by (auto simp: maker_units_def find_None_iff filter_empty_conv[symmetric])
  show ?case
    by (auto simp: exp_map_snoc exp_add_def Let_def snoc find_snoc maker_units_def none[unfolded maker_units_def]
        split: option.splits)
qed

lemma obs_map_get:
  assumes "\<forall>f \<in> set obs. fl_makerKnown f"
  shows "gm_get (obs_map obs) k =
     (if \<exists>f \<in> set obs. fl_makerBot f = k then Some (i64 (filled_units obs k)) else None)"
  using assms
proof (induction obs rule: rev_induct)
  case Nil
  show ?case by (simp add: obs_map_def)
next
  case (snoc f obs)
  have none: "filled_units obs k = 0" if "\<not> (\<exists>f \<in> set obs. fl_makerBot f = k)"
    using that by (auto simp: filled_units_def filter_empty_conv)
  show ?case using snoc
    by (auto simp: obs_map_snoc obs_add_def filled_units_def none)
qed

lemma exp_keys: "set (gm_keys (exp_map ts)) = tr_makerBot ` set ts"
proof -
  have "k \<in> set (gm_keys (exp_map ts)) \<longleftrightarrow> k \<in> tr_makerBot ` set ts" for k
  proof -
    have "gm_get (exp_map ts) k = None \<longleftrightarrow> find (\<lambda>t. tr_makerBot t = k) ts = None"
      by (simp add: exp_map_get split: option.split)
    then show ?thesis
      using gm_get_None_iff[of "exp_map ts" k] by (auto simp: find_None_iff)
  qed
  then show ?thesis by blast
qed

lemma obs_keys:
  assumes "\<forall>f \<in> set obs. fl_makerKnown f"
  shows "set (gm_keys (obs_map obs)) = fl_makerBot ` set obs"
proof -
  have "k \<in> set (gm_keys (obs_map obs)) \<longleftrightarrow> k \<in> fl_makerBot ` set obs" for k
    using gm_get_None_iff[of "obs_map obs" k] obs_map_get[OF assms, of k] by (auto split: if_splits)
  then show ?thesis by blast
qed

lemma obs_get_or0:
  assumes "\<forall>f \<in> set obs. fl_makerKnown f"
  shows "get_or0 (obs_map obs) k = i64 (filled_units obs k)"
proof -
  have "filled_units obs k = 0" if "\<not> (\<exists>f \<in> set obs. fl_makerBot f = k)"
    using that by (auto simp: filled_units_def filter_empty_conv)
  then show ?thesis by (auto simp: get_or0_def obs_map_get[OF assms])
qed

section \<open>What a verdict means\<close>

text \<open>The trade that fixes the price band of a maker: the first one against it.\<close>

definition band_of :: "trade list \<Rightarrow> string \<Rightarrow> int \<times> int" where
  "band_of trades k =
     (case find (\<lambda>t. tr_makerBot t = k) trades of
        None \<Rightarrow> (0, 0)
      | Some t \<Rightarrow> (min (tr_makerPrice t) (tr_aggLimit t), max (tr_makerPrice t) (tr_aggLimit t)))"

definition agrees :: "trade list \<Rightarrow> observed_fill list \<Rightarrow> bool" where
  "agrees trades obs \<longleftrightarrow>
     i64 (\<Sum>f \<leftarrow> obs. fl_qty f) = i64 (\<Sum>t \<leftarrow> trades. tr_qty t) \<and>
     (\<forall>k \<in> tr_makerBot ` set trades. i64 (filled_units obs k) = i64 (maker_units trades k)) \<and>
     fl_makerBot ` set obs \<subseteq> tr_makerBot ` set trades \<and>
     (\<forall>f \<in> set obs. fst (band_of trades (fl_makerBot f)) \<le> fl_price f \<and>
        fl_price f \<le> snd (band_of trades (fl_makerBot f)))"

lemma price_outside_iff:
  assumes "fl_makerKnown f" and "fl_makerBot f \<in> tr_makerBot ` set trades"
  shows "price_outside (exp_map trades) f \<longleftrightarrow>
    \<not> (fst (band_of trades (fl_makerBot f)) \<le> fl_price f \<and> fl_price f \<le> snd (band_of trades (fl_makerBot f)))"
proof -
  obtain t where "find (\<lambda>t. tr_makerBot t = fl_makerBot f) trades = Some t"
    using assms(2) find_None_iff[of "\<lambda>t. tr_makerBot t = fl_makerBot f" trades] by fastforce
  with assms(1) show ?thesis
    by (auto simp: price_outside_def exp_map_get band_of_def priceBand_def min_def max_def)
qed

text \<open>
  The verdict of the comparison, for every order of the map iterations: Unverified exactly if some
  fill names a maker that was never submitted, and otherwise Correct exactly if the totals agree, every
  maker got what price-time priority gives it, no other maker was filled, and every price is between
  the maker's price and the aggressor's bound. Sums are those of 64-bit arithmetic.
\<close>

theorem diffAggressor_verdict:
  assumes "range_ok rng1" and "range_ok rng2"
  shows "fst (diffAggressor rng1 rng2 aggID (Some trades) obs) =
    (if \<exists>f \<in> set obs. \<not> fl_makerKnown f then VerdictUnverified
     else if agrees trades obs then VerdictCorrect else VerdictIncorrect)"
proof (cases "\<exists>f \<in> set obs. \<not> fl_makerKnown f")
  case True
  then obtain f where "find (\<lambda>f. \<not> fl_makerKnown f) obs = Some f"
    using find_None_iff[of "\<lambda>f. \<not> fl_makerKnown f" obs] by fastforce
  with True show ?thesis by (simp add: diffAggressor_def)
next
  case False
  then have known: "\<forall>f \<in> set obs. fl_makerKnown f" by blast
  then have "find (\<lambda>f. \<not> fl_makerKnown f) obs = None" by (simp add: find_None_iff)
  let ?em = "exp_map trades" and ?om = "obs_map obs"
  have makers: "find (\<lambda>k. get_or0 ?om k \<noteq> ee_qty (the (gm_get ?em k))) (rng1 (gm_keys ?em)) = None \<longleftrightarrow>
      (\<forall>k \<in> tr_makerBot ` set trades. i64 (filled_units obs k) = i64 (maker_units trades k))"
  proof -
    have "ee_qty (the (gm_get ?em k)) = i64 (maker_units trades k)" if "k \<in> tr_makerBot ` set trades" for k
      using that find_None_iff[of "\<lambda>t. tr_makerBot t = k" trades]
      by (auto simp: exp_map_get split: option.split)
    moreover have "set (rng1 (gm_keys ?em)) = tr_makerBot ` set trades"
      by (simp only: range_ok_set[OF assms(1)] exp_keys)
    ultimately show ?thesis
      by (simp add: find_None_iff obs_get_or0[OF known])
  qed
  have sel: "find (\<lambda>k. gm_get ?em k = None) (rng2 (gm_keys ?om)) = None \<longleftrightarrow>
      fl_makerBot ` set obs \<subseteq> tr_makerBot ` set trades"
  proof -
    have "set (rng2 (gm_keys ?om)) = fl_makerBot ` set obs"
      by (simp only: range_ok_set[OF assms(2)] obs_keys[OF known])
    moreover have "gm_get ?em k = None \<longleftrightarrow> k \<notin> tr_makerBot ` set trades" for k
      by (simp only: gm_get_None_iff exp_keys)
    ultimately show ?thesis by (auto simp: find_None_iff)
  qed
  have price: "find (price_outside ?em) obs = None \<longleftrightarrow>
      (\<forall>f \<in> set obs. fst (band_of trades (fl_makerBot f)) \<le> fl_price f \<and>
        fl_price f \<le> snd (band_of trades (fl_makerBot f)))"
    if "fl_makerBot ` set obs \<subseteq> tr_makerBot ` set trades"
    using that known price_outside_iff[of _ trades] by (auto simp: find_None_iff)
  show ?thesis
    using False makers sel price \<open>find (\<lambda>f. \<not> fl_makerKnown f) obs = None\<close>
    by (auto simp: diffAggressor_def Let_def agrees_def obs_total_sum exp_total_sum
        split: option.splits prod.splits)
qed

theorem diffAggressor_verdict_witness:
  "fst (diffAggressor id id ''o1''
      (Some [\<lparr>tr_makerBot = ''m'', tr_qty = 5, tr_makerPrice = 101, tr_aggLimit = 103, tr_aggMarket = False\<rparr>])
      [\<lparr>fl_makerBot = ''m'', fl_makerKnown = True, fl_makerID = 7, fl_qty = 5, fl_price = 102\<rparr>]) = VerdictCorrect"
proof -
  have "range_ok id" by (simp add: range_ok_def)
  then show ?thesis
    by (subst diffAggressor_verdict)
      (simp_all add: agrees_def filled_units_def maker_units_def band_of_def)
qed

section \<open>Soundness and completeness of the comparison\<close>

text \<open>
  A fill that reports a golden trade: the same maker, the same quantity, and any price between the
  maker's price and the aggressor's bound.
\<close>

definition reports :: "trade \<Rightarrow> observed_fill \<Rightarrow> bool" where
  "reports t f \<longleftrightarrow> fl_makerKnown f \<and> fl_makerBot f = tr_makerBot t \<and> fl_qty f = tr_qty t \<and>
     min (tr_makerPrice t) (tr_aggLimit t) \<le> fl_price f \<and> fl_price f \<le> max (tr_makerPrice t) (tr_aggLimit t)"

definition faithful_report :: "trade list \<Rightarrow> observed_fill list \<Rightarrow> bool" where
  "faithful_report trades obs \<longleftrightarrow> (\<exists>obs'. mset obs' = mset obs \<and> list_all2 reports trades obs')"

lemma reports_units:
  "list_all2 reports trades obs \<Longrightarrow>
     (\<Sum>f \<leftarrow> obs. fl_qty f) = (\<Sum>t \<leftarrow> trades. tr_qty t) \<and>
     filled_units obs k = maker_units trades k \<and>
     map fl_makerBot obs = map tr_makerBot trades \<and> (\<forall>f \<in> set obs. fl_makerKnown f)"
  by (induction rule: list_all2_induct) (auto simp: reports_def filled_units_def maker_units_def)

lemma filled_units_mset:
  assumes "mset obs = mset obs'"
  shows "filled_units obs k = filled_units obs' k"
proof -
  have "mset (map fl_qty (filter (\<lambda>f. fl_makerBot f = k) obs)) =
      mset (map fl_qty (filter (\<lambda>f. fl_makerBot f = k) obs'))"
    using assms by simp
  then show ?thesis unfolding filled_units_def by (metis sum_mset_sum_list)
qed

lemma find_distinct:
  "distinct (map g ts) \<Longrightarrow> t \<in> set ts \<Longrightarrow> find (\<lambda>x. g x = g t) ts = Some t"
  by (induction ts) (auto simp: rev_image_eqI)

lemma faithful_known:
  assumes "faithful_report trades obs"
  shows "\<forall>f \<in> set obs. fl_makerKnown f"
proof -
  obtain obs' where m: "mset obs' = mset obs" and l: "list_all2 reports trades obs'"
    using assms by (auto simp: faithful_report_def)
  from m have "set obs = set obs'" by (metis set_mset_mset)
  with reports_units[OF l] show ?thesis by simp
qed

lemma faithful_agrees:
  assumes "faithful_report trades obs" and "distinct (map tr_makerBot trades)"
  shows "agrees trades obs"
proof -
  obtain obs' where m: "mset obs' = mset obs" and l: "list_all2 reports trades obs'"
    using assms(1) by (auto simp: faithful_report_def)
  note units = reports_units[OF l]
  have set: "set obs = set obs'" using m by (metis set_mset_mset)
  have "(\<Sum>f \<leftarrow> obs. fl_qty f) = (\<Sum>f \<leftarrow> obs'. fl_qty f)"
    using m by (metis mset_map sum_mset_sum_list)
  moreover have "filled_units obs k = maker_units trades k" for k
    using units filled_units_mset[OF m, of k] by auto
  moreover have "fl_makerBot ` set obs = tr_makerBot ` set trades"
    using units set by (metis list.set_map)
  moreover have "fst (band_of trades (fl_makerBot f)) \<le> fl_price f \<and>
      fl_price f \<le> snd (band_of trades (fl_makerBot f))" if "f \<in> set obs" for f
  proof -
    from that set l obtain t where t: "t \<in> set trades" "reports t f"
      by (metis in_set_conv_nth list_all2_conv_all_nth)
    then have "find (\<lambda>x. tr_makerBot x = fl_makerBot f) trades = Some t"
      using find_distinct[OF assms(2) t(1)] by (simp add: reports_def)
    with t(2) show ?thesis by (simp add: band_of_def reports_def)
  qed
  ultimately show ?thesis using units by (simp add: agrees_def)
qed

text \<open>
  Soundness of the comparison: when every maker trades once, a contestant that reports exactly the
  golden trades, in any order and at any price inside each trade's band, is judged Correct.
\<close>

theorem diffAggressor_sound:
  assumes "range_ok rng1" and "range_ok rng2"
    and "faithful_report trades obs" and "distinct (map tr_makerBot trades)"
  shows "diffAggressor rng1 rng2 aggID (Some trades) obs = (VerdictCorrect, [])"
proof -
  have "fst (diffAggressor rng1 rng2 aggID (Some trades) obs) = VerdictCorrect"
    using diffAggressor_verdict[OF assms(1,2)] faithful_known[OF assms(3)] faithful_agrees[OF assms(3,4)]
    by auto
  then show ?thesis
    by (auto simp: diffAggressor_def Let_def split: option.splits prod.splits if_splits)
qed

text \<open>
  Completeness of the comparison: if the fills give some maker a quantity other than the golden
  model's, and the two quantities are machine integers, the verdict is Incorrect, unless a fill names
  an unknown maker.
\<close>

theorem diffAggressor_complete:
  assumes "range_ok rng1" and "range_ok rng2" and "\<forall>f \<in> set obs. fl_makerKnown f"
    and "filled_units obs k \<noteq> maker_units trades k"
    and "in_i64 (filled_units obs k)" and "in_i64 (maker_units trades k)"
  shows "fst (diffAggressor rng1 rng2 aggID (Some trades) obs) = VerdictIncorrect"
proof -
  have "\<not> agrees trades obs"
  proof (cases "k \<in> tr_makerBot ` set trades")
    case True
    moreover have "i64 (filled_units obs k) \<noteq> i64 (maker_units trades k)"
      using assms(4-6) by (simp add: i64_id)
    ultimately show ?thesis by (auto simp: agrees_def)
  next
    case False
    then have "filter (\<lambda>t. tr_makerBot t = k) trades = []" by (auto simp: filter_empty_conv)
    then have "maker_units trades k = 0" by (simp add: maker_units_def)
    with assms(4) have "filled_units obs k \<noteq> 0" by simp
    then have "k \<in> fl_makerBot ` set obs"
      by (metis (mono_tags, lifting) filled_units_def filter_empty_conv image_eqI list.simps(8) sum_list.Nil)
    with False show ?thesis by (auto simp: agrees_def)
  qed
  with assms(3) diffAggressor_verdict[OF assms(1,2)] show ?thesis by auto
qed

text \<open>Fills of a split order at two prices, in an order other than the golden one.\<close>

definition sample_trades :: "trade list" where
  "sample_trades =
     [\<lparr>tr_makerBot = ''a1'', tr_qty = 5, tr_makerPrice = 101, tr_aggLimit = 102, tr_aggMarket = False\<rparr>,
      \<lparr>tr_makerBot = ''a2'', tr_qty = 7, tr_makerPrice = 102, tr_aggLimit = 102, tr_aggMarket = False\<rparr>]"

definition sample_fills :: "observed_fill list" where
  "sample_fills =
     [\<lparr>fl_makerBot = ''a2'', fl_makerKnown = True, fl_makerID = 2, fl_qty = 7, fl_price = 102\<rparr>,
      \<lparr>fl_makerBot = ''a1'', fl_makerKnown = True, fl_makerID = 1, fl_qty = 5, fl_price = 102\<rparr>]"

lemma range_ok_id: "range_ok id"
  by (simp add: range_ok_def)

lemma sample_faithful: "faithful_report sample_trades sample_fills"
  by (auto simp: faithful_report_def reports_def sample_trades_def sample_fills_def
      intro!: exI[of _ "rev sample_fills"])

theorem diffAggressor_sound_witness:
  "diffAggressor id id ''x'' (Some sample_trades) sample_fills = (VerdictCorrect, [])"
  by (rule diffAggressor_sound[OF range_ok_id range_ok_id sample_faithful]) (simp add: sample_trades_def)

theorem diffAggressor_complete_witness:
  "fst (diffAggressor id id ''x'' (Some sample_trades) (tl sample_fills)) = VerdictIncorrect"
  by (rule diffAggressor_complete[OF range_ok_id range_ok_id, of _ "''a2''"])
    (simp_all add: sample_trades_def sample_fills_def filled_units_def maker_units_def in_i64_def)

end
