(* ===== verification/Replay.thy ===== *)
theory Replay
  imports Diff BookSafety
begin

text \<open>
  \<open>Replay\<close> of \<open>replayengine/engine.go\<close>: the events of one submission, in the order of their sequence
  numbers, drive one golden book per ticker; every order's golden trades are compared with the fills
  reported for it; and a tolerance policy turns the findings into a verdict. The local variables of the
  function are the fields of \<open>replay_state\<close>. The order of the \<open>n\<close>-th loop over a map is \<open>rng n\<close>.
\<close>

section \<open>State\<close>

record replay_state =
  rs_books :: "(string, order_book) gomap"
  rs_serverToBot :: "int \<rightharpoonup> string"
  rs_seen :: "int list" \<comment> \<open>the keys of the set, each once\<close>
  rs_expected :: "string \<rightharpoonup> trade list"
  rs_observed :: "(string, observed_fill list) gomap"
  rs_aggOrder :: "string list"
  rs_maxSeq :: int
  rs_aggTicker :: "string \<rightharpoonup> string"
  rs_aggSeq :: "string \<rightharpoonup> int"
  rs_taint :: "string \<rightharpoonup> int" \<comment> \<open>\<open>firstUnverifiableSeq\<close>\<close>
  rs_totalAttempts :: int
  rs_unknownCount :: int
  rs_ranges :: nat \<comment> \<open>how many loops over a map have run\<close>

definition replay_init :: replay_state where
  "replay_init =
     \<lparr>rs_books = [], rs_serverToBot = Map.empty, rs_seen = [], rs_expected = Map.empty,
      rs_observed = [], rs_aggOrder = [], rs_maxSeq = 0, rs_aggTicker = Map.empty,
      rs_aggSeq = Map.empty, rs_taint = Map.empty, rs_totalAttempts = 0, rs_unknownCount = 0,
      rs_ranges = 0\<rparr>"

section \<open>One event\<close>

definition markTaint :: "string \<Rightarrow> int \<Rightarrow> (string \<rightharpoonup> int) \<Rightarrow> (string \<rightharpoonup> int)" where
  "markTaint ticker seq m =
     (if ticker = [] then m
      else (case m ticker of
              None \<Rightarrow> m(ticker \<mapsto> seq)
            | Some cur \<Rightarrow> if seq < cur then m(ticker \<mapsto> seq) else m))"

definition getBook :: "(string, order_book) gomap \<Rightarrow> string \<Rightarrow> order_book \<times> (string, order_book) gomap" where
  "getBook books ticker =
     (case gm_get books ticker of
        Some b \<Rightarrow> (b, books)
      | None \<Rightarrow> (newOrderBook, gm_put ticker newOrderBook books))"

text \<open>The loop that looks for the book in which a cancelled order rests.\<close>

fun cancel_books :: "string list \<Rightarrow> string \<Rightarrow> (string, order_book) gomap \<Rightarrow> (string, order_book) gomap" where
  "cancel_books [] botID books = books"
| "cancel_books (k # ks) botID books =
     (case gm_get books k of
        None \<Rightarrow> cancel_books ks botID books
      | Some b \<Rightarrow>
          (let (found, b') = cancel_order b botID; books' = gm_put k b' books in
           if found then books' else cancel_books ks botID books'))"

definition replay_order :: "string \<Rightarrow> order_event \<Rightarrow> replay_state \<Rightarrow> go_panic + replay_state" where
  "replay_order side ev st =
     (let s2b = (if ev_contestantOrderID ev \<noteq> 0
                 then (rs_serverToBot st)(ev_contestantOrderID ev \<mapsto> ev_orderID ev)
                 else rs_serverToBot st);
          (book, books) = getBook (rs_books st) (ev_ticker ev)
      in case submit_order book (ev_orderID ev) side (ev_orderType ev) (toTick (ev_price ev)) (ev_volume ev) of
           Inl e \<Rightarrow> Inl e
         | Inr (trades, book') \<Rightarrow>
             Inr (st\<lparr>rs_totalAttempts := rs_totalAttempts st + 1,
                     rs_serverToBot := s2b,
                     rs_books := gm_put (ev_ticker ev) book' books,
                     rs_expected := (rs_expected st)(ev_orderID ev \<mapsto> trades),
                     rs_aggOrder := rs_aggOrder st @ [ev_orderID ev],
                     rs_aggTicker := (rs_aggTicker st)(ev_orderID ev \<mapsto> ev_ticker ev),
                     rs_aggSeq := (rs_aggSeq st)(ev_orderID ev \<mapsto> ev_seq ev)\<rparr>))"

definition replay_cancel :: "(nat \<Rightarrow> range_order) \<Rightarrow> order_event \<Rightarrow> replay_state \<Rightarrow> replay_state" where
  "replay_cancel rng ev st =
     (let st' = st\<lparr>rs_totalAttempts := rs_totalAttempts st + 1\<rparr> in
      if ev_cancelTargetID ev = 0 then st'
      else (case rs_serverToBot st (ev_cancelTargetID ev) of
              None \<Rightarrow> st'
            | Some botID \<Rightarrow>
                st'\<lparr>rs_books := cancel_books (rng (rs_ranges st) (gm_keys (rs_books st))) botID (rs_books st),
                    rs_ranges := rs_ranges st + 1\<rparr>))"

definition replay_fill :: "order_event \<Rightarrow> replay_state \<Rightarrow> replay_state" where
  "replay_fill ev st =
     (let agg = ev_aggressorOrderID ev in
      if agg = [] then st
      else (let maker = rs_serverToBot st (ev_matchedOrderID ev);
                f = \<lparr>fl_makerBot = (case maker of None \<Rightarrow> [] | Some b \<Rightarrow> b),
                     fl_makerKnown = (maker \<noteq> None), fl_makerID = ev_matchedOrderID ev,
                     fl_qty = ev_volume ev, fl_price = toTick (ev_executionPrice ev)\<rparr>;
                old = (case gm_get (rs_observed st) agg of None \<Rightarrow> [] | Some fs \<Rightarrow> fs)
            in st\<lparr>rs_observed := gm_put agg (old @ [f]) (rs_observed st)\<rparr>))"

definition replay_apply :: "(nat \<Rightarrow> range_order) \<Rightarrow> order_event \<Rightarrow> replay_state \<Rightarrow> go_panic + replay_state" where
  "replay_apply rng ev st =
     (if norm_token (ev_outcome ev) = ''UNKNOWN''
      then Inr (st\<lparr>rs_totalAttempts := rs_totalAttempts st + 1, rs_unknownCount := rs_unknownCount st + 1,
                   rs_taint := markTaint (ev_ticker ev) (ev_seq ev) (rs_taint st)\<rparr>)
      else if norm_token (ev_outcome ev) = ''REJECTED''
      then Inr (st\<lparr>rs_totalAttempts := rs_totalAttempts st + 1\<rparr>)
      else (let action = norm_token (ev_action ev) in
        if action = ''BUY'' \<or> action = ''SELL'' then replay_order action ev st
        else if action = ''CANCEL'' then Inr (replay_cancel rng ev st)
        else if action = ''FILL'' then Inr (replay_fill ev st)
        else Inr st))"

definition replay_event :: "(nat \<Rightarrow> range_order) \<Rightarrow> order_event \<Rightarrow> replay_state \<Rightarrow> go_panic + replay_state" where
  "replay_event rng ev st =
     (if ev_seq ev \<noteq> 0 \<and> ev_seq ev \<in> set (rs_seen st) then Inr st
      else (let st' = (if ev_seq ev \<noteq> 0
                       then st\<lparr>rs_seen := ev_seq ev # rs_seen st,
                               rs_maxSeq := (if rs_maxSeq st < ev_seq ev then ev_seq ev else rs_maxSeq st)\<rparr>
                       else st)
            in if ev_endOfRun ev then Inr st' else replay_apply rng ev st'))"

fun replay_events :: "(nat \<Rightarrow> range_order) \<Rightarrow> order_event list \<Rightarrow> replay_state \<Rightarrow> go_panic + replay_state" where
  "replay_events rng [] st = Inr st"
| "replay_events rng (ev # evs) st =
     (case replay_event rng ev st of
        Inl e \<Rightarrow> Inl e
      | Inr st' \<Rightarrow> replay_events rng evs st')"

section \<open>The differences\<close>

text \<open>A hole in the sequence numbers: the conversion to \<open>int\<close> wraps when it is \<open>2 ^ 63\<close> or more.\<close>

definition has_gap :: "replay_state \<Rightarrow> bool" where
  "has_gap st \<longleftrightarrow> rs_maxSeq st > 0 \<and> int (length (rs_seen st)) < rs_maxSeq st"

definition gap_count :: "replay_state \<Rightarrow> int" where
  "gap_count st = (if has_gap st then i64 (u64 (rs_maxSeq st - int (length (rs_seen st)))) else 0)"

definition orphan_count :: "replay_state \<Rightarrow> int" where
  "orphan_count st = int (length (filter (\<lambda>agg. rs_expected st agg = None) (gm_keys (rs_observed st))))"

definition globalTaint :: "replay_state \<Rightarrow> bool" where
  "globalTaint st \<longleftrightarrow> has_gap st \<or> orphan_count st > 0"

record diff_state =
  ds_taint :: "string \<rightharpoonup> int"
  ds_hardIncorrect :: string
  ds_taintedMismatch :: int
  ds_unverifiableFills :: int
  ds_ranges :: nat

definition agg_ticker :: "replay_state \<Rightarrow> string \<Rightarrow> string" where
  "agg_ticker st aggID = (case rs_aggTicker st aggID of None \<Rightarrow> [] | Some t \<Rightarrow> t)"

definition agg_seq :: "replay_state \<Rightarrow> string \<Rightarrow> int" where
  "agg_seq st aggID = (case rs_aggSeq st aggID of None \<Rightarrow> 0 | Some s \<Rightarrow> s)"

definition observed_of :: "replay_state \<Rightarrow> string \<Rightarrow> observed_fill list" where
  "observed_of st aggID = (case gm_get (rs_observed st) aggID of None \<Rightarrow> [] | Some fs \<Rightarrow> fs)"

definition is_tainted :: "replay_state \<Rightarrow> string \<Rightarrow> (string \<rightharpoonup> int) \<Rightarrow> bool" where
  "is_tainted st aggID taint \<longleftrightarrow> globalTaint st \<or>
     (case taint (agg_ticker st aggID) of None \<Rightarrow> False | Some s \<Rightarrow> s < agg_seq st aggID)"

definition diff_step :: "(nat \<Rightarrow> range_order) \<Rightarrow> replay_state \<Rightarrow> string \<Rightarrow> diff_state \<Rightarrow> diff_state" where
  "diff_step rng st aggID ds =
     (let (v, reason) = diffAggressor (rng (ds_ranges ds)) (rng (ds_ranges ds + 1)) aggID
            (rs_expected st aggID) (observed_of st aggID);
          ds' = ds\<lparr>ds_ranges := ds_ranges ds + 2\<rparr>;
          taint' = markTaint (agg_ticker st aggID) (agg_seq st aggID) (ds_taint ds)
      in case v of
           VerdictIncorrect \<Rightarrow>
             if is_tainted st aggID (ds_taint ds)
             then ds'\<lparr>ds_taintedMismatch := ds_taintedMismatch ds + 1, ds_taint := taint'\<rparr>
             else if ds_hardIncorrect ds = '''' then ds'\<lparr>ds_hardIncorrect := reason\<rparr>
             else ds'
         | VerdictUnverified \<Rightarrow>
             ds'\<lparr>ds_unverifiableFills := ds_unverifiableFills ds + 1, ds_taint := taint'\<rparr>
         | _ \<Rightarrow> ds')"

definition diff_init :: "replay_state \<Rightarrow> diff_state" where
  "diff_init st =
     \<lparr>ds_taint = rs_taint st, ds_hardIncorrect = [], ds_taintedMismatch = 0,
      ds_unverifiableFills = 0, ds_ranges = rs_ranges st\<rparr>"

definition diff_all :: "(nat \<Rightarrow> range_order) \<Rightarrow> replay_state \<Rightarrow> diff_state" where
  "diff_all rng st = fold (diff_step rng st) (rs_aggOrder st) (diff_init st)"

section \<open>The verdict\<close>

definition unverifiable_count :: "replay_state \<Rightarrow> diff_state \<Rightarrow> int" where
  "unverifiable_count st ds =
     i64 (rs_unknownCount st + gap_count st + orphan_count st + ds_unverifiableFills ds + ds_taintedMismatch ds)"

definition breakdown :: "replay_state \<Rightarrow> diff_state \<Rightarrow> string" where
  "breakdown st ds =
     ''unknown='' @ fmt_d (rs_unknownCount st) @ '' gap='' @ fmt_d (gap_count st) @
     '' orphan='' @ fmt_d (orphan_count st) @ '' unknown_maker='' @ fmt_d (ds_unverifiableFills ds) @
     '' tainted_mismatch='' @ fmt_d (ds_taintedMismatch ds)"

definition replay_decide :: "replay_state \<Rightarrow> diff_state \<Rightarrow> verdict \<times> string" where
  "replay_decide st ds =
     (if ds_hardIncorrect ds \<noteq> '''' then (VerdictIncorrect, ds_hardIncorrect ds)
      else
        let unverifiable = unverifiable_count st ds;
            unresolved = (ds_taintedMismatch ds > 0 \<or> ds_unverifiableFills ds > 0 \<or> orphan_count st > 0);
            attempts = rs_totalAttempts st
        in if attempts = 0 then
             (if unverifiable = 0 then (VerdictCorrect, '''')
              else (VerdictUnverified, ''no verifiable orders in the run''))
           else
             let frac = frac_of unverifiable attempts; pct = f64_mul frac (Fin 100);
                 head = fmt_d unverifiable @ '' of '' @ fmt_d attempts
             in if f64_less unhealthyThreshold frac then
                  (VerdictUnverified, ''server unhealthy: '' @ head @
                     '' order attempts could not be verified ('' @ fmt_f 0 pct @ ''% '' @ em_dash @
                     '' timeouts/errors/lost telemetry) ['' @ breakdown st ds @ '']'')
                else if f64_le unknownTolerance frac then
                  (VerdictUnverified, head @ '' order attempts could not be verified ('' @ fmt_f 1 pct @
                     ''%), above the '' @ fmt_f 0 (Fin 5) @ ''% tolerance to certify a pass ['' @
                     breakdown st ds @ '']'')
                else if unresolved then
                  (VerdictUnverified, head @ '' order attempts unverifiable ('' @ fmt_f 1 pct @
                     ''%, within tolerance) but a divergence on tainted input could not be cleared '' @
                     em_dash @ '' cannot certify a pass'')
                else (VerdictCorrect, ''''))"

definition Replay :: "(nat \<Rightarrow> range_order) \<Rightarrow> order_event list \<Rightarrow> go_panic + verdict \<times> string" where
  "Replay rng events =
     (case replay_events rng (sort_key ev_seq events) replay_init of
        Inl e \<Rightarrow> Inl e
      | Inr st \<Rightarrow> Inr (replay_decide st (diff_all rng st)))"

section \<open>A small stream\<close>

text \<open>
  A sell order rests, a buy order takes it at the maker's price, and the run ends: used to show that
  the hypotheses of the properties can hold.
\<close>

definition sample_stream :: "order_event list" where
  "sample_stream =
     [zero_event\<lparr>ev_action := ''SELL'', ev_orderID := ''a1'', ev_ticker := ''T'', ev_orderType := ''LIMIT'',
        ev_price := price_of_ticks 10000, ev_volume := 5, ev_seq := 1, ev_contestantOrderID := 11\<rparr>,
      zero_event\<lparr>ev_action := ''BUY'', ev_orderID := ''x'', ev_ticker := ''T'', ev_orderType := ''LIMIT'',
        ev_price := price_of_ticks 10100, ev_volume := 5, ev_seq := 2, ev_contestantOrderID := 12\<rparr>,
      zero_event\<lparr>ev_action := ''FILL'', ev_aggressorOrderID := ''x'', ev_matchedOrderID := 11,
        ev_ticker := ''T'', ev_executionPrice := price_of_ticks 10000, ev_volume := 5, ev_seq := 3\<rparr>,
      zero_event\<lparr>ev_seq := 4, ev_endOfRun := True\<rparr>]"

definition sample_final :: replay_state where
  "sample_final =
     \<lparr>rs_books = [(''T'', \<lparr>ob_bids = [], ob_asks = [], ob_live = Map.empty\<rparr>)],
      rs_serverToBot = [11 \<mapsto> ''a1'', 12 \<mapsto> ''x''], rs_seen = [4, 3, 2, 1],
      rs_expected = [''a1'' \<mapsto> [], ''x'' \<mapsto> [\<lparr>tr_makerBot = ''a1'', tr_qty = 5, tr_makerPrice = 10000,
        tr_aggLimit = 10100, tr_aggMarket = False\<rparr>]],
      rs_observed = [(''x'', [\<lparr>fl_makerBot = ''a1'', fl_makerKnown = True, fl_makerID = 11, fl_qty = 5,
        fl_price = 10000\<rparr>])],
      rs_aggOrder = [''a1'', ''x''], rs_maxSeq = 4, rs_aggTicker = [''a1'' \<mapsto> ''T'', ''x'' \<mapsto> ''T''],
      rs_aggSeq = [''a1'' \<mapsto> 1, ''x'' \<mapsto> 2], rs_taint = Map.empty, rs_totalAttempts = 2,
      rs_unknownCount = 0, rs_ranges = 0\<rparr>"

lemmas run_simps = replay_event_def replay_apply_def replay_order_def replay_fill_def replay_init_def
  toTick_price Let_def getBook_def submit_order_def newOrderBook_def match_book_def agg_band_def
  match_loop.simps rest_order_def i64_def mk_trade_def gm_put_def gm_get_def

lemmas diff_simps = diff_all_def diff_init_def diff_step_def Let_def diffAggressor_def observed_of_def
  gm_get_def exp_map_def exp_add_def gm_put_def obs_map_def obs_add_def obs_total_def exp_total_def
  i64_def get_or0_def price_outside_def priceBand_def

lemma sample_run: "replay_events rng (sort_key ev_seq sample_stream) replay_init = Inr sample_final"
  by (simp add: sample_stream_def zero_event_def sample_final_def run_simps)

lemma sample_verdict: "Replay (\<lambda>n. id) sample_stream = Inr (VerdictCorrect, [])"
proof -
  have "diff_all (\<lambda>n. id) sample_final = (diff_init sample_final)\<lparr>ds_ranges := 4\<rparr>"
    by (simp add: diff_simps sample_final_def)
  then show ?thesis
    using thresholds_decide[of 0 2]
    by (simp add: Replay_def sample_run replay_decide_def diff_init_def unverifiable_count_def
        gap_count_def has_gap_def orphan_count_def)
      (simp add: sample_final_def)
qed

text \<open>The same orders, but the engine reports no fill: a missed match.\<close>

definition missed_stream :: "order_event list" where
  "missed_stream = [sample_stream ! 0, sample_stream ! 1, zero_event\<lparr>ev_seq := 3, ev_endOfRun := True\<rparr>]"

definition missed_final :: replay_state where
  "missed_final = sample_final\<lparr>rs_seen := [3, 2, 1], rs_maxSeq := 3, rs_observed := []\<rparr>"

lemma missed_run: "replay_events rng (sort_key ev_seq missed_stream) replay_init = Inr missed_final"
  by (simp add: missed_stream_def sample_stream_def zero_event_def missed_final_def sample_final_def run_simps)

lemma missed_verdict:
  "Replay (\<lambda>n. id) missed_stream = Inr (VerdictIncorrect, reason_total ''x'' 0 5)"
proof -
  have "ds_hardIncorrect (diff_all (\<lambda>n. id) missed_final) = reason_total ''x'' 0 5"
    by (simp add: diff_simps missed_final_def sample_final_def is_tainted_def globalTaint_def
        has_gap_def orphan_count_def)
  then show ?thesis
    by (simp add: Replay_def missed_run replay_decide_def reason_total_def)
qed

end
