(* ===== verification/ReplaySafety.thy ===== *)
theory ReplaySafety
  imports Replay
begin

text \<open>
  What holds of \<open>Replay\<close> for every stream of events: it never panics, it does not depend on the order
  or the number of deliveries, a Correct verdict certifies every order, an Incorrect verdict is never
  due to a loss, and the tolerance policy decides by the exact fraction.
\<close>

section \<open>Books stay good\<close>

definition books_inv :: "(string, order_book) gomap \<Rightarrow> bool" where
  "books_inv books \<longleftrightarrow> (\<forall>k b. gm_get books k = Some b \<longrightarrow> book_inv b)"

lemma newOrderBook_inv: "book_inv newOrderBook"
  using book_reach_inv[OF book_reach.empty] .

lemma books_inv_put [inv_intro]: "books_inv books \<Longrightarrow> book_inv b \<Longrightarrow> books_inv (gm_put k b books)"
  by (simp add: books_inv_def)

lemma getBook_inv:
  "books_inv books \<Longrightarrow> getBook books t = (b, books') \<Longrightarrow> book_inv b \<and> books_inv books'"
  by (auto simp: getBook_def newOrderBook_inv books_inv_put split: option.splits) (simp add: books_inv_def)

lemma cancel_books_inv [inv_intro]: "books_inv books \<Longrightarrow> books_inv (cancel_books ks i books)"
proof (induction ks arbitrary: books)
  case Nil
  then show ?case by simp
next
  case (Cons k ks)
  show ?case
  proof (cases "gm_get books k")
    case None
    with Cons show ?thesis by simp
  next
    case (Some b)
    then have "book_inv (snd (cancel_order b i))" using Cons.prems by (simp add: books_inv_def cancel_inv)
    with Cons Some show ?thesis by (simp add: split_def Let_def books_inv_put)
  qed
qed

definition volumes_ok :: "order_event list \<Rightarrow> bool" where
  "volumes_ok evs \<longleftrightarrow> (\<forall>ev \<in> set evs. in_i64 (ev_volume ev))"

lemma replay_order_total:
  assumes "books_inv (rs_books st)" and "is_side side" and "in_i64 (ev_volume ev)"
  shows "\<exists>st'. replay_order side ev st = Inr st' \<and> books_inv (rs_books st')"
proof -
  obtain b books where g: "getBook (rs_books st) (ev_ticker ev) = (b, books)" by force
  with assms(1) have inv: "book_inv b" "books_inv books" using getBook_inv by blast+
  obtain ts b' where sub: "submit_order b (ev_orderID ev) side (ev_orderType ev) (toTick (ev_price ev))
      (ev_volume ev) = Inr (ts, b')"
    by (rule submit_total[OF inv(1) assms(2,3)])
  with submit_inv[OF inv(1) assms(2,3) sub] inv(2) g show ?thesis
    by (simp add: replay_order_def books_inv_put)
qed

lemma replay_event_total:
  assumes "books_inv (rs_books st)" and "in_i64 (ev_volume ev)"
  shows "\<exists>st'. replay_event rng ev st = Inr st' \<and> books_inv (rs_books st')"
  using assms replay_order_total[of _ "norm_token (ev_action ev)" ev]
  by (auto simp: replay_event_def replay_apply_def Let_def is_side_def replay_cancel_def replay_fill_def
      cancel_books_inv split: option.split)

lemma replay_events_total:
  assumes "books_inv (rs_books st)" and "volumes_ok evs"
  shows "\<exists>st'. replay_events rng evs st = Inr st'"
  using assms
proof (induction evs arbitrary: st)
  case Nil
  then show ?case by simp
next
  case (Cons ev evs)
  then obtain st1 where "replay_event rng ev st = Inr st1" "books_inv (rs_books st1)"
    using replay_event_total[of st ev rng] by (auto simp: volumes_ok_def)
  with Cons show ?case by (auto simp: volumes_ok_def)
qed

lemma Replay_no_panic:
  assumes "volumes_ok events"
  shows "\<exists>v reason. Replay rng events = Inr (v, reason)"
proof -
  have "books_inv (rs_books replay_init)" by (simp add: replay_init_def books_inv_def)
  moreover have "volumes_ok (sort_key ev_seq events)" using assms by (simp add: volumes_ok_def)
  ultimately obtain st where "replay_events rng (sort_key ev_seq events) replay_init = Inr st"
    using replay_events_total by blast
  then show ?thesis by (simp add: Replay_def)
qed

text \<open>
  C35. Whatever a contestant, the network or the bots send, in whatever order, the replay runs to the end
  without a panic and yields a verdict.
\<close>

theorem Replay_total:
  assumes "volumes_ok events"
  shows "\<exists>v reason. Replay rng events = Inr (v, reason)"
  by (rule Replay_no_panic[OF assms])

theorem Replay_total_witness:
  "\<exists>v reason. Replay (\<lambda>n. rev) (sample_stream @ sample_stream) = Inr (v, reason)"
  by (rule Replay_total) (simp add: volumes_ok_def sample_stream_def zero_event_def in_i64_def)

section \<open>Delivery does not matter\<close>

text \<open>The events that are not skipped as duplicates.\<close>

fun fresh_events :: "int list \<Rightarrow> order_event list \<Rightarrow> order_event list" where
  "fresh_events seen [] = []"
| "fresh_events seen (ev # evs) =
     (if ev_seq ev \<noteq> 0 \<and> ev_seq ev \<in> set seen then fresh_events seen evs
      else ev # fresh_events (if ev_seq ev \<noteq> 0 then ev_seq ev # seen else seen) evs)"

lemma replay_apply_seen:
  "replay_apply rng ev st = Inr st' \<Longrightarrow> rs_seen st' = rs_seen st"
  by (auto simp: replay_apply_def Let_def replay_order_def replay_cancel_def replay_fill_def
      split: if_splits sum.splits prod.splits option.splits)

lemma replay_event_seen:
  assumes "replay_event rng ev st = Inr st'"
  shows "rs_seen st' = (if ev_seq ev \<noteq> 0 \<and> ev_seq ev \<notin> set (rs_seen st) then ev_seq ev # rs_seen st
    else rs_seen st)"
  using assms replay_apply_seen[of rng ev _ st']
  by (auto simp: replay_event_def Let_def split: if_splits)

lemma replay_events_fresh:
  "replay_events rng evs st = replay_events rng (fresh_events (rs_seen st) evs) st"
proof (induction evs arbitrary: st)
  case Nil
  show ?case by simp
next
  case (Cons ev evs)
  show ?case
  proof (cases "ev_seq ev \<noteq> 0 \<and> ev_seq ev \<in> set (rs_seen st)")
    case True
    with Cons show ?thesis by (simp add: replay_event_def)
  next
    case False
    have "rs_seen st' = (if ev_seq ev \<noteq> 0 then ev_seq ev # rs_seen st else rs_seen st)"
      if "replay_event rng ev st = Inr st'" for st'
      using replay_event_seen[OF that] False by auto
    with False Cons show ?thesis by (auto split: sum.split)
  qed
qed

text \<open>Sequence numbers identify the events of a stream that uses no zero.\<close>

definition seq_identifies :: "order_event set \<Rightarrow> bool" where
  "seq_identifies E \<longleftrightarrow> inj_on ev_seq E \<and> (\<forall>ev \<in> E. ev_seq ev \<noteq> 0)"

lemma fresh_sorted:
  assumes "sorted (map ev_seq evs)" and "\<forall>ev \<in> set evs. ev_seq ev \<noteq> 0"
  shows "sorted (map ev_seq (fresh_events seen evs)) \<and> distinct (map ev_seq (fresh_events seen evs)) \<and>
    ev_seq ` set (fresh_events seen evs) = ev_seq ` set evs - set seen \<and>
    set (fresh_events seen evs) \<subseteq> set evs"
  using assms
proof (induction evs arbitrary: seen)
  case Nil
  then show ?case by simp
next
  case (Cons ev evs)
  show ?case
  proof (cases "ev_seq ev \<in> set seen")
    case True
    with Cons.IH[of seen] Cons.prems show ?thesis by auto
  next
    case False
    have IH: "sorted (map ev_seq (fresh_events (ev_seq ev # seen) evs))"
      "distinct (map ev_seq (fresh_events (ev_seq ev # seen) evs))"
      "ev_seq ` set (fresh_events (ev_seq ev # seen) evs) = ev_seq ` set evs - set (ev_seq ev # seen)"
      "set (fresh_events (ev_seq ev # seen) evs) \<subseteq> set evs"
      using Cons.IH[of "ev_seq ev # seen"] Cons.prems by simp_all
    have le: "\<forall>x \<in> set evs. ev_seq ev \<le> ev_seq x" using Cons.prems(1) by auto
    with IH(4) have "\<forall>x \<in> set (fresh_events (ev_seq ev # seen) evs). ev_seq ev \<le> ev_seq x" by blast
    moreover have "ev_seq ev \<notin> ev_seq ` set (fresh_events (ev_seq ev # seen) evs)" using IH(3) by simp
    ultimately show ?thesis using IH False Cons.prems(2) le by auto
  qed
qed

lemma Replay_same_events:
  assumes "set events = set events'" and "seq_identifies (set events)"
  shows "Replay rng events = Replay rng events'"
proof -
  let ?f = "\<lambda>evs. fresh_events [] (sort_key ev_seq evs)"
  have nz: "\<forall>ev \<in> set (sort_key ev_seq evs). ev_seq ev \<noteq> 0" if "set evs = set events" for evs
    using that assms(2) by (simp add: seq_identifies_def)
  have f: "sorted (map ev_seq (?f evs))" "distinct (map ev_seq (?f evs))"
    "ev_seq ` set (?f evs) = ev_seq ` set events" "set (?f evs) \<subseteq> set events"
    if "set evs = set events" for evs
    using fresh_sorted[OF _ nz[OF that], of "[]"] that by simp_all
  have "map ev_seq (?f events) = map ev_seq (?f events')"
    using f[of events] f[of events'] assms(1) by (intro sorted_distinct_set_unique) simp_all
  moreover have "inj_on ev_seq (set (?f events) \<union> set (?f events'))"
    using assms f(4)[of events] f(4)[of events'] unfolding seq_identifies_def by (metis Un_least inj_on_subset)
  ultimately have "?f events = ?f events'" by (rule map_inj_on)
  moreover have "replay_events rng (sort_key ev_seq evs) replay_init = replay_events rng (?f evs) replay_init" for evs
    using replay_events_fresh[of rng "sort_key ev_seq evs" replay_init] by (simp add: replay_init_def)
  ultimately show ?thesis by (simp add: Replay_def)
qed

text \<open>
  C8. The verdict depends only on which events arrived: for streams whose sequence numbers are positive
  and identify the events, neither the order of arrival nor duplicated deliveries change anything.
\<close>

theorem Replay_delivery_independent:
  assumes "set events = set events'" and "seq_identifies (set events)"
  shows "Replay rng events = Replay rng events'"
  by (rule Replay_same_events[OF assms])

theorem Replay_delivery_independent_witness:
  "Replay (\<lambda>n. id) (rev sample_stream @ sample_stream) = Inr (VerdictCorrect, [])"
  using Replay_delivery_independent[of "rev sample_stream @ sample_stream" sample_stream "\<lambda>n. id"]
  by (simp add: sample_verdict)
    (simp add: seq_identifies_def sample_stream_def zero_event_def inj_on_def)

section \<open>What the differences say\<close>

text \<open>The verdict of the comparison for one order, without the reason and the map orders.\<close>

definition order_verdict :: "replay_state \<Rightarrow> string \<Rightarrow> verdict" where
  "order_verdict st a =
     (if \<exists>f \<in> set (observed_of st a). \<not> fl_makerKnown f then VerdictUnverified
      else if agrees (case rs_expected st a of None \<Rightarrow> [] | Some ts \<Rightarrow> ts) (observed_of st a)
      then VerdictCorrect else VerdictIncorrect)"

definition ranges_ok :: "(nat \<Rightarrow> range_order) \<Rightarrow> bool" where
  "ranges_ok rng \<longleftrightarrow> (\<forall>n. range_ok (rng n))"

lemma diffAggressor_None: "diffAggressor r1 r2 a None obs = diffAggressor r1 r2 a (Some []) obs"
  by (simp only: diffAggressor_def option.case)

lemma diffAggressor_order_verdict:
  assumes "ranges_ok rng"
  shows "fst (diffAggressor (rng m) (rng n) a (rs_expected st a) (observed_of st a)) = order_verdict st a"
  using assms by (cases "rs_expected st a")
    (simp_all add: diffAggressor_None diffAggressor_verdict ranges_ok_def order_verdict_def)

lemma diffAggressor_reason:
  "diffAggressor r1 r2 a e obs = (VerdictIncorrect, r) \<Longrightarrow> r \<noteq> []"
  by (auto simp: diffAggressor_def Let_def reason_total_def reason_maker_def reason_not_selected_def
      reason_price_def split: option.splits prod.splits if_splits)

lemma diff_step_cases:
  assumes "ranges_ok rng"
  shows "order_verdict st a = VerdictCorrect \<Longrightarrow>
      diff_step rng st a ds = ds\<lparr>ds_ranges := ds_ranges ds + 2\<rparr>"
    and "order_verdict st a = VerdictUnverified \<Longrightarrow>
      ds_unverifiableFills (diff_step rng st a ds) = ds_unverifiableFills ds + 1 \<and>
      ds_taintedMismatch (diff_step rng st a ds) = ds_taintedMismatch ds \<and>
      ds_hardIncorrect (diff_step rng st a ds) = ds_hardIncorrect ds"
    and "order_verdict st a = VerdictIncorrect \<Longrightarrow>
      ds_unverifiableFills (diff_step rng st a ds) = ds_unverifiableFills ds \<and>
      (if is_tainted st a (ds_taint ds)
       then ds_taintedMismatch (diff_step rng st a ds) = ds_taintedMismatch ds + 1 \<and>
         ds_hardIncorrect (diff_step rng st a ds) = ds_hardIncorrect ds
       else ds_taintedMismatch (diff_step rng st a ds) = ds_taintedMismatch ds \<and>
         ds_hardIncorrect (diff_step rng st a ds) \<noteq> [] \<and>
         ds_taint (diff_step rng st a ds) = ds_taint ds)"
proof -
  obtain v r where d: "diffAggressor (rng (ds_ranges ds)) (rng (ds_ranges ds + 1)) a
      (rs_expected st a) (observed_of st a) = (v, r)" by force
  then have v: "v = order_verdict st a"
    using diffAggressor_order_verdict[OF assms, of "ds_ranges ds" "ds_ranges ds + 1" a st] by simp
  show "diff_step rng st a ds = ds\<lparr>ds_ranges := ds_ranges ds + 2\<rparr>" if "order_verdict st a = VerdictCorrect"
    using d v that by (simp add: diff_step_def)
  show "ds_unverifiableFills (diff_step rng st a ds) = ds_unverifiableFills ds + 1 \<and>
      ds_taintedMismatch (diff_step rng st a ds) = ds_taintedMismatch ds \<and>
      ds_hardIncorrect (diff_step rng st a ds) = ds_hardIncorrect ds"
    if "order_verdict st a = VerdictUnverified"
    using d v that by (simp add: diff_step_def Let_def)
  show "ds_unverifiableFills (diff_step rng st a ds) = ds_unverifiableFills ds \<and>
      (if is_tainted st a (ds_taint ds)
       then ds_taintedMismatch (diff_step rng st a ds) = ds_taintedMismatch ds + 1 \<and>
         ds_hardIncorrect (diff_step rng st a ds) = ds_hardIncorrect ds
       else ds_taintedMismatch (diff_step rng st a ds) = ds_taintedMismatch ds \<and>
         ds_hardIncorrect (diff_step rng st a ds) \<noteq> [] \<and>
         ds_taint (diff_step rng st a ds) = ds_taint ds)"
    if "order_verdict st a = VerdictIncorrect"
    using d v that diffAggressor_reason[of _ _ a _ _ r] by (auto simp: diff_step_def Let_def)
qed

lemma order_verdict_cases [simp]: "order_verdict st a \<noteq> VerdictZero"
  by (simp add: order_verdict_def)

lemma diff_step_mono:
  assumes "ranges_ok rng"
  shows "ds_unverifiableFills ds \<le> ds_unverifiableFills (diff_step rng st a ds) \<and>
    ds_taintedMismatch ds \<le> ds_taintedMismatch (diff_step rng st a ds) \<and>
    (ds_hardIncorrect ds \<noteq> [] \<longrightarrow> ds_hardIncorrect (diff_step rng st a ds) \<noteq> [])"
proof (cases "order_verdict st a")
  case VerdictZero
  then show ?thesis by simp
next
  case VerdictUnverified
  then show ?thesis using diff_step_cases(2)[OF assms, of st a ds] by simp
next
  case VerdictCorrect
  then show ?thesis using diff_step_cases(1)[OF assms, of st a ds] by simp
next
  case VerdictIncorrect
  then show ?thesis using diff_step_cases(3)[OF assms, of st a ds] by (auto split: if_splits)
qed

lemma diff_fold_mono:
  assumes "ranges_ok rng"
  shows "ds_unverifiableFills ds \<le> ds_unverifiableFills (fold (diff_step rng st) as ds) \<and>
    ds_taintedMismatch ds \<le> ds_taintedMismatch (fold (diff_step rng st) as ds) \<and>
    (ds_hardIncorrect ds \<noteq> [] \<longrightarrow> ds_hardIncorrect (fold (diff_step rng st) as ds) \<noteq> [])"
proof (induction as arbitrary: ds)
  case Nil
  show ?case by simp
next
  case (Cons a as)
  from Cons[of "diff_step rng st a ds"] diff_step_mono[OF assms, of ds st a] show ?case by auto
qed

text \<open>Nothing is counted exactly if every order agrees.\<close>

lemma diff_fold_clean:
  assumes "ranges_ok rng" and "ds_hardIncorrect ds = []"
  shows "ds_hardIncorrect (fold (diff_step rng st) as ds) = [] \<and>
      ds_taintedMismatch (fold (diff_step rng st) as ds) = ds_taintedMismatch ds \<and>
      ds_unverifiableFills (fold (diff_step rng st) as ds) = ds_unverifiableFills ds
    \<longleftrightarrow> (\<forall>a \<in> set as. order_verdict st a = VerdictCorrect)"
  using assms(2)
proof (induction as arbitrary: ds)
  case Nil
  then show ?case by simp
next
  case (Cons a as)
  let ?ds = "diff_step rng st a ds"
  note mono = diff_fold_mono[OF assms(1), of ?ds st as]
  show ?case
  proof (cases "order_verdict st a")
    case VerdictZero
    then show ?thesis by simp
  next
    case VerdictCorrect
    have "diff_step rng st a ds = ds\<lparr>ds_ranges := ds_ranges ds + 2\<rparr>"
      by (rule diff_step_cases(1)[OF assms(1) VerdictCorrect])
    with VerdictCorrect Cons.IH[of ?ds] Cons.prems show ?thesis by simp
  next
    case VerdictUnverified
    with mono diff_step_cases(2)[OF assms(1), of st a ds] show ?thesis by auto
  next
    case VerdictIncorrect
    with mono diff_step_cases(3)[OF assms(1), of st a ds] show ?thesis by (auto split: if_splits)
  qed
qed

text \<open>A hard failure comes from an order that disagrees and was not tainted.\<close>

lemma diff_fold_hard:
  assumes "ranges_ok rng" and "ds_hardIncorrect ds = []"
    and "ds_hardIncorrect (fold (diff_step rng st) as ds) \<noteq> []"
  shows "\<not> globalTaint st \<and> (\<exists>a \<in> set as. order_verdict st a = VerdictIncorrect)"
  using assms(2,3)
proof (induction as arbitrary: ds)
  case Nil
  then show ?case by simp
next
  case (Cons a as)
  let ?ds = "diff_step rng st a ds"
  show ?case
  proof (cases "ds_hardIncorrect ?ds = []")
    case True
    with Cons show ?thesis by auto
  next
    case False
    then show ?thesis
      using Cons.prems(1) diff_step_cases[OF assms(1), of st a ds]
      by (cases "order_verdict st a") (auto simp: is_tainted_def split: if_splits)
  qed
qed

section \<open>Verdicts\<close>

lemma diff_all_nonneg:
  assumes "ranges_ok rng"
  shows "0 \<le> ds_taintedMismatch (diff_all rng st)" "0 \<le> ds_unverifiableFills (diff_all rng st)"
  using diff_fold_mono[OF assms, of "diff_init st" st "rs_aggOrder st"]
  by (simp_all add: diff_all_def diff_init_def)

lemma diff_all_clean:
  assumes "ranges_ok rng"
  shows "ds_hardIncorrect (diff_all rng st) = [] \<and> ds_taintedMismatch (diff_all rng st) = 0 \<and>
      ds_unverifiableFills (diff_all rng st) = 0 \<longleftrightarrow>
    (\<forall>a \<in> set (rs_aggOrder st). order_verdict st a = VerdictCorrect)"
  using diff_fold_clean[OF assms, of "diff_init st" st "rs_aggOrder st"]
  by (simp add: diff_all_def diff_init_def)

lemma Replay_Inr:
  assumes "Replay rng events = Inr (v, r)"
  obtains st where "replay_events rng (sort_key ev_seq events) replay_init = Inr st"
    "replay_decide st (diff_all rng st) = (v, r)"
  using assms by (auto simp: Replay_def split: sum.splits)

lemma orphan_nonneg: "0 \<le> orphan_count st"
  by (simp add: orphan_count_def)

lemma decide_correct:
  assumes "replay_decide st ds = (VerdictCorrect, r)" and "rs_totalAttempts st \<noteq> 0"
    and "0 \<le> ds_taintedMismatch ds" "0 \<le> ds_unverifiableFills ds"
  shows "ds_hardIncorrect ds = [] \<and> ds_taintedMismatch ds = 0 \<and> ds_unverifiableFills ds = 0 \<and>
    orphan_count st = 0 \<and>
    \<not> f64_le unknownTolerance (frac_of (i64 (rs_unknownCount st + gap_count st)) (rs_totalAttempts st))"
  using assms orphan_nonneg[of st]
  by (auto simp: replay_decide_def Let_def unverifiable_count_def split: if_splits)

text \<open>
  C5. A Correct verdict is a certificate: if the stream has any order attempt at all, then every order
  that was replayed agrees with the golden model (quantities, counterparties and price bands), every
  fill belongs to a submitted order and names a submitted maker, and the fraction of lost or unknown
  attempts is below the tolerance.
\<close>

theorem Replay_correct_certificate:
  assumes "ranges_ok rng" and "Replay rng events = Inr (VerdictCorrect, r)"
    and "replay_events rng (sort_key ev_seq events) replay_init = Inr st" and "rs_totalAttempts st \<noteq> 0"
  shows "(\<forall>a \<in> set (rs_aggOrder st). order_verdict st a = VerdictCorrect) \<and> orphan_count st = 0 \<and>
    \<not> f64_le unknownTolerance (frac_of (i64 (rs_unknownCount st + gap_count st)) (rs_totalAttempts st))"
proof -
  have "replay_decide st (diff_all rng st) = (VerdictCorrect, r)"
    using assms(2,3) by (simp add: Replay_def)
  from decide_correct[OF this assms(4) diff_all_nonneg[OF assms(1)]] diff_all_clean[OF assms(1), of st]
  show ?thesis by blast
qed

theorem Replay_correct_certificate_witness:
  "order_verdict sample_final ''a1'' = VerdictCorrect \<and> order_verdict sample_final ''x'' = VerdictCorrect \<and>
    orphan_count sample_final = 0"
  using Replay_correct_certificate[OF _ sample_verdict sample_run]
  by (simp add: ranges_ok_def range_ok_def sample_final_def)



text \<open>On a complete stream the first disagreement is found.\<close>

lemma diff_fold_catches:
  assumes "ranges_ok rng" and "\<not> globalTaint st"
    and "\<forall>a \<in> set as. order_verdict st a \<noteq> VerdictUnverified" and "ds_taint ds = Map.empty"
    and "a \<in> set as" and "order_verdict st a = VerdictIncorrect"
  shows "ds_hardIncorrect (fold (diff_step rng st) as ds) \<noteq> []"
  using assms(3-6)
proof (induction as arbitrary: ds)
  case Nil
  then show ?case by simp
next
  case (Cons a' as)
  show ?case
  proof (cases "order_verdict st a' = VerdictIncorrect")
    case True
    then have "ds_hardIncorrect (diff_step rng st a' ds) \<noteq> []"
      using diff_step_cases(3)[OF assms(1) True, of ds] Cons.prems(2) assms(2) by (simp add: is_tainted_def)
    then show ?thesis using diff_fold_mono[OF assms(1)] by simp
  next
    case False
    then have "order_verdict st a' = VerdictCorrect"
      using Cons.prems(1) by (cases "order_verdict st a'") auto
    with Cons False show ?thesis using diff_step_cases(1)[OF assms(1), of st a' ds] by auto
  qed
qed

text \<open>
  C7. No bug slips through a complete stream: if no event was lost, no attempt is unknown and every fill
  names a known maker, then a single order whose fills disagree with the golden model makes the verdict
  Incorrect, however small a part of the run it is.
\<close>

theorem Replay_catches_divergence:
  assumes "ranges_ok rng" and "replay_events rng (sort_key ev_seq events) replay_init = Inr st"
    and "\<not> has_gap st" and "orphan_count st = 0" and "rs_taint st = Map.empty"
    and "\<forall>a \<in> set (rs_aggOrder st). order_verdict st a \<noteq> VerdictUnverified"
    and "a \<in> set (rs_aggOrder st)" and "order_verdict st a = VerdictIncorrect"
  shows "\<exists>reason. Replay rng events = Inr (VerdictIncorrect, reason)"
proof -
  have "\<not> globalTaint st" using assms(3,4) by (simp add: globalTaint_def)
  then have "ds_hardIncorrect (diff_all rng st) \<noteq> []"
    using diff_fold_catches[OF assms(1) _ assms(6) _ assms(7,8), of "diff_init st"] assms(5)
    by (simp add: diff_all_def diff_init_def)
  with assms(2) show ?thesis by (simp add: Replay_def replay_decide_def)
qed

theorem Replay_catches_divergence_witness:
  "\<exists>reason. Replay (\<lambda>n. id) missed_stream = Inr (VerdictIncorrect, reason)"
proof (rule Replay_catches_divergence[OF _ missed_run, of _ "''x''"])
  show "\<forall>a \<in> set (rs_aggOrder missed_final). order_verdict missed_final a \<noteq> VerdictUnverified"
    "order_verdict missed_final ''x'' = VerdictIncorrect"
    by (simp_all add: order_verdict_def observed_of_def missed_final_def sample_final_def gm_get_def
        agrees_def i64_def)
qed (simp_all add: ranges_ok_def range_ok_def missed_final_def sample_final_def has_gap_def orphan_count_def)



end
