(* ===== verification/ReplaySound.thy ===== *)
theory ReplaySound
  imports ReplaySafety
begin

text \<open>
  A correct engine is never failed. \<open>honest h evs\<close> says that \<open>evs\<close> can be the telemetry of an engine that
  follows the price-time specification of \<open>AbstractBook\<close>: it books orders per ticker, reports every
  trade of the specification as one fill, in any order and at any price inside the trade's band, and
  numbers its events consecutively. The main theorem is that \<open>Replay\<close> judges every such stream Correct,
  however its events are delivered.
\<close>

section \<open>Honest engines\<close>

record honest_state =
  hs_books :: "string \<Rightarrow> abs_book"
  hs_ids :: "string set" \<comment> \<open>the order ids used so far\<close>
  hs_names :: "int \<rightharpoonup> string" \<comment> \<open>the order a server id stands for\<close>
  hs_seq :: int

definition empty_abs :: abs_book where
  "empty_abs = \<lparr>ab_bids = [], ab_asks = []\<rparr>"

definition honest_init :: honest_state where
  "honest_init = \<lparr>hs_books = (\<lambda>_. empty_abs), hs_ids = {}, hs_names = Map.empty, hs_seq = 0\<rparr>"

text \<open>An attempt that the server acknowledged.\<close>

definition acknowledged :: "order_event \<Rightarrow> bool" where
  "acknowledged ev \<longleftrightarrow> \<not> ev_endOfRun ev \<and> norm_token (ev_outcome ev) \<notin> {''UNKNOWN'', ''REJECTED''}"

definition honest_submit :: "honest_state \<Rightarrow> order_event \<Rightarrow> trade list \<times> abs_book" where
  "honest_submit h ev =
     spec_submit (hs_books h (ev_ticker ev)) (ev_orderID ev) (norm_token (ev_action ev)) (ev_orderType ev)
       (toTick (ev_price ev)) (ev_volume ev)"

definition honest_order :: "honest_state \<Rightarrow> order_event \<Rightarrow> honest_state" where
  "honest_order h ev =
     h\<lparr>hs_books := (hs_books h)(ev_ticker ev := snd (honest_submit h ev)),
       hs_ids := insert (ev_orderID ev) (hs_ids h),
       hs_names := (if ev_contestantOrderID ev \<noteq> 0
         then (hs_names h)(ev_contestantOrderID ev \<mapsto> ev_orderID ev) else hs_names h)\<rparr>"

definition honest_cancel :: "honest_state \<Rightarrow> order_event \<Rightarrow> honest_state" where
  "honest_cancel h ev =
     (if ev_cancelTargetID ev = 0 then h
      else (case hs_names h (ev_cancelTargetID ev) of
              None \<Rightarrow> h
            | Some i \<Rightarrow> h\<lparr>hs_books := (\<lambda>t. spec_cancel (hs_books h t) i)\<rparr>))"

definition fill_reports :: "honest_state \<Rightarrow> string \<Rightarrow> trade \<Rightarrow> order_event \<Rightarrow> bool" where
  "fill_reports h agg t f \<longleftrightarrow> acknowledged f \<and> norm_token (ev_action f) = ''FILL'' \<and>
     ev_aggressorOrderID f = agg \<and> hs_names h (ev_matchedOrderID f) = Some (tr_makerBot t) \<and>
     ev_volume f = tr_qty t \<and>
     min (tr_makerPrice t) (tr_aggLimit t) \<le> toTick (ev_executionPrice f) \<and>
     toTick (ev_executionPrice f) \<le> max (tr_makerPrice t) (tr_aggLimit t)"

inductive honest :: "honest_state \<Rightarrow> order_event list \<Rightarrow> bool" where
  init: "honest honest_init []"
| order: "honest h evs \<Longrightarrow> acknowledged ev \<Longrightarrow> is_side (norm_token (ev_action ev)) \<Longrightarrow>
    ev_orderID ev \<notin> hs_ids h \<Longrightarrow> ev_orderID ev \<noteq> [] \<Longrightarrow> in_i64 (ev_volume ev) \<Longrightarrow>
    mset trades = mset (fst (honest_submit h ev)) \<Longrightarrow>
    list_all2 (fill_reports (honest_order h ev) (ev_orderID ev)) trades fills \<Longrightarrow>
    map ev_seq (ev # fills) = map (\<lambda>n. hs_seq h + 1 + int n) [0..<Suc (length fills)] \<Longrightarrow>
    honest ((honest_order h ev)\<lparr>hs_seq := hs_seq h + 1 + int (length fills)\<rparr>) (evs @ ev # fills)"
| cancel: "honest h evs \<Longrightarrow> acknowledged ev \<Longrightarrow> norm_token (ev_action ev) = ''CANCEL'' \<Longrightarrow>
    ev_seq ev = hs_seq h + 1 \<Longrightarrow>
    honest ((honest_cancel h ev)\<lparr>hs_seq := hs_seq h + 1\<rparr>) (evs @ [ev])"
| rejected: "honest h evs \<Longrightarrow> \<not> ev_endOfRun ev \<Longrightarrow> norm_token (ev_outcome ev) = ''REJECTED'' \<Longrightarrow>
    ev_seq ev = hs_seq h + 1 \<Longrightarrow> honest (h\<lparr>hs_seq := hs_seq h + 1\<rparr>) (evs @ [ev])"
| finish: "honest h evs \<Longrightarrow> ev_endOfRun ev \<Longrightarrow> ev_seq ev = hs_seq h + 1 \<Longrightarrow>
    honest (h\<lparr>hs_seq := hs_seq h + 1\<rparr>) (evs @ [ev])"

lemma honest_seqs: "honest h evs \<Longrightarrow> map ev_seq evs = map (\<lambda>n. 1 + int n) [0..<length evs] \<and> hs_seq h = int (length evs)"
proof (induction rule: honest.induct)
  case init
  then show ?case by (simp add: honest_init_def)
next
  case (order h evs ev trades fills)
  have "map (\<lambda>n. hs_seq h + 1 + int n) [0..<Suc (length fills)] =
      map (\<lambda>n. 1 + int n) [length evs..<length evs + Suc (length fills)]"
    using order.IH by (intro nth_equalityI) (simp_all del: upt_Suc)
  with order show ?case
    by (simp del: upt_Suc add: upt_add_eq_append[of 0 "length evs" "Suc (length fills)", simplified])
qed simp_all

section \<open>Cancelling over all books\<close>

lemma gm_put_same: "gm_get m k = Some v \<Longrightarrow> gm_get (gm_put k v m) = gm_get m"
  by (auto simp: fun_eq_iff)

lemma cancel_missing: "\<not> fst (cancel_order b i) \<Longrightarrow> snd (cancel_order b i) = b"
  by (auto simp: cancel_order_def Let_def split: option.splits if_splits)

text \<open>
  If at most one book holds the order, looking for it book by book, in any order, cancels it in all of
  the books that are visited.
\<close>

lemma cancel_books_get:
  assumes "\<And>k k' b b'. gm_get books k = Some b \<Longrightarrow> gm_get books k' = Some b' \<Longrightarrow>
      fst (cancel_order b i) \<Longrightarrow> fst (cancel_order b' i) \<Longrightarrow> k = k'"
  shows "gm_get (cancel_books ks i books) t =
    (if t \<in> set ks then map_option (\<lambda>b. snd (cancel_order b i)) (gm_get books t) else gm_get books t)"
  using assms
proof (induction ks arbitrary: books)
  case Nil
  then show ?case by simp
next
  case (Cons k ks)
  show ?case
  proof (cases "gm_get books k")
    case None
    with Cons show ?thesis by simp
  next
    case (Some b)
    show ?thesis
    proof (cases "fst (cancel_order b i)")
      case True
      have "snd (cancel_order b' i) = b'" if "gm_get books k' = Some b'" "k' \<noteq> k" for k' b'
        using Cons.prems[OF that(1) Some _ True] that(2) cancel_missing by blast
      with True Some show ?thesis by (cases "gm_get books t") (auto simp: split_def Let_def)
    next
      case False
      let ?books = "gm_put k (snd (cancel_order b i)) books"
      have same: "gm_get ?books = gm_get books"
        using cancel_missing[OF False] gm_put_same[OF Some] by simp
      have "gm_get (cancel_books ks i ?books) t =
          (if t \<in> set ks then map_option (\<lambda>b. snd (cancel_order b i)) (gm_get ?books t) else gm_get ?books t)"
        by (rule Cons.IH) (use Cons.prems same in metis)
      with False Some same cancel_missing[OF False] show ?thesis by (auto simp: split_def Let_def)
    qed
  qed
qed

section \<open>Sequence numbers\<close>

definition seen_upto :: "int \<Rightarrow> replay_state \<Rightarrow> bool" where
  "seen_upto n st \<longleftrightarrow> 0 \<le> n \<and> rs_maxSeq st = n \<and> int (length (rs_seen st)) = n \<and>
     (\<forall>s \<in> set (rs_seen st). s \<le> n)"

definition note_seq :: "int \<Rightarrow> replay_state \<Rightarrow> replay_state" where
  "note_seq s st = st\<lparr>rs_seen := s # rs_seen st, rs_maxSeq := s\<rparr>"

lemma replay_event_next:
  assumes "seen_upto n st" and "ev_seq ev = n + 1"
  shows "replay_event rng ev st =
      (if ev_endOfRun ev then Inr (note_seq (n + 1) st) else replay_apply rng ev (note_seq (n + 1) st))"
    and "seen_upto (n + 1) (note_seq (n + 1) st)"
  using assms by (auto simp: replay_event_def seen_upto_def note_seq_def)

lemma note_seq_simps [simp]:
  "rs_books (note_seq s st) = rs_books st" "rs_serverToBot (note_seq s st) = rs_serverToBot st"
  "rs_expected (note_seq s st) = rs_expected st" "rs_observed (note_seq s st) = rs_observed st"
  "rs_aggOrder (note_seq s st) = rs_aggOrder st" "rs_totalAttempts (note_seq s st) = rs_totalAttempts st"
  "rs_unknownCount (note_seq s st) = rs_unknownCount st" "rs_ranges (note_seq s st) = rs_ranges st"
  "rs_aggTicker (note_seq s st) = rs_aggTicker st" "rs_aggSeq (note_seq s st) = rs_aggSeq st"
  "rs_taint (note_seq s st) = rs_taint st"
  by (simp_all add: note_seq_def)

lemma replay_events_append:
  "replay_events rng (xs @ ys) st =
     (case replay_events rng xs st of Inl e \<Rightarrow> Inl e | Inr st' \<Rightarrow> replay_events rng ys st')"
  by (induction xs arbitrary: st) (auto split: sum.split)

section \<open>Fills\<close>

text \<open>What processing the fills of one order changes: the observations of that order, nothing else.\<close>

definition only_fills :: "string \<Rightarrow> replay_state \<Rightarrow> replay_state \<Rightarrow> bool" where
  "only_fills a st st' \<longleftrightarrow>
     rs_books st' = rs_books st \<and> rs_serverToBot st' = rs_serverToBot st \<and>
     rs_expected st' = rs_expected st \<and> rs_aggOrder st' = rs_aggOrder st \<and>
     rs_totalAttempts st' = rs_totalAttempts st \<and> rs_unknownCount st' = rs_unknownCount st \<and>
     (\<forall>k. k \<noteq> a \<longrightarrow> gm_get (rs_observed st') k = gm_get (rs_observed st) k)"

lemma fills_run:
  assumes "list_all2 (fill_reports h a) trades fills" and "a \<noteq> []" and "rs_serverToBot st = hs_names h"
    and "seen_upto n st" and "map ev_seq fills = map (\<lambda>i. n + 1 + int i) [0..<length fills]"
  shows "\<exists>st' obs. replay_events rng fills st = Inr st' \<and> only_fills a st st' \<and>
    seen_upto (n + int (length fills)) st' \<and>
    observed_of st' a = observed_of st a @ obs \<and> list_all2 reports trades obs"
  using assms
proof (induction arbitrary: st n rule: list_all2_induct)
  case Nil
  then show ?case by (auto simp: only_fills_def)
next
  case (Cons t trades f fills)
  have seqs: "ev_seq f = n + 1" "map ev_seq fills = map (\<lambda>i. (n + 1) + 1 + int i) [0..<length fills]"
    using Cons.prems(4) by (simp_all add: upt_conv_Cons map_Suc_upt[symmetric] comp_def del: upt_Suc)
  define g where "g = \<lparr>fl_makerBot = tr_makerBot t, fl_makerKnown = True, fl_makerID = ev_matchedOrderID f,
      fl_qty = ev_volume f, fl_price = toTick (ev_executionPrice f)\<rparr>"
  define st1 where "st1 = (note_seq (n + 1) st)\<lparr>rs_observed := gm_put a (observed_of st a @ [g]) (rs_observed st)\<rparr>"
  have f: "replay_event rng f st = Inr st1"
    using Cons.hyps(1) Cons.prems(1,2) replay_event_next(1)[OF Cons.prems(3) seqs(1)]
    by (auto simp: fill_reports_def acknowledged_def replay_apply_def replay_fill_def st1_def g_def
        observed_of_def)
  have st1: "seen_upto (n + 1) st1" "only_fills a st st1" "rs_serverToBot st1 = hs_names h"
    "observed_of st1 a = observed_of st a @ [g]"
    using replay_event_next(2)[OF Cons.prems(3) seqs(1)] Cons.prems(2)
    by (auto simp: st1_def seen_upto_def only_fills_def observed_of_def)
  obtain st' obs where IH: "replay_events rng fills st1 = Inr st'" "only_fills a st1 st'"
    "seen_upto (n + 1 + int (length fills)) st'" "observed_of st' a = observed_of st1 a @ obs"
    "list_all2 reports trades obs"
    using Cons.IH[OF Cons.prems(1) st1(3,1) seqs(2)] by blast
  have "reports t g" using Cons.hyps(1) by (simp add: fill_reports_def reports_def g_def)
  moreover have "only_fills a st st'" using st1(2) IH(2) by (simp add: only_fills_def)
  moreover have "observed_of st' a = observed_of st a @ (g # obs)" using IH(4) st1(4) by simp
  moreover have "seen_upto (n + int (length (f # fills))) st'" using IH(3) by (simp add: ac_simps)
  moreover have "replay_events rng (f # fills) st = Inr st'" using f IH(1) by simp
  ultimately show ?case using IH(5) by blast
qed

section \<open>The simulation\<close>

definition books_rel :: "(string, order_book) gomap \<Rightarrow> (string \<Rightarrow> abs_book) \<Rightarrow> bool" where
  "books_rel books ab \<longleftrightarrow>
     (\<forall>t. (gm_get books t = None \<longrightarrow> ab t = empty_abs) \<and>
        (\<forall>b. gm_get books t = Some b \<longrightarrow> book_rel b (ab t)))"

definition ids_apart :: "(string \<Rightarrow> abs_book) \<Rightarrow> string set \<Rightarrow> bool" where
  "ids_apart ab used \<longleftrightarrow>
     (\<forall>t. set (book_ids (ab t)) \<subseteq> used) \<and>
     (\<forall>t t' i. i \<in> set (book_ids (ab t)) \<longrightarrow> i \<in> set (book_ids (ab t')) \<longrightarrow> t = t')"

definition order_good :: "replay_state \<Rightarrow> string \<Rightarrow> bool" where
  "order_good st a \<longleftrightarrow>
     (\<exists>ts. rs_expected st a = Some ts \<and> distinct (map tr_makerBot ts) \<and> faithful_report ts (observed_of st a))"

definition follows :: "honest_state \<Rightarrow> replay_state \<Rightarrow> bool" where
  "follows h st \<longleftrightarrow>
     books_rel (rs_books st) (hs_books h) \<and> ids_apart (hs_books h) (hs_ids h) \<and>
     rs_serverToBot st = hs_names h \<and> seen_upto (hs_seq h) st \<and> rs_unknownCount st = 0 \<and>
     (\<forall>a. rs_expected st a \<noteq> None \<longrightarrow> a \<in> hs_ids h) \<and>
     (\<forall>a. gm_get (rs_observed st) a \<noteq> None \<longrightarrow> rs_expected st a \<noteq> None) \<and>
     (\<forall>a \<in> set (rs_aggOrder st). order_good st a) \<and>
     0 \<le> rs_totalAttempts st \<and> rs_totalAttempts st \<le> hs_seq h"

lemma follows_init: "follows honest_init replay_init"
  by (simp add: follows_def honest_init_def replay_init_def books_rel_def ids_apart_def seen_upto_def
      empty_abs_def book_ids_def)

lemma getBook_rel:
  assumes "books_rel books ab" and "getBook books t = (b, books')"
  shows "book_rel b (ab t) \<and> books_rel books' ab \<and> gm_get books' t = Some b"
  using assms book_rel_empty[folded empty_abs_def]
  by (auto simp: getBook_def books_rel_def split: option.splits if_splits)

lemma books_rel_put:
  "books_rel books ab \<Longrightarrow> book_rel b a \<Longrightarrow> books_rel (gm_put t b books) (ab(t := a))"
  by (auto simp: books_rel_def split: if_splits)

lemma spec_submit_ids:
  "set (book_ids (snd (spec_submit ab i side otype limit qty))) \<subseteq> insert i (set (book_ids ab))"
proof -
  obtain fs left opp where fill: "spec_fill (opp_key side)
      (\<lambda>p. \<not> accepts side (norm_token otype = ''MARKET'') limit p) qty (opposing ab side) = (fs, left, opp)"
    by (metis prod_cases3)
  show ?thesis
    unfolding spec_submit_unfold[OF fill]
    using book_ids_set_opposing[OF fill] by (auto simp: add_own_def book_ids_def split: if_splits)
qed

lemma spec_submit_makers:
  assumes "distinct (book_ids ab)"
  shows "distinct (map tr_makerBot (fst (spec_submit ab i side otype limit qty)))"
proof -
  obtain fs left opp where fill: "spec_fill (opp_key side)
      (\<lambda>p. \<not> accepts side (norm_token otype = ''MARKET'') limit p) qty (opposing ab side) = (fs, left, opp)"
    by (metis prod_cases3)
  have "distinct (map ao_id (opposing ab side))"
    using assms by (simp add: opposing_def book_ids_def)
  then have "distinct (map (\<lambda>(b, m). ao_id b) fs)" by (rule spec_fill_distinct[OF fill])
  moreover have "tr_makerBot \<circ> spec_trade band market = (\<lambda>(b, m). ao_id b)" for band market
    by (auto simp: spec_trade_def)
  ultimately show ?thesis unfolding spec_submit_unfold[OF fill] by simp
qed

lemma order_good_keep:
  assumes "order_good st b" and "b \<noteq> a" and "rs_expected st' b = rs_expected st b"
    and "gm_get (rs_observed st') b = gm_get (rs_observed st) b"
  shows "order_good st' b"
  using assms by (simp add: order_good_def observed_of_def)

text \<open>One acknowledged order and its fills.\<close>

lemma ids_apart_submit:
  assumes "ids_apart ab used" and "i \<notin> used" and "set (book_ids a) \<subseteq> insert i (set (book_ids (ab t)))"
  shows "ids_apart (ab(t := a)) (insert i used)"
proof -
  have used: "set (book_ids (ab t')) \<subseteq> used" for t' using assms(1) by (simp add: ids_apart_def)
  have apart: "t' = t''" if "j \<in> set (book_ids (ab t'))" "j \<in> set (book_ids (ab t''))" for j t' t''
    using assms(1) that unfolding ids_apart_def by blast
  have new: "j = i \<or> j \<in> set (book_ids (ab t))" if "j \<in> set (book_ids a)" for j
    using assms(3) that by blast
  have "t' = t''" if "j \<in> set (book_ids ((ab(t := a)) t'))" "j \<in> set (book_ids ((ab(t := a)) t''))" for j t' t''
    using that new[of j] apart[of j t' t''] apart[of j t t''] apart[of j t' t] used[of t'] used[of t''] assms(2)
    by (auto split: if_splits)
  moreover have "set (book_ids ((ab(t := a)) t')) \<subseteq> insert i used" for t'
    using used[of t'] used[of t] new by auto
  ultimately show ?thesis unfolding ids_apart_def by blast
qed

lemma follows_order:
  assumes fol: "follows h st" and ack: "acknowledged ev" and side: "is_side (norm_token (ev_action ev))"
    and new: "ev_orderID ev \<notin> hs_ids h" "ev_orderID ev \<noteq> []" and qty: "in_i64 (ev_volume ev)"
    and trades: "mset trades = mset (fst (honest_submit h ev))"
    and fills: "list_all2 (fill_reports (honest_order h ev) (ev_orderID ev)) trades fills"
    and seqs: "map ev_seq (ev # fills) = map (\<lambda>n. hs_seq h + 1 + int n) [0..<Suc (length fills)]"
  shows "\<exists>st'. replay_events rng (ev # fills) st = Inr st' \<and>
    follows ((honest_order h ev)\<lparr>hs_seq := hs_seq h + 1 + int (length fills)\<rparr>) st'"
proof -
  let ?i = "ev_orderID ev" and ?t = "ev_ticker ev" and ?side = "norm_token (ev_action ev)"
  let ?h = "honest_order h ev"
  have seq: "ev_seq ev = hs_seq h + 1"
    "map ev_seq fills = map (\<lambda>n. (hs_seq h + 1) + 1 + int n) [0..<length fills]"
    using seqs by (simp_all add: upt_conv_Cons map_Suc_upt[symmetric] comp_def del: upt_Suc)
  have fol': "books_rel (rs_books st) (hs_books h)" "ids_apart (hs_books h) (hs_ids h)"
    "rs_serverToBot st = hs_names h" "seen_upto (hs_seq h) st" "rs_unknownCount st = 0"
    "\<And>a. rs_expected st a \<noteq> None \<Longrightarrow> a \<in> hs_ids h"
    "\<And>a. gm_get (rs_observed st) a \<noteq> None \<Longrightarrow> rs_expected st a \<noteq> None"
    "\<And>a. a \<in> set (rs_aggOrder st) \<Longrightarrow> order_good st a"
    "0 \<le> rs_totalAttempts st" "rs_totalAttempts st \<le> hs_seq h"
    using fol by (auto simp: follows_def)
  obtain b books where g: "getBook (rs_books st) ?t = (b, books)" by force
  have rel: "book_rel b (hs_books h ?t)" "books_rel books (hs_books h)"
    using getBook_rel[OF fol'(1) g] by auto
  have fresh: "?i \<notin> set (book_ids (hs_books h ?t))"
    using new(1) fol'(2) by (auto simp: ids_apart_def)
  obtain b' where sub: "submit_order b ?i ?side (ev_orderType ev) (toTick (ev_price ev)) (ev_volume ev) =
      Inr (fst (honest_submit h ev), b')" and rel': "book_rel b' (snd (honest_submit h ev))"
    using submit_rel[OF rel(1) side[unfolded is_side_def] qty fresh] unfolding honest_submit_def by blast
  define st1 where "st1 = note_seq (hs_seq h + 1) st"
  define st2 where "st2 = st1\<lparr>rs_totalAttempts := rs_totalAttempts st + 1, rs_serverToBot := hs_names ?h,
      rs_books := gm_put ?t b' books, rs_expected := (rs_expected st)(?i \<mapsto> fst (honest_submit h ev)),
      rs_aggOrder := rs_aggOrder st @ [?i], rs_aggTicker := (rs_aggTicker st)(?i \<mapsto> ?t),
      rs_aggSeq := (rs_aggSeq st)(?i \<mapsto> ev_seq ev)\<rparr>"
  have step: "replay_event rng ev st = Inr st2"
    using replay_event_next(1)[OF fol'(4) seq(1)] ack side g sub
    by (auto simp: acknowledged_def replay_apply_def replay_order_def Let_def is_side_def st1_def[symmetric]
        st2_def honest_order_def fol'(3)[symmetric]) (simp_all add: st1_def)
  have "seen_upto (hs_seq h + 1) st1"
    unfolding st1_def by (rule replay_event_next(2)[OF fol'(4) seq(1)])
  then have seen2: "seen_upto (hs_seq h + 1) st2" by (simp add: st2_def seen_upto_def)
  have obs2: "rs_observed st2 = rs_observed st" by (simp add: st2_def st1_def)
  then have none: "observed_of st2 ?i = []"
    using fol'(6,7)[of ?i] new(1) by (auto simp: observed_of_def split: option.split)
  obtain st3 obs where run: "replay_events rng fills st2 = Inr st3" "only_fills ?i st2 st3"
    "seen_upto (hs_seq h + 1 + int (length fills)) st3" "observed_of st3 ?i = obs" "list_all2 reports trades obs"
    using fills_run[OF fills new(2) _ seen2 seq(2), of rng] none by (auto simp: st2_def)
  note only = run(2)[unfolded only_fills_def]
  have exp3: "rs_expected st3 = (rs_expected st)(?i \<mapsto> fst (honest_submit h ev))"
    and agg3: "rs_aggOrder st3 = rs_aggOrder st @ [?i]"
    using only by (simp_all add: st2_def)
  have obs3: "gm_get (rs_observed st3) a = gm_get (rs_observed st) a" if "a \<noteq> ?i" for a
    using only that obs2 by simp
  have "faithful_report (fst (honest_submit h ev)) obs"
    using list_all2_reorder_left_invariance[OF run(5), of "fst (honest_submit h ev)"] trades
    unfolding faithful_report_def by auto
  moreover have "distinct (map tr_makerBot (fst (honest_submit h ev)))"
    using rel(1) by (simp add: honest_submit_def spec_submit_makers book_rel_def)
  ultimately have good: "order_good st3 ?i" using run(4) exp3 by (simp add: order_good_def)
  have "order_good st3 a" if "a \<in> set (rs_aggOrder st)" for a
  proof -
    have "a \<noteq> ?i" using fol'(6,8)[of a] that new(1) by (auto simp: order_good_def)
    then show ?thesis
      by (rule order_good_keep[OF fol'(8)[OF that]]) (simp_all add: exp3 obs3 \<open>a \<noteq> ?i\<close>)
  qed
  with good have goods: "\<forall>a \<in> set (rs_aggOrder st3). order_good st3 a" by (simp add: agg3)
  have apart: "ids_apart (hs_books ?h) (hs_ids ?h)"
    by (simp add: honest_order_def honest_submit_def)
      (rule ids_apart_submit[OF fol'(2) new(1) spec_submit_ids])
  have "follows (?h\<lparr>hs_seq := hs_seq h + 1 + int (length fills)\<rparr>) st3"
  proof -
    have "rs_expected st3 a \<noteq> None \<longrightarrow> a \<in> hs_ids ?h" for a
      using fol'(6)[of a] by (auto simp: exp3 honest_order_def)
    moreover have "gm_get (rs_observed st3) a \<noteq> None \<longrightarrow> rs_expected st3 a \<noteq> None" for a
      using fol'(7)[of a] obs3[of a] by (cases "a = ?i") (auto simp: exp3)
    moreover have "books_rel (rs_books st3) (hs_books ?h)"
      using only books_rel_put[OF rel(2) rel'] by (simp add: st2_def honest_order_def)
    moreover have "rs_serverToBot st3 = hs_names ?h" "rs_unknownCount st3 = 0"
      "rs_totalAttempts st3 = rs_totalAttempts st + 1"
      using only fol'(5) by (simp_all add: st2_def st1_def)
    ultimately show ?thesis
      using apart goods run(3) fol'(9,10) by (simp add: follows_def seen_upto_def)
  qed
  with step run(1) show ?thesis by auto
qed

text \<open>The other events.\<close>

lemma books_rel_cancel:
  assumes rel: "books_rel books ab" and apart: "ids_apart ab used" and rng: "range_ok r"
  shows "books_rel (cancel_books (r (gm_keys books)) i books) (\<lambda>t. spec_cancel (ab t) i)"
proof -
  have brel: "book_rel b (ab t)" if "gm_get books t = Some b" for t b
    using rel that by (simp add: books_rel_def)
  have "k = k'" if "gm_get books k = Some b" "gm_get books k' = Some b'"
      "fst (cancel_order b i)" "fst (cancel_order b' i)" for k k' b b'
    using cancel_rel[OF brel[OF that(1)], of i] cancel_rel[OF brel[OF that(2)], of i] that(3,4) apart
    unfolding ids_apart_def by blast
  note get = cancel_books_get[of books i "r (gm_keys books)", OF this]
  have "t \<in> set (r (gm_keys books)) \<longleftrightarrow> gm_get books t \<noteq> None" for t
    unfolding range_ok_set[OF rng] gm_get_None_iff by simp
  with get have get': "gm_get (cancel_books (r (gm_keys books)) i books) t =
      map_option (\<lambda>b. snd (cancel_order b i)) (gm_get books t)" for t
    by (cases "gm_get books t") auto
  show ?thesis
    using rel cancel_rel unfolding books_rel_def get'
    by (auto simp: spec_cancel_def empty_abs_def)
qed

lemma ids_apart_cancel: "ids_apart ab used \<Longrightarrow> ids_apart (\<lambda>t. spec_cancel (ab t) i) used"
  by (auto simp: ids_apart_def book_ids_cancel)

lemma follows_note:
  assumes "follows h st" and "seen_upto (hs_seq h + 1) st'"
    and "books_rel (rs_books st') (hs_books h')" "ids_apart (hs_books h') (hs_ids h)"
    and "rs_serverToBot st' = rs_serverToBot st" "rs_unknownCount st' = rs_unknownCount st"
      "rs_expected st' = rs_expected st" "rs_observed st' = rs_observed st" "rs_aggOrder st' = rs_aggOrder st"
      "rs_totalAttempts st \<le> rs_totalAttempts st'" "rs_totalAttempts st' \<le> rs_totalAttempts st + 1"
    and "hs_ids h' = hs_ids h" "hs_names h' = hs_names h"
  shows "follows (h'\<lparr>hs_seq := hs_seq h + 1\<rparr>) st'"
proof -
  have "order_good st' a" if "order_good st a" for a
    using that assms(7,8) by (simp add: order_good_def observed_of_def)
  with assms show ?thesis by (auto simp: follows_def)
qed

lemma follows_cancel:
  assumes fol: "follows h st" and ack: "acknowledged ev" and act: "norm_token (ev_action ev) = ''CANCEL''"
    and seq: "ev_seq ev = hs_seq h + 1" and rng: "ranges_ok rng"
  shows "\<exists>st'. replay_event rng ev st = Inr st' \<and> follows ((honest_cancel h ev)\<lparr>hs_seq := hs_seq h + 1\<rparr>) st'"
proof -
  let ?st1 = "note_seq (hs_seq h + 1) st"
  have base: "books_rel (rs_books st) (hs_books h)" "ids_apart (hs_books h) (hs_ids h)"
    "rs_serverToBot st = hs_names h" "seen_upto (hs_seq h) st"
    using fol by (auto simp: follows_def)
  have run: "replay_event rng ev st = Inr (replay_cancel rng ev ?st1)"
    using replay_event_next(1)[OF base(4) seq] ack act
    by (auto simp: acknowledged_def replay_apply_def)
  have seen: "seen_upto (hs_seq h + 1) ?st1" by (rule replay_event_next(2)[OF base(4) seq])
  have keep: "seen_upto (hs_seq h + 1) (replay_cancel rng ev ?st1)"
      "rs_serverToBot (replay_cancel rng ev ?st1) = rs_serverToBot st"
      "rs_unknownCount (replay_cancel rng ev ?st1) = rs_unknownCount st"
      "rs_expected (replay_cancel rng ev ?st1) = rs_expected st"
      "rs_observed (replay_cancel rng ev ?st1) = rs_observed st"
      "rs_aggOrder (replay_cancel rng ev ?st1) = rs_aggOrder st"
      "rs_totalAttempts st \<le> rs_totalAttempts (replay_cancel rng ev ?st1)"
      "rs_totalAttempts (replay_cancel rng ev ?st1) \<le> rs_totalAttempts st + 1"
    using seen by (auto simp: replay_cancel_def Let_def seen_upto_def split: option.split)
  have names: "hs_ids (honest_cancel h ev) = hs_ids h" "hs_names (honest_cancel h ev) = hs_names h"
    by (auto simp: honest_cancel_def split: option.split)
  have "books_rel (rs_books (replay_cancel rng ev ?st1)) (hs_books (honest_cancel h ev)) \<and>
      ids_apart (hs_books (honest_cancel h ev)) (hs_ids h)"
    using base rng books_rel_cancel[OF base(1,2)] ids_apart_cancel[OF base(2)]
    by (auto simp: replay_cancel_def honest_cancel_def ranges_ok_def split: option.split)
  then have "follows ((honest_cancel h ev)\<lparr>hs_seq := hs_seq h + 1\<rparr>) (replay_cancel rng ev ?st1)"
    using follows_note[OF fol keep(1) _ _ keep(2-8) names] by blast
  with run show ?thesis by blast
qed

lemma follows_rejected:
  assumes fol: "follows h st" and ev: "\<not> ev_endOfRun ev" "norm_token (ev_outcome ev) = ''REJECTED''"
    and seq: "ev_seq ev = hs_seq h + 1"
  shows "\<exists>st'. replay_event rng ev st = Inr st' \<and> follows (h\<lparr>hs_seq := hs_seq h + 1\<rparr>) st'"
proof -
  let ?st1 = "note_seq (hs_seq h + 1) st"
  have base: "books_rel (rs_books st) (hs_books h)" "ids_apart (hs_books h) (hs_ids h)" "seen_upto (hs_seq h) st"
    using fol by (auto simp: follows_def)
  let ?st' = "?st1\<lparr>rs_totalAttempts := rs_totalAttempts st + 1\<rparr>"
  have "replay_event rng ev st = Inr ?st'"
    using replay_event_next(1)[OF base(3) seq] ev by (simp add: replay_apply_def)
  moreover have "follows (h\<lparr>hs_seq := hs_seq h + 1\<rparr>) ?st'"
    using replay_event_next(2)[OF base(3) seq] base
    by (intro follows_note[OF fol]) (simp_all add: seen_upto_def)
  ultimately show ?thesis by blast
qed

lemma follows_finish:
  assumes fol: "follows h st" and ev: "ev_endOfRun ev" and seq: "ev_seq ev = hs_seq h + 1"
  shows "\<exists>st'. replay_event rng ev st = Inr st' \<and> follows (h\<lparr>hs_seq := hs_seq h + 1\<rparr>) st'"
proof -
  have base: "books_rel (rs_books st) (hs_books h)" "ids_apart (hs_books h) (hs_ids h)" "seen_upto (hs_seq h) st"
    using fol by (auto simp: follows_def)
  have "replay_event rng ev st = Inr (note_seq (hs_seq h + 1) st)"
    using replay_event_next(1)[OF base(3) seq] ev by simp
  moreover have "follows (h\<lparr>hs_seq := hs_seq h + 1\<rparr>) (note_seq (hs_seq h + 1) st)"
    using replay_event_next(2)[OF base(3) seq] base
    by (intro follows_note[OF fol]) simp_all
  ultimately show ?thesis by blast
qed

lemma honest_follows:
  assumes "honest h evs" and "ranges_ok rng"
  shows "\<exists>st. replay_events rng evs replay_init = Inr st \<and> follows h st"
  using assms(1)
proof (induction rule: honest.induct)
  case init
  show ?case using follows_init by simp
next
  case (order h evs ev trades fills)
  then obtain st where st: "replay_events rng evs replay_init = Inr st" "follows h st" by blast
  with follows_order[OF st(2) order.hyps(2-9), of rng] show ?case by (simp add: replay_events_append)
next
  case (cancel h evs ev)
  then obtain st where st: "replay_events rng evs replay_init = Inr st" "follows h st" by blast
  with follows_cancel[OF st(2) cancel.hyps(2-4) assms(2)] show ?case by (auto simp: replay_events_append)
next
  case (rejected h evs ev)
  then obtain st where st: "replay_events rng evs replay_init = Inr st" "follows h st" by blast
  with follows_rejected[OF st(2) rejected.hyps(2-4), of rng] show ?case by (auto simp: replay_events_append)
next
  case (finish h evs ev)
  then obtain st where st: "replay_events rng evs replay_init = Inr st" "follows h st" by blast
  with follows_finish[OF st(2) finish.hyps(2,3), of rng] show ?case by (auto simp: replay_events_append)
qed

section \<open>Soundness\<close>

lemma follows_decides:
  assumes fol: "follows h st" and rng: "ranges_ok rng" and small: "hs_seq h < 2 ^ 50"
  shows "replay_decide st (diff_all rng st) = (VerdictCorrect, [])"
proof -
  have "order_verdict st a = VerdictCorrect" if "order_good st a" for a
    using that faithful_known faithful_agrees by (fastforce simp: order_good_def order_verdict_def)
  then have clean: "ds_hardIncorrect (diff_all rng st) = []" "ds_taintedMismatch (diff_all rng st) = 0"
      "ds_unverifiableFills (diff_all rng st) = 0"
    using fol diff_all_clean[OF rng, of st] by (auto simp: follows_def)
  have "\<forall>a \<in> set (gm_keys (rs_observed st)). rs_expected st a \<noteq> None"
    using fol gm_get_None_iff[of "rs_observed st"] by (metis follows_def)
  then have orphan: "orphan_count st = 0" by (simp add: orphan_count_def filter_empty_conv)
  have "\<not> has_gap st" using fol by (simp add: follows_def seen_upto_def has_gap_def)
  with clean orphan fol have zero: "unverifiable_count st (diff_all rng st) = 0"
    by (simp add: unverifiable_count_def gap_count_def follows_def)
  show ?thesis
  proof (cases "rs_totalAttempts st = 0")
    case True
    with clean zero show ?thesis by (simp add: replay_decide_def)
  next
    case False
    then have "\<not> f64_less unhealthyThreshold (frac_of 0 (rs_totalAttempts st))"
      "\<not> f64_le unknownTolerance (frac_of 0 (rs_totalAttempts st))"
      using thresholds_decide[of 0 "rs_totalAttempts st"] fol small by (auto simp: follows_def)
    with False clean zero orphan show ?thesis by (simp add: replay_decide_def Let_def)
  qed
qed

lemma honest_identifies:
  assumes "honest h evs"
  shows "seq_identifies (set evs)" and "sorted (map ev_seq evs)"
proof -
  have seqs: "map ev_seq evs = map (\<lambda>n. 1 + int n) [0..<length evs]" using honest_seqs[OF assms] by simp
  have "distinct (map ev_seq evs)" unfolding seqs by (simp add: distinct_map inj_on_def)
  moreover have "ev_seq ` set evs \<subseteq> {s. 0 < s}" unfolding set_map[symmetric] seqs by auto
  ultimately show "seq_identifies (set evs)" by (auto simp: seq_identifies_def distinct_map)
  show "sorted (map ev_seq evs)" unfolding seqs by (simp add: sorted_wrt_map sorted_wrt_iff_nth_less)
qed

lemma honest_passes_rel:
  assumes "honest h evs" and "set delivered = set evs" and "ranges_ok rng" and "length evs < 2 ^ 50"
  shows "Replay rng delivered = Inr (VerdictCorrect, [])"
proof -
  obtain st where st: "replay_events rng evs replay_init = Inr st" "follows h st"
    using honest_follows[OF assms(1,3)] by blast
  have "int (length evs) < int (2 ^ 50)" using assms(4) by linarith
  then have "hs_seq h < 2 ^ 50" using honest_seqs[OF assms(1)] by simp
  then have "Replay rng evs = Inr (VerdictCorrect, [])"
    using follows_decides[OF st(2) assms(3)] st(1) honest_identifies(2)[OF assms(1)]
    by (simp add: Replay_def sort_key_id_if_sorted)
  with Replay_same_events[of delivered evs rng] assms(2) honest_identifies(1)[OF assms(1)]
  show ?thesis by simp
qed


text \<open>The sample stream is honest, whatever its fill says of the order id.\<close>

lemma sample_honest_fill:
  "\<exists>h. honest h [sample_stream ! 0, sample_stream ! 1,
     (sample_stream ! 2)\<lparr>ev_orderID := a, ev_contestantOrderID := c\<rparr>, sample_stream ! 3]"
proof -
  let ?e1 = "sample_stream ! 0" and ?e2 = "sample_stream ! 1" and ?e = "sample_stream ! 3"
  let ?f = "(sample_stream ! 2)\<lparr>ev_orderID := a, ev_contestantOrderID := c\<rparr>"
  note ev = sample_stream_def zero_event_def
  have sub1: "honest_submit honest_init ?e1 =
      ([], \<lparr>ab_bids = [], ab_asks = [\<lparr>ao_id = ''a1'', ao_price = 10000, ao_qty = 5\<rparr>]\<rparr>)"
    by (simp add: ev honest_submit_def honest_init_def empty_abs_def spec_submit_def opposing_def
        spec_rests_def toTick_price)
  let ?h1 = "(honest_order honest_init ?e1)\<lparr>hs_seq := 1\<rparr>"
  have "honest ((honest_order honest_init ?e1)\<lparr>hs_seq := hs_seq honest_init + 1 + int (length ([] :: order_event list))\<rparr>)
      ([] @ ?e1 # [])"
    by (rule honest.order[OF honest.init, of _ "[]"])
      (simp_all add: sub1, simp_all add: ev acknowledged_def is_side_def honest_init_def in_i64_def)
  then have h1: "honest ?h1 ([] @ ?e1 # [])" by (simp add: honest_init_def)
  have sub2: "honest_submit ?h1 ?e2 =
      ([\<lparr>tr_makerBot = ''a1'', tr_qty = 5, tr_makerPrice = 10000, tr_aggLimit = 10100, tr_aggMarket = False\<rparr>],
       \<lparr>ab_bids = [], ab_asks = []\<rparr>)"
    using sub1
    by (simp add: honest_submit_def honest_order_def)
      (simp add: ev honest_init_def spec_submit_def opposing_def spec_rests_def toTick_price opp_key_simps
        spec_fill.simps Let_def accepts_def spec_band_def spec_trade_def)
  let ?h2 = "(honest_order ?h1 ?e2)\<lparr>hs_seq := hs_seq ?h1 + 1 + int (length [?f])\<rparr>"
  have "honest ?h2 (([] @ ?e1 # []) @ ?e2 # [?f])"
  proof (rule honest.order[OF h1])
    show "mset (fst (honest_submit ?h1 ?e2)) = mset (fst (honest_submit ?h1 ?e2))" by simp
    show "list_all2 (fill_reports (honest_order ?h1 ?e2) (ev_orderID ?e2)) (fst (honest_submit ?h1 ?e2)) [?f]"
      unfolding sub2
      by (simp add: ev honest_order_def fill_reports_def acknowledged_def toTick_price)
  qed (simp_all add: ev acknowledged_def is_side_def honest_init_def in_i64_def honest_order_def)
  then have "honest (?h2\<lparr>hs_seq := hs_seq ?h2 + 1\<rparr>) ((([] @ ?e1 # []) @ ?e2 # [?f]) @ [?e])"
    by (rule honest.finish) (simp_all add: ev honest_init_def honest_order_def)
  then show ?thesis by auto
qed

lemma sample_honest: "\<exists>h. honest h sample_stream"
proof -
  have "[sample_stream ! 0, sample_stream ! 1, (sample_stream ! 2)\<lparr>ev_orderID := [], ev_contestantOrderID := 0\<rparr>,
      sample_stream ! 3] = sample_stream"
    by (simp add: sample_stream_def zero_event_def)
  then show ?thesis using sample_honest_fill[where a = "[]" and c = 0] by metis
qed


end
