(* ===== verification/Engine.thy ===== *)
theory Engine
  imports ReplaySound "HOL-Library.List_Lexorder" "HOL-Library.Char_ord"
begin

text \<open>
  The replay engine around \<open>Replay\<close>: \<open>New\<close>, \<open>Run\<close>, \<open>dispatch\<close>, \<open>flushAll\<close>, \<open>takeEvents\<close> and
  \<open>finalize\<close> of \<open>replayengine/engine.go\<close>. The Run goroutine and the workers it starts are a step
  relation on one state: a step is one action of one goroutine, so the interleavings of the program
  are the sequences of steps.
\<close>

section \<open>Finalizing a submission\<close>

definition finalize :: "(nat \<Rightarrow> range_order) \<Rightarrow> string \<Rightarrow> order_event list \<Rightarrow> go_panic + correctness_update" where
  "finalize rng submissionID events =
     (if \<not> (\<exists>ev \<in> set events. ev_endOfRun ev)
      then Inr \<lparr>cu_submissionID = submissionID, cu_verdict = VerdictUnverified,
                cu_reason = ''run did not complete: end-of-run marker never received''\<rparr>
      else (case Replay rng events of
              Inl e \<Rightarrow> Inl e
            | Inr (v, reason) \<Rightarrow>
                Inr \<lparr>cu_submissionID = submissionID, cu_verdict = v, cu_reason = reason\<rparr>))"

section \<open>The state\<close>

text \<open>
  The Run goroutine receives, or flushes what is left after its input closed (the ids still to do), or
  has returned and waits for the workers, or has closed the channel of updates. A worker waits for the
  semaphore or holds it. The channel is the sequence of the updates sent on it.
\<close>

datatype engine_phase = Receiving | Flushing "string list" | Waiting | Closed

record engine =
  en_buffers :: "(string, order_event list) gomap"
  en_finalized :: "string set"
  en_waiting :: "(string \<times> order_event list) list"
  en_holding :: "(string \<times> order_event list) list"
  en_updates :: "correctness_update list"
  en_ctxDone :: bool
  en_phase :: engine_phase

definition engine_workers :: "int \<Rightarrow> nat" where
  "engine_workers gomaxprocs = (if gomaxprocs < 1 then 1 else nat gomaxprocs)"

definition New_engine :: engine where
  "New_engine = \<lparr>en_buffers = [], en_finalized = {}, en_waiting = [], en_holding = [],
     en_updates = [], en_ctxDone = False, en_phase = Receiving\<rparr>"

definition takeEvents :: "string \<Rightarrow> engine \<Rightarrow> order_event list \<times> engine" where
  "takeEvents submissionID e =
     ((case gm_get (en_buffers e) submissionID of None \<Rightarrow> [] | Some evs \<Rightarrow> evs),
      e\<lparr>en_buffers := gm_del submissionID (en_buffers e),
        en_finalized := insert submissionID (en_finalized e)\<rparr>)"

definition dispatch :: "string \<Rightarrow> order_event list \<Rightarrow> engine \<Rightarrow> engine" where
  "dispatch submissionID events e = e\<lparr>en_waiting := en_waiting e @ [(submissionID, events)]\<rparr>"

text \<open>The body of the loop of \<open>Run\<close> for one received event.\<close>

definition engine_receive :: "order_event \<Rightarrow> engine \<Rightarrow> engine" where
  "engine_receive event e =
     (let sid = ev_submissionID event in
      if sid = [] then e
      else if sid \<in> en_finalized e then e
      else
        (let old = (case gm_get (en_buffers e) sid of None \<Rightarrow> [] | Some evs \<Rightarrow> evs);
             e' = e\<lparr>en_buffers := gm_put sid (old @ [event]) (en_buffers e)\<rparr>
         in if ev_endOfRun event
            then (let (events, e'') = takeEvents sid e' in dispatch sid events e'')
            else e'))"

section \<open>Steps\<close>

inductive engine_step :: "nat \<Rightarrow> engine \<Rightarrow> order_event option \<Rightarrow> engine \<Rightarrow> bool" for workers :: nat where
  receive: "en_phase e = Receiving \<Longrightarrow> engine_step workers e (Some event) (engine_receive event e)"
| run_cancelled: "en_phase e = Receiving \<Longrightarrow> en_ctxDone e \<Longrightarrow> engine_step workers e None (e\<lparr>en_phase := Waiting\<rparr>)"
| input_closed: "en_phase e = Receiving \<Longrightarrow>
    engine_step workers e None (e\<lparr>en_phase := Flushing (sort (gm_keys (en_buffers e)))\<rparr>)"
| flush_send: "en_phase e = Flushing (sid # ids) \<Longrightarrow> takeEvents sid e = (events, e') \<Longrightarrow> ranges_ok rng \<Longrightarrow>
    finalize rng sid events = Inr u \<Longrightarrow>
    engine_step workers e None (e'\<lparr>en_updates := en_updates e @ [u], en_phase := Flushing ids\<rparr>)"
| flush_cancelled: "en_phase e = Flushing (sid # ids) \<Longrightarrow> en_ctxDone e \<Longrightarrow> takeEvents sid e = (events, e') \<Longrightarrow>
    engine_step workers e None (e'\<lparr>en_phase := Waiting\<rparr>)"
| flush_done: "en_phase e = Flushing [] \<Longrightarrow> engine_step workers e None (e\<lparr>en_phase := Waiting\<rparr>)"
| worker_acquire: "en_waiting e = xs @ job # ys \<Longrightarrow> length (en_holding e) < workers \<Longrightarrow>
    engine_step workers e None (e\<lparr>en_waiting := xs @ ys, en_holding := en_holding e @ [job]\<rparr>)"
| worker_gives_up: "en_waiting e = xs @ job # ys \<Longrightarrow> en_ctxDone e \<Longrightarrow>
    engine_step workers e None (e\<lparr>en_waiting := xs @ ys\<rparr>)"
| worker_sends: "en_holding e = xs @ (sid, events) # ys \<Longrightarrow> ranges_ok rng \<Longrightarrow>
    finalize rng sid events = Inr u \<Longrightarrow>
    engine_step workers e None (e\<lparr>en_holding := xs @ ys, en_updates := en_updates e @ [u]\<rparr>)"
| worker_cancelled: "en_holding e = xs @ job # ys \<Longrightarrow> en_ctxDone e \<Longrightarrow>
    engine_step workers e None (e\<lparr>en_holding := xs @ ys\<rparr>)"
| cancel_ctx: "engine_step workers e None (e\<lparr>en_ctxDone := True\<rparr>)"
| close_updates: "en_phase e = Waiting \<Longrightarrow> en_waiting e = [] \<Longrightarrow> en_holding e = [] \<Longrightarrow>
    engine_step workers e None (e\<lparr>en_phase := Closed\<rparr>)"

text \<open>The states that a run can reach, with the events it has received.\<close>

inductive engine_run :: "nat \<Rightarrow> order_event list \<Rightarrow> engine \<Rightarrow> bool" for workers :: nat where
  start: "engine_run workers [] New_engine"
| step: "engine_run workers evs e \<Longrightarrow> engine_step workers e ev e' \<Longrightarrow>
    engine_run workers (evs @ (case ev of None \<Rightarrow> [] | Some x \<Rightarrow> [x])) e'"

section \<open>The single-owner invariant\<close>

text \<open>
  Every submission is in at most one place: buffered, with a worker, or decided; a submission leaves the
  buffers for good; the buffers never hold an end-of-run marker; and the workers are bounded.
\<close>

definition owned_ids :: "engine \<Rightarrow> string list" where
  "owned_ids e = map fst (en_waiting e) @ map fst (en_holding e) @ map cu_submissionID (en_updates e)"

definition engine_inv :: "nat \<Rightarrow> engine \<Rightarrow> bool" where
  "engine_inv workers e \<longleftrightarrow>
     gm_wf (en_buffers e) \<and> distinct (owned_ids e) \<and> set (owned_ids e) \<subseteq> en_finalized e \<and>
     set (gm_keys (en_buffers e)) \<inter> en_finalized e = {} \<and>
     (\<forall>sid evs. gm_get (en_buffers e) sid = Some evs \<longrightarrow> (\<forall>ev \<in> set evs. \<not> ev_endOfRun ev)) \<and>
     length (en_holding e) \<le> workers \<and>
     (\<forall>ids. en_phase e = Flushing ids \<longrightarrow> distinct ids \<and> set ids \<inter> en_finalized e = {}) \<and>
     (en_phase e = Closed \<longrightarrow> en_waiting e = [] \<and> en_holding e = [])"

lemma finalize_id: "finalize rng sid evs = Inr u \<Longrightarrow> cu_submissionID u = sid"
  by (auto simp: finalize_def split: if_splits sum.splits prod.splits)

lemma engine_inv_New: "engine_inv workers New_engine"
  by (simp add: engine_inv_def New_engine_def owned_ids_def)

lemma gm_keys_del_set: "set (gm_keys (gm_del k m)) = set (gm_keys m) - {k}"
  by (simp only: gm_keys_del) auto

lemma gm_keys_put_set: "set (gm_keys (gm_put k v m)) = insert k (set (gm_keys m))"
  by (auto simp only: gm_keys_put split: if_splits) (auto simp del: set_map)

lemma engine_inv_receive:
  assumes "engine_inv workers e" and "en_phase e = Receiving"
  shows "engine_inv workers (engine_receive ev e)"
proof (cases "ev_submissionID ev = [] \<or> ev_submissionID ev \<in> en_finalized e")
  case True
  with assms show ?thesis by (auto simp: engine_receive_def Let_def)
next
  case False
  let ?sid = "ev_submissionID ev"
  have new: "?sid \<notin> set (owned_ids e)" using assms(1) False by (auto simp: engine_inv_def)
  have inv: "gm_wf (en_buffers e)" "distinct (owned_ids e)" "set (owned_ids e) \<subseteq> en_finalized e"
    "set (gm_keys (en_buffers e)) \<inter> en_finalized e = {}"
    "\<And>sid evs. gm_get (en_buffers e) sid = Some evs \<Longrightarrow> \<forall>ev \<in> set evs. \<not> ev_endOfRun ev"
    "length (en_holding e) \<le> workers"
    using assms(1) by (auto simp: engine_inv_def)
  have old: "\<forall>ev \<in> set (case gm_get (en_buffers e) ?sid of None \<Rightarrow> [] | Some evs \<Rightarrow> evs). \<not> ev_endOfRun ev"
    using inv(5)[of ?sid] by (cases "gm_get (en_buffers e) ?sid") simp_all
  show ?thesis
  proof (cases "ev_endOfRun ev")
    case True
    then have r: "engine_receive ev e = e\<lparr>en_buffers := gm_del ?sid (gm_put ?sid
          ((case gm_get (en_buffers e) ?sid of None \<Rightarrow> [] | Some evs \<Rightarrow> evs) @ [ev]) (en_buffers e)),
        en_finalized := insert ?sid (en_finalized e),
        en_waiting := en_waiting e @ [(?sid, (case gm_get (en_buffers e) ?sid of None \<Rightarrow> [] | Some evs \<Rightarrow> evs) @ [ev])]\<rparr>"
      using False by (simp add: engine_receive_def takeEvents_def dispatch_def Let_def)
    show ?thesis
      unfolding r engine_inv_def
      using inv new assms(2) by (auto simp: owned_ids_def gm_keys_del_set gm_keys_put_set split: if_splits simp del: set_map)
  next
    case no: False
    then have r: "engine_receive ev e = e\<lparr>en_buffers := gm_put ?sid
        ((case gm_get (en_buffers e) ?sid of None \<Rightarrow> [] | Some evs \<Rightarrow> evs) @ [ev]) (en_buffers e)\<rparr>"
      using False by (simp add: engine_receive_def Let_def)
    show ?thesis
      unfolding r engine_inv_def
      using inv(1-4,6) inv(5) old no False assms(2)
      by (auto simp: owned_ids_def gm_keys_put_set split: if_splits simp del: set_map)
  qed
qed

lemma engine_inv_flush:
  assumes "engine_inv workers e" and "en_phase e = Flushing (sid # ids)" and "takeEvents sid e = (events, e')"
    and "cu_submissionID u = sid"
  shows "engine_inv workers (e'\<lparr>en_updates := en_updates e @ [u], en_phase := Flushing ids\<rparr>)"
    and "engine_inv workers (e'\<lparr>en_phase := Waiting\<rparr>)"
proof -
  have e': "e' = e\<lparr>en_buffers := gm_del sid (en_buffers e), en_finalized := insert sid (en_finalized e)\<rparr>"
    using assms(3) by (simp add: takeEvents_def)
  have sid: "sid \<notin> en_finalized e" "sid \<notin> set ids" "distinct ids" "set ids \<inter> en_finalized e = {}"
    using assms(1,2) by (auto simp: engine_inv_def)
  have inv: "gm_wf (en_buffers e)" "distinct (owned_ids e)" "set (owned_ids e) \<subseteq> en_finalized e"
    "set (gm_keys (en_buffers e)) \<inter> en_finalized e = {}"
    "\<And>sid evs. gm_get (en_buffers e) sid = Some evs \<Longrightarrow> \<forall>ev \<in> set evs. \<not> ev_endOfRun ev"
    "length (en_holding e) \<le> workers"
    using assms(1) by (auto simp: engine_inv_def)
  show "engine_inv workers (e'\<lparr>en_updates := en_updates e @ [u], en_phase := Flushing ids\<rparr>)"
    unfolding engine_inv_def e'
    using inv sid assms(4) by (auto simp: owned_ids_def gm_keys_del_set split: if_splits simp del: set_map)
  show "engine_inv workers (e'\<lparr>en_phase := Waiting\<rparr>)"
    unfolding engine_inv_def e'
    using inv by (auto simp: owned_ids_def gm_keys_del_set split: if_splits simp del: set_map)
qed

lemma engine_inv_step [inv_intro]:
  assumes "engine_inv workers e" and "engine_step workers e lbl e'"
  shows "engine_inv workers e'"
  using assms(2)
proof (cases rule: engine_step.cases)
  case (receive event)
  with assms(1) engine_inv_receive show ?thesis by blast
next
  case run_cancelled
  with assms(1) show ?thesis by (simp add: engine_inv_def owned_ids_def)
next
  case input_closed
  with assms(1) show ?thesis by (auto simp: engine_inv_def owned_ids_def gm_wf_def simp del: set_map)
next
  case (flush_send sid ids events e'' rng u)
  with engine_inv_flush(1)[OF assms(1)] finalize_id show ?thesis by blast
next
  case (flush_cancelled sid ids events e'')
  with engine_inv_flush(2)[OF assms(1), of sid ids events e'' "\<lparr>cu_submissionID = sid,
      cu_verdict = VerdictZero, cu_reason = []\<rparr>"] show ?thesis by simp
next
  case flush_done
  with assms(1) show ?thesis by (simp add: engine_inv_def owned_ids_def)
next
  case (worker_acquire xs job ys)
  with assms(1) show ?thesis by (auto simp: engine_inv_def owned_ids_def)
next
  case (worker_gives_up xs job ys)
  with assms(1) show ?thesis by (auto simp: engine_inv_def owned_ids_def)
next
  case (worker_sends xs sid events ys rng u)
  with assms(1) finalize_id[of rng sid events u] show ?thesis by (auto simp: engine_inv_def owned_ids_def)
next
  case (worker_cancelled xs job ys)
  with assms(1) show ?thesis by (auto simp: engine_inv_def owned_ids_def)
next
  case cancel_ctx
  with assms(1) show ?thesis by (simp add: engine_inv_def owned_ids_def)
next
  case close_updates
  with assms(1) show ?thesis by (simp add: engine_inv_def owned_ids_def)
qed

lemma engine_run_inv: "engine_run workers evs e \<Longrightarrow> engine_inv workers e"
  by (induction rule: engine_run.induct) (auto intro: engine_inv_New engine_inv_step)

section \<open>What the verdicts are about\<close>

fun upto_end :: "order_event list \<Rightarrow> order_event list" where
  "upto_end [] = []"
| "upto_end (ev # evs) = (if ev_endOfRun ev then [ev] else ev # upto_end evs)"

definition events_of :: "string \<Rightarrow> order_event list \<Rightarrow> order_event list" where
  "events_of sid evs = upto_end (filter (\<lambda>ev. ev_submissionID ev = sid) evs)"

lemma upto_end_snoc:
  "upto_end (evs @ [ev]) = (if \<exists>x \<in> set evs. ev_endOfRun x then upto_end evs else evs @ [ev])"
  by (induction evs) auto

lemma upto_end_id: "\<forall>x \<in> set evs. \<not> ev_endOfRun x \<Longrightarrow> upto_end evs = evs"
  by (induction evs) auto

lemma upto_end_has: "(\<exists>x \<in> set (upto_end evs). ev_endOfRun x) \<longleftrightarrow> (\<exists>x \<in> set evs. ev_endOfRun x)"
  by (induction evs) auto

lemma events_of_snoc:
  "events_of sid (evs @ [ev]) =
     (if ev_submissionID ev \<noteq> sid \<or> (\<exists>x \<in> set (events_of sid evs). ev_endOfRun x) then events_of sid evs
      else events_of sid evs @ [ev])"
  by (auto simp: events_of_def upto_end_snoc upto_end_has upto_end_id)

text \<open>
  The buffers hold all events of the undecided submissions, and every job and every update is about all
  events of its submission up to its first marker.
\<close>

definition buffered :: "engine \<Rightarrow> string \<Rightarrow> order_event list" where
  "buffered e sid = (case gm_get (en_buffers e) sid of None \<Rightarrow> [] | Some evs \<Rightarrow> evs)"

definition engine_knows :: "order_event list \<Rightarrow> engine \<Rightarrow> bool" where
  "engine_knows evs e \<longleftrightarrow>
     (\<forall>sid. sid \<noteq> [] \<longrightarrow> sid \<notin> en_finalized e \<longrightarrow> buffered e sid = events_of sid evs) \<and>
     (\<forall>sid es. (sid, es) \<in> set (en_waiting e) \<union> set (en_holding e) \<longrightarrow>
        es = events_of sid evs \<and> (\<exists>ev \<in> set es. ev_endOfRun ev)) \<and>
     (\<forall>u \<in> set (en_updates e). \<exists>rng. ranges_ok rng \<and>
        finalize rng (cu_submissionID u) (events_of (cu_submissionID u) evs) = Inr u) \<and>
     (en_phase e = Receiving \<longrightarrow>
        (\<forall>u \<in> set (en_updates e). \<exists>ev \<in> set (events_of (cu_submissionID u) evs). ev_endOfRun ev)) \<and>
     [] \<notin> set (gm_keys (en_buffers e)) \<and> (\<forall>ids. en_phase e = Flushing ids \<longrightarrow> [] \<notin> set ids)"

lemma events_of_stable:
  "\<exists>x \<in> set (events_of sid evs). ev_endOfRun x \<Longrightarrow> events_of sid (evs @ [ev]) = events_of sid evs"
  by (simp add: events_of_snoc)

lemma engine_receive_cases [case_names skip buffer finish]:
  assumes "engine_inv workers e"
  obtains
    "ev_submissionID ev = [] \<or> ev_submissionID ev \<in> en_finalized e" "engine_receive ev e = e"
  | "ev_submissionID ev \<noteq> []" "ev_submissionID ev \<notin> en_finalized e" "\<not> ev_endOfRun ev"
    "engine_receive ev e = e\<lparr>en_buffers := gm_put (ev_submissionID ev) (buffered e (ev_submissionID ev) @ [ev]) (en_buffers e)\<rparr>"
  | "ev_submissionID ev \<noteq> []" "ev_submissionID ev \<notin> en_finalized e" "ev_endOfRun ev"
    "engine_receive ev e = e\<lparr>en_buffers := gm_del (ev_submissionID ev)
        (gm_put (ev_submissionID ev) (buffered e (ev_submissionID ev) @ [ev]) (en_buffers e)),
      en_finalized := insert (ev_submissionID ev) (en_finalized e),
      en_waiting := en_waiting e @ [(ev_submissionID ev, buffered e (ev_submissionID ev) @ [ev])]\<rparr>"
  by (cases "ev_submissionID ev = [] \<or> ev_submissionID ev \<in> en_finalized e"; cases "ev_endOfRun ev")
    (auto simp: engine_receive_def takeEvents_def dispatch_def Let_def buffered_def)

lemma buffered_no_end:
  assumes "engine_inv workers e"
  shows "\<forall>ev \<in> set (buffered e sid). \<not> ev_endOfRun ev"
  using assms by (cases "gm_get (en_buffers e) sid") (auto simp: engine_inv_def buffered_def)

lemma knows_receive:
  assumes inv: "engine_inv workers e" and knows: "engine_knows evs e" and phase: "en_phase e = Receiving"
  shows "engine_knows (evs @ [ev]) (engine_receive ev e)"
proof -
  let ?sid = "ev_submissionID ev"
  have k: "\<And>sid. sid \<noteq> [] \<Longrightarrow> sid \<notin> en_finalized e \<Longrightarrow> buffered e sid = events_of sid evs"
    "\<And>sid es. (sid, es) \<in> set (en_waiting e) \<union> set (en_holding e) \<Longrightarrow> es = events_of sid evs \<and> (\<exists>ev \<in> set es. ev_endOfRun ev)"
    "\<And>u. u \<in> set (en_updates e) \<Longrightarrow> \<exists>rng. ranges_ok rng \<and> finalize rng (cu_submissionID u) (events_of (cu_submissionID u) evs) = Inr u"
    "\<And>u. u \<in> set (en_updates e) \<Longrightarrow> \<exists>ev \<in> set (events_of (cu_submissionID u) evs). ev_endOfRun ev"
    "[] \<notin> set (gm_keys (en_buffers e))"
    using knows phase unfolding engine_knows_def by blast+
  have jobs: "es = events_of sid (evs @ [ev]) \<and> (\<exists>ev \<in> set es. ev_endOfRun ev)"
    if "(sid, es) \<in> set (en_waiting e) \<union> set (en_holding e)" for sid es
    using k(2)[OF that] events_of_stable by metis
  have ups: "\<exists>rng. ranges_ok rng \<and> finalize rng (cu_submissionID u) (events_of (cu_submissionID u) (evs @ [ev])) = Inr u"
    "\<exists>ev' \<in> set (events_of (cu_submissionID u) (evs @ [ev])). ev_endOfRun ev'"
    if "u \<in> set (en_updates e)" for u
    using k(3,4)[OF that] events_of_stable[OF k(4)[OF that]] by auto
  have other: "events_of sid (evs @ [ev]) = events_of sid evs" if "sid \<noteq> ?sid" for sid
    using that by (simp add: events_of_snoc)
  have own: "events_of ?sid (evs @ [ev]) = buffered e ?sid @ [ev]" if "?sid \<noteq> []" "?sid \<notin> en_finalized e"
    using k(1)[OF that] buffered_no_end[OF inv, of ?sid] by (simp add: events_of_snoc)
  show ?thesis
  proof (rule engine_receive_cases[OF inv, of ev], goal_cases skip buffer finish)
    case skip
    have "buffered e sid = events_of sid (evs @ [ev])" if "sid \<noteq> []" "sid \<notin> en_finalized e" for sid
      using k(1)[OF that] other[of sid] that skip(1) by (cases "sid = ?sid") auto
    with skip show ?thesis
      unfolding engine_knows_def skip(2) using k(5) jobs ups phase by (auto simp del: set_map)
  next
    case buffer
    then show ?thesis
      unfolding engine_knows_def buffer(4)
      using k(1,5) jobs ups other own phase
      by (auto simp: buffered_def gm_keys_put_set simp del: set_map)
  next
    case finish
    then show ?thesis
      unfolding engine_knows_def finish(4)
      using k(1,5) jobs ups other own phase
      by (auto simp: buffered_def gm_keys_put_set gm_keys_del_set simp del: set_map)
  qed
qed

lemma knows_flush:
  assumes inv: "engine_inv workers e" and knows: "engine_knows evs e" and phase: "en_phase e = Flushing (sid # ids)"
    and take: "takeEvents sid e = (events, e')"
  shows "events = events_of sid evs \<and> engine_knows evs (e'\<lparr>en_phase := Waiting\<rparr>)"
proof -
  have e': "e' = e\<lparr>en_buffers := gm_del sid (en_buffers e), en_finalized := insert sid (en_finalized e)\<rparr>"
    and ev: "events = buffered e sid"
    using take by (simp_all add: takeEvents_def buffered_def)
  have "sid \<noteq> []" "sid \<notin> en_finalized e"
    using knows phase inv by (auto simp: engine_knows_def engine_inv_def)
  then have "events = events_of sid evs" using knows ev by (simp add: engine_knows_def)
  moreover have "engine_knows evs (e'\<lparr>en_phase := Waiting\<rparr>)"
    using knows unfolding engine_knows_def e'
    by (auto simp: buffered_def gm_keys_del_set simp del: set_map)
  ultimately show ?thesis by blast
qed

lemma knows_step:
  assumes inv: "engine_inv workers e" and knows: "engine_knows evs e" and step: "engine_step workers e lbl e'"
  shows "engine_knows (evs @ (case lbl of None \<Rightarrow> [] | Some x \<Rightarrow> [x])) e'"
  using step
proof (cases rule: engine_step.cases)
  case (receive event)
  with knows_receive[OF inv knows] show ?thesis by simp
next
  case (flush_send sid ids events e'' rng u)
  note k = knows_flush[OF inv knows flush_send(3,4)]
  have "ranges_ok rng \<and> finalize rng (cu_submissionID u) (events_of (cu_submissionID u) evs) = Inr u"
    using flush_send k finalize_id[of rng sid events u] by simp
  moreover have "[] \<notin> set ids" using knows flush_send(3) by (auto simp: engine_knows_def)
  moreover have "en_updates e'' = en_updates e" using flush_send(4) by (auto simp: takeEvents_def)
  ultimately show ?thesis
    using k flush_send(1,2) by (auto simp: engine_knows_def buffered_def simp del: set_map)
next
  case (flush_cancelled sid ids events e'')
  with knows_flush[OF inv knows flush_cancelled(3,5)] show ?thesis by simp
next
  case (worker_sends xs sid events ys rng u)
  have job: "(sid, events) \<in> set (en_holding e)" using worker_sends(3) by simp
  then have "events = events_of sid evs" "\<exists>ev \<in> set events. ev_endOfRun ev"
    using knows unfolding engine_knows_def by blast+
  moreover have "cu_submissionID u = sid" by (rule finalize_id[OF worker_sends(5)])
  ultimately show ?thesis
    using knows worker_sends unfolding engine_knows_def
    by (auto simp: buffered_def simp del: set_map)
qed (use knows in \<open>auto simp: engine_knows_def buffered_def simp del: set_map\<close>)

lemma engine_run_knows: "engine_run workers evs e \<Longrightarrow> engine_knows evs e"
proof (induction rule: engine_run.induct)
  case start
  show ?case by (simp add: engine_knows_def New_engine_def buffered_def events_of_def)
next
  case (step evs e ev e')
  then show ?case using knows_step engine_run_inv by blast
qed

section \<open>Nothing is forgotten\<close>

text \<open>While the context lives, every submission seen is buffered or owned; flushing empties the buffers.\<close>

definition engine_complete :: "order_event list \<Rightarrow> engine \<Rightarrow> bool" where
  "engine_complete evs e \<longleftrightarrow> en_ctxDone e \<or>
     ((\<forall>ev \<in> set evs. ev_submissionID ev \<noteq> [] \<longrightarrow>
         ev_submissionID ev \<in> set (gm_keys (en_buffers e)) \<union> set (owned_ids e)) \<and>
      en_finalized e \<subseteq> set (owned_ids e) \<and>
      (\<forall>ids. en_phase e = Flushing ids \<longrightarrow> set (gm_keys (en_buffers e)) \<subseteq> set ids) \<and>
      (en_phase e = Waiting \<or> en_phase e = Closed \<longrightarrow> set (gm_keys (en_buffers e)) = {}))"

lemma complete_step:
  assumes inv: "engine_inv workers e" and com: "engine_complete evs e" and step: "engine_step workers e lbl e'"
  shows "engine_complete (evs @ (case lbl of None \<Rightarrow> [] | Some x \<Rightarrow> [x])) e'"
  using step
proof (cases rule: engine_step.cases)
  case (receive event)
  show ?thesis
  proof (cases "en_ctxDone e")
    case True
    then show ?thesis
      using receive by (auto simp: engine_complete_def engine_receive_def Let_def takeEvents_def dispatch_def)
  next
    case False
    show ?thesis
    proof (rule engine_receive_cases[OF inv, of event], goal_cases skip buffer finish)
      case skip
      with com receive False show ?thesis by (auto simp: engine_complete_def simp del: set_map)
    next
      case buffer
      with com receive False show ?thesis
        by (auto simp: engine_complete_def owned_ids_def gm_keys_put_set simp del: set_map)
    next
      case finish
      with com receive False show ?thesis
        by (auto simp: engine_complete_def owned_ids_def gm_keys_put_set gm_keys_del_set simp del: set_map)
    qed
  qed
next
  case (flush_send sid ids events e'' rng u)
  then have e'': "e'' = e\<lparr>en_buffers := gm_del sid (en_buffers e), en_finalized := insert sid (en_finalized e)\<rparr>"
    and "cu_submissionID u = sid" by (auto simp: takeEvents_def finalize_id)
  with com flush_send(1,2,3) show ?thesis
    by (auto simp: engine_complete_def owned_ids_def gm_keys_del_set simp del: set_map)
next
  case (worker_sends xs sid events ys rng u)
  with com finalize_id[OF worker_sends(5)] show ?thesis
    by (auto simp: engine_complete_def owned_ids_def)
next
  case (worker_acquire xs job ys)
  with com show ?thesis by (auto simp: engine_complete_def owned_ids_def)
qed (use com in \<open>auto simp: engine_complete_def owned_ids_def takeEvents_def simp del: set_map\<close>)

lemma engine_run_complete: "engine_run workers evs e \<Longrightarrow> engine_complete evs e"
proof (induction rule: engine_run.induct)
  case start
  show ?case by (simp add: engine_complete_def New_engine_def owned_ids_def)
next
  case (step evs e ev e')
  then show ?case using complete_step engine_run_inv by blast
qed

section \<open>Properties of the engine\<close>

text \<open>
  C10. At most one verdict per submission: in every reachable state the updates sent are about different
  submissions, and no submission with an update has a job left. Never do more workers replay at once
  than the semaphore allows.
\<close>

theorem engine_one_verdict:
  assumes "engine_run workers evs e"
  shows "distinct (map cu_submissionID (en_updates e)) \<and>
    set (map cu_submissionID (en_updates e)) \<inter> (fst ` set (en_waiting e) \<union> fst ` set (en_holding e)) = {} \<and>
    length (en_holding e) \<le> workers"
  using engine_run_inv[OF assms] by (auto simp: engine_inv_def owned_ids_def)

text \<open>
  C34. Isolation: every update is the replay of exactly the events of its own submission, in order of
  arrival and up to its first end-of-run marker, whatever events of other submissions and stragglers
  are interleaved with them and however the workers are scheduled.
\<close>

theorem engine_isolates:
  assumes "engine_run workers evs e" and "u \<in> set (en_updates e)"
  shows "\<exists>rng. ranges_ok rng \<and> finalize rng (cu_submissionID u) (events_of (cu_submissionID u) evs) = Inr u"
  using engine_run_knows[OF assms(1)] assms(2) unfolding engine_knows_def by blast

text \<open>
  Fail-safe: a submission whose end-of-run marker was never received never gets a verdict other than
  Unverified, and none at all while the engine's input is open.
\<close>

theorem engine_fail_safe:
  assumes "engine_run workers evs e" and "u \<in> set (en_updates e)"
    and "\<not> (\<exists>ev \<in> set evs. ev_submissionID ev = cu_submissionID u \<and> ev_endOfRun ev)"
  shows "cu_verdict u = VerdictUnverified \<and> en_phase e \<noteq> Receiving"
proof -
  have none: "\<not> (\<exists>ev \<in> set (events_of (cu_submissionID u) evs). ev_endOfRun ev)"
    using assms(3) by (auto simp: events_of_def upto_end_has)
  obtain rng where "finalize rng (cu_submissionID u) (events_of (cu_submissionID u) evs) = Inr u"
    using engine_run_knows[OF assms(1)] assms(2) unfolding engine_knows_def by blast
  with none have "u = \<lparr>cu_submissionID = cu_submissionID u, cu_verdict = VerdictUnverified,
      cu_reason = ''run did not complete: end-of-run marker never received''\<rparr>"
    by (simp add: finalize_def)
  then have "cu_verdict u = VerdictUnverified" by (metis correctness_update.select_convs(2))
  moreover have "en_phase e \<noteq> Receiving"
    using engine_run_knows[OF assms(1)] assms(2) none unfolding engine_knows_def by blast
  ultimately show ?thesis by simp
qed

text \<open>
  The channel of updates is closed only after the last send: once it is closed no step sends, so the
  engine cannot panic by sending on a closed channel, and no step closes it again.
\<close>

theorem engine_no_send_after_close:
  assumes "engine_run workers evs e" and "en_phase e = Closed" and "engine_step workers e lbl e'"
  shows "en_updates e' = en_updates e \<and> en_phase e' = Closed \<and> en_holding e' = []"
proof -
  have "en_waiting e = []" "en_holding e = []"
    using engine_run_inv[OF assms(1)] assms(2) by (auto simp: engine_inv_def)
  with assms(2,3) show ?thesis by (auto elim: engine_step.cases)
qed

text \<open>
  No submission is forgotten: when the engine has shut down without its context being cancelled, every
  submission of which it received any event has a verdict.
\<close>

theorem engine_decides_all:
  assumes "engine_run workers evs e" and "en_phase e = Closed" and "\<not> en_ctxDone e"
    and "ev \<in> set evs" and "ev_submissionID ev \<noteq> []"
  shows "ev_submissionID ev \<in> set (map cu_submissionID (en_updates e))"
proof -
  have "en_waiting e = []" "en_holding e = []"
    using engine_run_inv[OF assms(1)] assms(2) by (auto simp: engine_inv_def)
  then have "owned_ids e = map cu_submissionID (en_updates e)" by (simp add: owned_ids_def)
  with engine_run_complete[OF assms(1)] assms(2-5) show ?thesis
    by (auto simp: engine_complete_def simp del: set_map)
qed

text \<open>A run that sees one event without a marker and shuts down.\<close>

definition sample_event :: order_event where
  "sample_event = zero_event\<lparr>ev_submissionID := ''s'', ev_seq := 1\<rparr>"

definition sample_shutdown :: engine where
  "sample_shutdown = New_engine\<lparr>en_finalized := {''s''},
     en_updates := [\<lparr>cu_submissionID = ''s'', cu_verdict = VerdictUnverified,
       cu_reason = ''run did not complete: end-of-run marker never received''\<rparr>],
     en_phase := Closed\<rparr>"

lemma engine_run_None:
  "engine_run workers evs e \<Longrightarrow> engine_step workers e None e' \<Longrightarrow> engine_run workers evs e'"
  using engine_run.step[of workers evs e None e'] by simp

lemma sample_shutdown_run: "engine_run 1 [sample_event] sample_shutdown"
proof -
  let ?e1 = "New_engine\<lparr>en_buffers := [(''s'', [sample_event])]\<rparr>"
  have e1: "engine_receive sample_event New_engine = ?e1"
    by (simp add: engine_receive_def sample_event_def zero_event_def New_engine_def gm_put_def Let_def)
  have r1: "engine_run 1 [sample_event] ?e1"
    using engine_run.step[OF engine_run.start engine_step.receive[of New_engine 1 sample_event]] e1
    by (simp add: New_engine_def)
  have ids: "gm_keys (en_buffers ?e1) = [''s'']" by simp
  let ?e2 = "?e1\<lparr>en_phase := Flushing [''s'']\<rparr>"
  have r2: "engine_run 1 [sample_event] ?e2"
    using engine_run_None[OF r1 engine_step.input_closed[of ?e1 1]] unfolding ids by (simp add: New_engine_def)
  let ?u = "\<lparr>cu_submissionID = ''s'', cu_verdict = VerdictUnverified,
       cu_reason = ''run did not complete: end-of-run marker never received''\<rparr>"
  let ?e3 = "New_engine\<lparr>en_finalized := {''s''}, en_updates := [?u], en_phase := Flushing []\<rparr>"
  have take: "takeEvents ''s'' ?e2 = ([sample_event], ?e2\<lparr>en_buffers := [], en_finalized := {''s''}\<rparr>)"
    by (simp add: takeEvents_def New_engine_def gm_get_def gm_del_def)
  have fin: "finalize (\<lambda>n. id) ''s'' [sample_event] = Inr ?u"
    by (simp add: finalize_def sample_event_def zero_event_def)
  have "ranges_ok (\<lambda>n. id)" by (simp add: ranges_ok_def range_ok_def)
  then have r3: "engine_run 1 [sample_event] ?e3"
    using engine_run_None[OF r2 engine_step.flush_send[OF _ take _ fin, of "[]" 1]] by (simp add: New_engine_def)
  have r4: "engine_run 1 [sample_event] (?e3\<lparr>en_phase := Waiting\<rparr>)"
    by (rule engine_run_None[OF r3 engine_step.flush_done]) simp
  have "engine_run 1 [sample_event] (?e3\<lparr>en_phase := Waiting, en_phase := Closed\<rparr>)"
    by (rule engine_run_None[OF r4 engine_step.close_updates]) (simp_all add: New_engine_def)
  then show ?thesis by (simp add: sample_shutdown_def)
qed

theorem engine_one_verdict_witness:
  "distinct (map cu_submissionID (en_updates sample_shutdown)) \<and> length (en_holding sample_shutdown) \<le> 1"
  using engine_one_verdict[OF sample_shutdown_run] by simp

theorem engine_isolates_witness:
  "\<exists>rng. finalize rng ''s'' (events_of ''s'' [sample_event]) = Inr (hd (en_updates sample_shutdown))"
  using engine_isolates[OF sample_shutdown_run, of "hd (en_updates sample_shutdown)"]
  by (auto simp: sample_shutdown_def)

theorem engine_fail_safe_witness:
  "cu_verdict (hd (en_updates sample_shutdown)) = VerdictUnverified \<and> en_phase sample_shutdown \<noteq> Receiving"
  using engine_fail_safe[OF sample_shutdown_run, of "hd (en_updates sample_shutdown)"]
  by (simp add: sample_shutdown_def sample_event_def zero_event_def)

theorem engine_no_send_after_close_witness:
  "en_updates (sample_shutdown\<lparr>en_ctxDone := True\<rparr>) = en_updates sample_shutdown \<and>
    en_phase (sample_shutdown\<lparr>en_ctxDone := True\<rparr>) = Closed"
  using engine_no_send_after_close[OF sample_shutdown_run _ engine_step.cancel_ctx]
  by (simp add: sample_shutdown_def)

theorem engine_decides_all_witness:
  "''s'' \<in> set (map cu_submissionID (en_updates sample_shutdown))"
  using engine_decides_all[OF sample_shutdown_run, of sample_event]
  by (simp add: sample_shutdown_def sample_event_def zero_event_def New_engine_def)

end
