(* ===== verification/EventHeap.thy ===== *)
theory EventHeap
  imports Models
begin

text \<open>
  The event-time heap of the watermark package (\<open>watermark/event_heap.go\<close>): the methods of
  \<open>EventHeap\<close>, and the functions \<open>Init\<close>, \<open>Push\<close> and \<open>Pop\<close> of Go's package \<open>container/heap\<close> that
  call them. A heap is the list behind the slice. The contract of a priority queue is the locale
  \<open>event_queue\<close> at the end, interpreted on these definitions.
\<close>

section \<open>The methods of the heap\<close>

record queued_event =
  qe_event :: order_event
  qe_sequence :: int

type_synonym event_heap = "queued_event list"

definition qe_less :: "queued_event \<Rightarrow> queued_event \<Rightarrow> bool" where
  "qe_less left right =
     (if ev_eventTimestamp (qe_event left) = ev_eventTimestamp (qe_event right)
      then qe_sequence left < qe_sequence right
      else ev_eventTimestamp (qe_event left) < ev_eventTimestamp (qe_event right))"

definition heap_Less :: "event_heap \<Rightarrow> nat \<Rightarrow> nat \<Rightarrow> bool" where
  "heap_Less h i j = qe_less (h ! i) (h ! j)"

definition heap_Swap :: "event_heap \<Rightarrow> nat \<Rightarrow> nat \<Rightarrow> event_heap" where
  "heap_Swap h i j = h[i := h ! j, j := h ! i]"

definition heap_append :: "event_heap \<Rightarrow> queued_event \<Rightarrow> event_heap" where
  "heap_append h value = h @ [value]"

definition heap_remove_last :: "event_heap \<Rightarrow> queued_event \<times> event_heap" where
  "heap_remove_last h = (last h, butlast h)"

definition heap_Peek :: "event_heap \<Rightarrow> order_event \<times> bool" where
  "heap_Peek h = (if h = [] then (zero_event, False) else (qe_event (h ! 0), True))"

section \<open>The functions of \<open>container/heap\<close>\<close>

function heap_up :: "event_heap \<Rightarrow> nat \<Rightarrow> event_heap" where
  "heap_up h j =
     (let i = (j - 1) div 2 in
      if i = j \<or> \<not> heap_Less h j i then h else heap_up (heap_Swap h i j) i)"
  by pat_completeness auto
termination by (relation "measure snd") auto

function heap_down :: "event_heap \<Rightarrow> nat \<Rightarrow> nat \<Rightarrow> event_heap" where
  "heap_down h i n =
     (let j1 = 2 * i + 1 in
      if n \<le> j1 then h
      else (let j = (if j1 + 1 < n \<and> heap_Less h (j1 + 1) j1 then j1 + 1 else j1) in
            if \<not> heap_Less h j i then h else heap_down (heap_Swap h i j) j n))"
  by pat_completeness auto
termination by (relation "measure (\<lambda>(h, i, n). n - i)") (auto split: if_splits)

declare heap_up.simps [simp del] heap_down.simps [simp del]

definition heap_Init :: "event_heap \<Rightarrow> event_heap" where
  "heap_Init h = fold (\<lambda>i h. heap_down h i (length h)) (rev [0..<length h div 2]) h"

definition heap_Push :: "event_heap \<Rightarrow> queued_event \<Rightarrow> event_heap" where
  "heap_Push h x = (let h' = heap_append h x in heap_up h' (length h' - 1))"

definition heap_Pop :: "event_heap \<Rightarrow> queued_event \<times> event_heap" where
  "heap_Pop h =
     (let n = length h - 1 in heap_remove_last (heap_down (heap_Swap h 0 n) 0 n))"

section \<open>The order\<close>

lemma qe_less_irrefl [simp]: "\<not> qe_less a a"
  by (simp add: qe_less_def)

lemma qe_less_asym: "qe_less a b \<Longrightarrow> \<not> qe_less b a"
  by (auto simp: qe_less_def split: if_splits)

lemma not_less_trans: "\<not> qe_less b a \<Longrightarrow> \<not> qe_less c b \<Longrightarrow> \<not> qe_less c a"
  by (auto simp: qe_less_def split: if_splits)

section \<open>Swapping and sifting keep the elements\<close>

lemma length_Swap [simp]: "length (heap_Swap h i j) = length h"
  by (simp add: heap_Swap_def)

lemma Swap_nth:
  "i < length h \<Longrightarrow> j < length h \<Longrightarrow> k < length h \<Longrightarrow>
     heap_Swap h i j ! k = (if k = j then h ! i else if k = i then h ! j else h ! k)"
  by (auto simp: heap_Swap_def nth_list_update)

lemma mset_Swap [simp]: "i < length h \<Longrightarrow> j < length h \<Longrightarrow> mset (heap_Swap h i j) = mset h"
  by (simp add: heap_Swap_def mset_swap)

lemma heap_up_mset:
  "j < length h \<Longrightarrow> mset (heap_up h j) = mset h \<and> length (heap_up h j) = length h"
proof (induction h j rule: heap_up.induct)
  case (1 h j)
  then show ?case by (subst (1 2) heap_up.simps) (auto simp: Let_def)
qed

text \<open>One round of \<open>down\<close>, with the smaller child named, and the induction that goes with it.\<close>

definition min_child :: "event_heap \<Rightarrow> nat \<Rightarrow> nat \<Rightarrow> nat" where
  "min_child h i n = (if 2 * i + 2 < n \<and> heap_Less h (2 * i + 2) (2 * i + 1) then 2 * i + 2 else 2 * i + 1)"

lemma min_child_simps:
  "2 * i + 1 < n \<Longrightarrow> min_child h i n < n" "i < min_child h i n"
  "min_child h i n = 2 * i + 1 \<or> min_child h i n = 2 * i + 2"
  by (auto simp: min_child_def)

lemma heap_down_unfold:
  "heap_down h i n =
     (if 2 * i + 1 < n \<and> heap_Less h (min_child h i n) i
      then heap_down (heap_Swap h i (min_child h i n)) (min_child h i n) n else h)"
proof -
  have "heap_down h i n =
      (if n \<le> 2 * i + 1 then h
       else if \<not> heap_Less h (min_child h i n) i then h
       else heap_down (heap_Swap h i (min_child h i n)) (min_child h i n) n)"
    by (subst heap_down.simps) (simp only: Let_def min_child_def add.assoc one_add_one)
  then show ?thesis by (simp only: not_le[symmetric] if_not_P split: if_split) blast
qed

lemma heap_down_induct [case_names stop sift]:
  assumes "\<And>h i. \<not> (2 * i + 1 < n \<and> heap_Less h (min_child h i n) i) \<Longrightarrow> P h i"
    and "\<And>h i. 2 * i + 1 < n \<Longrightarrow> heap_Less h (min_child h i n) i \<Longrightarrow>
      P (heap_Swap h i (min_child h i n)) (min_child h i n) \<Longrightarrow> P h i"
  shows "P h i"
proof (induction "n - i" arbitrary: h i rule: less_induct)
  case less
  show ?case
  proof (cases "2 * i + 1 < n \<and> heap_Less h (min_child h i n) i")
    case True
    then have "n - min_child h i n < n - i" using min_child_simps(1,2)[where h = h and i = i and n = n] by simp
    with less True assms(2) show ?thesis by blast
  next
    case False
    with assms(1) show ?thesis by blast
  qed
qed

lemma heap_down_mset:
  "n \<le> length h \<Longrightarrow> mset (heap_down h i n) = mset h \<and> length (heap_down h i n) = length h \<and>
     (\<forall>k. n \<le> k \<longrightarrow> k < length h \<longrightarrow> heap_down h i n ! k = h ! k)"
proof (induction h i rule: heap_down_induct[of n])
  case (stop h i)
  have "heap_down h i n = h" by (subst heap_down_unfold) (use stop in auto)
  then show ?case by simp
next
  case (sift h i)
  let ?j = "min_child h i n"
  have j: "?j < n" "i < n" using sift.hyps(1) min_child_simps(1)[where h = h and i = i and n = n] by simp_all
  have "heap_down h i n = heap_down (heap_Swap h i ?j) ?j n"
    by (subst heap_down_unfold) (use sift.hyps in auto)
  with sift.IH sift.prems j show ?case by (auto simp: Swap_nth)
qed

section \<open>The heap property\<close>

definition par :: "nat \<Rightarrow> nat" where
  "par i = (i - 1) div 2"

definition is_heap :: "event_heap \<Rightarrow> nat \<Rightarrow> bool" where
  "is_heap h n \<longleftrightarrow> (\<forall>k. 0 < k \<longrightarrow> k < n \<longrightarrow> \<not> heap_Less h k (par k))"

text \<open>A heap except that the entry at \<open>i\<close> may be too big for its place, or too small.\<close>

definition heap_above :: "event_heap \<Rightarrow> nat \<Rightarrow> nat \<Rightarrow> bool" where
  "heap_above h i n \<longleftrightarrow>
     (\<forall>k. 0 < k \<longrightarrow> k < n \<longrightarrow> par k \<noteq> i \<longrightarrow> \<not> heap_Less h k (par k)) \<and>
     (\<forall>k. 0 < k \<longrightarrow> k < n \<longrightarrow> par k = i \<longrightarrow> 0 < i \<longrightarrow> \<not> heap_Less h k (par i))"

definition heap_below :: "event_heap \<Rightarrow> nat \<Rightarrow> nat \<Rightarrow> bool" where
  "heap_below h j n \<longleftrightarrow>
     (\<forall>k. 0 < k \<longrightarrow> k < n \<longrightarrow> k \<noteq> j \<longrightarrow> \<not> heap_Less h k (par k)) \<and>
     (\<forall>k. 0 < k \<longrightarrow> k < n \<longrightarrow> par k = j \<longrightarrow> 0 < j \<longrightarrow> \<not> heap_Less h k (par j))"

lemma par_less: "0 < k \<Longrightarrow> par k < k"
  by (auto simp: par_def)

lemma par_children: "0 < k \<Longrightarrow> par k = i \<longleftrightarrow> k = 2 * i + 1 \<or> k = 2 * i + 2"
  unfolding par_def by presburger

lemma less_Swap:
  assumes "a < length h" "b < length h" "x < length h" "y < length h"
  shows "heap_Less (heap_Swap h a b) x y =
    qe_less (if x = b then h ! a else if x = a then h ! b else h ! x)
      (if y = b then h ! a else if y = a then h ! b else h ! y)"
  using assms by (simp add: heap_Less_def Swap_nth)

lemma heap_up_heap:
  assumes "heap_below h j n" and "j < n" and "n \<le> length h"
  shows "is_heap (heap_up h j) n"
  using assms
proof (induction h j rule: heap_up.induct)
  case (1 h j)
  show ?case
  proof (cases "par j = j \<or> \<not> heap_Less h j (par j)")
    case True
    then have "heap_up h j = h" by (subst heap_up.simps) (auto simp: Let_def par_def)
    moreover have "0 < j \<Longrightarrow> par j \<noteq> j" using par_less[of j] by simp
    ultimately show ?thesis
      using True "1.prems"(1) by (auto simp: is_heap_def heap_below_def)
  next
    case False
    let ?i = "par j" and ?h = "heap_Swap h (par j) j"
    have j: "0 < j" "?i < j" using False par_less[of j] by (auto simp: par_def intro: ccontr)
    have step: "heap_up h j = heap_up ?h ?i"
      using False by (subst heap_up.simps) (simp add: Let_def par_def)
    have lt: "qe_less (h ! j) (h ! ?i)" using False by (simp add: heap_Less_def)
    have below: "\<not> qe_less (h ! k) (h ! par k)" if "0 < k" "k < n" "k \<noteq> j" for k
      using "1.prems"(1) that by (auto simp: heap_below_def heap_Less_def)
    have grand: "\<not> qe_less (h ! k) (h ! ?i)" if "0 < k" "k < n" "par k = j" for k
      using "1.prems"(1) that j by (auto simp: heap_below_def heap_Less_def)
    have "\<not> heap_Less ?h k (par k)" if k: "0 < k" "k < n" "k \<noteq> ?i" for k
    proof (cases "k = j")
      case True
      then show ?thesis using lt j k "1.prems"(2,3) by (simp add: less_Swap qe_less_asym)
    next
      case kj: False
      have pk: "par k < length h" "k < length h" using k par_less[of k] "1.prems"(3) by simp_all
      show ?thesis
      proof (cases "par k = j")
        case True
        then show ?thesis using grand[of k] k kj j "1.prems"(2,3) pk by (simp add: less_Swap)
      next
        case pkj: False
        show ?thesis
        proof (cases "par k = ?i")
          case True
          have "\<not> qe_less (h ! k) (h ! j)"
            using below[OF k(1,2) kj] True lt not_less_trans qe_less_asym by metis
          then show ?thesis using True k kj j "1.prems"(2,3) pk pkj by (simp add: less_Swap)
        next
          case False
          then show ?thesis using below[OF k(1,2) kj] k kj j "1.prems"(2,3) pk pkj by (simp add: less_Swap)
        qed
      qed
    qed
    moreover have "\<not> heap_Less ?h k (par ?i)" if k: "0 < k" "k < n" "par k = ?i" "0 < ?i" for k
    proof -
      have pi: "par ?i < ?i" by (rule par_less[OF k(4)])
      have top: "\<not> qe_less (h ! ?i) (h ! par ?i)" using below[of ?i] k(4) j "1.prems"(2) by simp
      have "\<not> qe_less (if k = j then h ! ?i else h ! k) (h ! par ?i)"
        using top below[of k] k not_less_trans[of "h ! par ?i" "h ! ?i" "h ! k"]
        by (auto) (metis not_less_trans)
      moreover have "k \<noteq> ?i" using par_less[OF k(1)] k(3) by simp
      ultimately show ?thesis using k j pi "1.prems"(2,3) by (auto simp: less_Swap split: if_splits)
    qed
    ultimately have "heap_below ?h ?i n" by (simp add: heap_below_def)
    then have "is_heap (heap_up ?h ?i) n"
      using "1.IH"[OF par_def] False j "1.prems"(2,3) by simp
    with step show ?thesis by simp
  qed
qed

lemma heap_down_heap:
  assumes "heap_above h i n" and "n \<le> length h"
  shows "is_heap (heap_down h i n) n"
  using assms
proof (induction h i rule: heap_down_induct[of n])
  case (stop h i)
  have "heap_down h i n = h" by (subst heap_down_unfold) (use stop.hyps in auto)
  moreover have "\<not> heap_Less h k i" if k: "0 < k" "k < n" "par k = i" for k
  proof -
    have "2 * i + 1 < n" using k par_children[of k i] by auto
    with stop.hyps have no: "\<not> heap_Less h (min_child h i n) i" by simp
    have "k = min_child h i n \<or> \<not> heap_Less h k (min_child h i n)"
      using k par_children[of k i] by (auto simp: min_child_def heap_Less_def qe_less_asym)
    with no show ?thesis
      using not_less_trans[of "h ! min_child h i n" "h ! k" "h ! i"] not_less_trans by (metis heap_Less_def)
  qed
  ultimately show ?case using stop.prems(1) by (auto simp: is_heap_def heap_above_def)
next
  case (sift h i)
  let ?j = "min_child h i n" and ?h = "heap_Swap h i (min_child h i n)"
  have j: "?j < n" "i < ?j" "par ?j = i" "0 < ?j"
    using sift.hyps(1) min_child_simps[where h = h and i = i and n = n] par_children[of ?j i] by auto
  have lt: "qe_less (h ! ?j) (h ! i)" using sift.hyps(2) by (simp add: heap_Less_def)
  have sib: "\<not> qe_less (h ! k) (h ! ?j)" if "0 < k" "k < n" "par k = i" for k
    using that par_children[of k i] by (auto simp: min_child_def heap_Less_def qe_less_asym)
  have other: "\<not> qe_less (h ! k) (h ! par k)" if "0 < k" "k < n" "par k \<noteq> i" for k
    using sift.prems(1) that by (auto simp: heap_above_def heap_Less_def)
  have up: "\<not> qe_less (h ! k) (h ! par i)" if "0 < k" "k < n" "par k = i" "0 < i" for k
    using sift.prems(1) that by (auto simp: heap_above_def heap_Less_def)
  have bounds: "i < length h" "?j < length h" using j sift.prems(2) by simp_all
  have "\<not> heap_Less ?h k (par k)" if k: "0 < k" "k < n" "par k \<noteq> ?j" for k
  proof -
    have pk: "par k < length h" "k < length h" "par k < k" using k par_less[of k] sift.prems(2) by simp_all
    consider "k = i" | "k = ?j" | "k \<noteq> i" "k \<noteq> ?j" "par k = i" | "k \<noteq> i" "k \<noteq> ?j" "par k \<noteq> i" by blast
    then show ?thesis
    proof cases
      case 1
      then show ?thesis using up[of ?j] j k pk bounds by (simp add: less_Swap)
    next
      case 2
      then show ?thesis using lt j k pk bounds by (simp add: less_Swap qe_less_asym)
    next
      case 3
      then show ?thesis using sib[of k] j k pk bounds by (simp add: less_Swap)
    next
      case 4
      then show ?thesis using other[of k] j k pk bounds by (simp add: less_Swap)
    qed
  qed
  moreover have "\<not> heap_Less ?h k (par ?j)" if k: "0 < k" "k < n" "par k = ?j" for k
  proof -
    have pk: "k < length h" "?j < k" using k par_less[of k] sift.prems(2) by simp_all
    have "\<not> qe_less (h ! k) (h ! ?j)" using other[of k] k j by simp
    then show ?thesis using j k pk bounds by (simp add: less_Swap)
  qed
  ultimately have "heap_above ?h ?j n" by (simp add: heap_above_def)
  then have "is_heap (heap_down ?h ?j n) n" using sift.IH sift.prems(2) by simp
  moreover have "heap_down h i n = heap_down ?h ?j n"
    by (subst heap_down_unfold) (use sift.hyps in auto)
  ultimately show ?case by simp
qed

lemma heap_root_least:
  assumes "is_heap h n" and "k < n"
  shows "\<not> qe_less (h ! k) (h ! 0)"
  using assms(2)
proof (induction k rule: less_induct)
  case (less k)
  show ?case
  proof (cases "k = 0")
    case False
    then have "par k < k" by (simp add: par_less)
    with less have "\<not> qe_less (h ! par k) (h ! 0)" by simp
    moreover have "\<not> qe_less (h ! k) (h ! par k)" using assms(1) less.prems False by (simp add: is_heap_def heap_Less_def)
    ultimately show ?thesis by (rule not_less_trans)
  qed simp
qed

section \<open>Push and Pop\<close>

lemma heap_Push_heap:
  assumes "is_heap h (length h)"
  shows "is_heap (heap_Push h x) (length (heap_Push h x)) \<and> mset (heap_Push h x) = mset h + {#x#}"
proof -
  let ?h = "h @ [x]"
  have "\<not> heap_Less ?h k (par k)" if "0 < k" "k < length h" for k
    using assms that par_less[of k] by (simp add: is_heap_def heap_Less_def nth_append)
  moreover have "par k \<noteq> length h" if "0 < k" "k < length ?h" for k
    using par_less[OF that(1)] that(2) by simp
  ultimately have "heap_below ?h (length h) (length ?h)"
    unfolding heap_below_def by (metis length_append_singleton less_Suc_eq)
  then have "is_heap (heap_up ?h (length h)) (length ?h)" by (intro heap_up_heap) simp_all
  moreover have "mset (heap_up ?h (length h)) = mset ?h \<and> length (heap_up ?h (length h)) = length ?h"
    by (intro heap_up_mset) simp
  ultimately show ?thesis by (simp add: heap_Push_def heap_append_def)
qed

lemma heap_Pop_heap:
  assumes "is_heap h (length h)" and "h \<noteq> []"
  obtains x h' where "heap_Pop h = (x, h')" "is_heap h' (length h')" "mset h = mset h' + {#x#}"
    "\<And>y. y \<in> set h \<Longrightarrow> \<not> qe_less y x" "x = h ! 0" "length h' = length h - 1"
proof -
  let ?n = "length h - 1" and ?h = "heap_Swap h 0 (length h - 1)"
  let ?d = "heap_down ?h 0 ?n"
  have n: "?n < length h" "0 < length h" using assms(2) by simp_all
  have keep: "mset ?d = mset ?h \<and> length ?d = length ?h \<and> (\<forall>k. ?n \<le> k \<longrightarrow> k < length ?h \<longrightarrow> ?d ! k = ?h ! k)"
    by (rule heap_down_mset) simp
  have last: "last ?d = h ! 0"
  proof -
    have "last ?d = ?d ! ?n" using keep n by (subst last_conv_nth) auto
    also have "\<dots> = ?h ! ?n" using keep n by simp
    also have "\<dots> = h ! 0" using n by (simp add: Swap_nth)
    finally show ?thesis .
  qed
  have ne: "?d \<noteq> []" using keep n by auto
  have "heap_above ?h 0 ?n"
    unfolding heap_above_def
  proof (intro conjI allI impI)
    fix k assume k: "0 < k" "k < ?n" "par k \<noteq> 0"
    then have "par k < k" by (simp add: par_less)
    moreover have "\<not> qe_less (h ! k) (h ! par k)"
      using k assms(1) by (simp add: is_heap_def heap_Less_def)
    ultimately show "\<not> heap_Less ?h k (par k)" using k n by (simp add: less_Swap)
  qed simp
  then have "is_heap ?d ?n" using n by (intro heap_down_heap) simp_all
  moreover have len: "length (butlast ?d) = ?n" using keep by simp
  ultimately have "is_heap (butlast ?d) (length (butlast ?d))"
    by (simp add: is_heap_def heap_Less_def nth_butlast par_less[THEN less_trans])
  moreover have "mset h = mset (butlast ?d) + {#last ?d#}"
  proof -
    have "mset (butlast ?d @ [last ?d]) = mset h" using keep n ne by (simp add: append_butlast_last_id)
    then show ?thesis by simp
  qed
  moreover have "\<not> qe_less y (h ! 0)" if "y \<in> set h" for y
    using that heap_root_least[OF assms(1)] by (auto simp: in_set_conv_nth)
  moreover have "heap_Pop h = (h ! 0, butlast ?d)"
    using last by (simp add: heap_Pop_def heap_remove_last_def Let_def)
  moreover have "mset h = mset (butlast ?d) + {#h ! 0#}" using calculation last by simp
  ultimately show thesis
    using len by (intro that[of "h ! 0" "butlast ?d"]) simp_all
qed

section \<open>The contract of a priority queue\<close>

text \<open>
  What the processor needs of its heap: the entries it holds as a multiset, \<open>push\<close> that adds one, and
  \<open>pop\<close> that removes one that no other precedes. \<open>pops\<close> is \<open>n\<close> pops in a row.
\<close>

fun pops :: "('q \<Rightarrow> 'e \<times> 'q) \<Rightarrow> nat \<Rightarrow> 'q \<Rightarrow> 'e list \<times> 'q" where
  "pops pop 0 q = ([], q)"
| "pops pop (Suc n) q = (let (x, q1) = pop q; (xs, q2) = pops pop n q1 in (x # xs, q2))"

locale event_queue =
  fixes inv :: "'q \<Rightarrow> bool"
    and items :: "'q \<Rightarrow> 'e multiset"
    and precedes :: "'e \<Rightarrow> 'e \<Rightarrow> bool"
    and push :: "'q \<Rightarrow> 'e \<Rightarrow> 'q"
    and pop :: "'q \<Rightarrow> 'e \<times> 'q"
  assumes inv_push: "inv q \<Longrightarrow> inv (push q x)"
    and items_push: "inv q \<Longrightarrow> items (push q x) = items q + {#x#}"
    and inv_pop: "inv q \<Longrightarrow> items q \<noteq> {#} \<Longrightarrow> inv (snd (pop q))"
    and items_pop: "inv q \<Longrightarrow> items q \<noteq> {#} \<Longrightarrow> items q = items (snd (pop q)) + {#fst (pop q)#}"
    and pop_least: "inv q \<Longrightarrow> y \<in># items q \<Longrightarrow> \<not> precedes y (fst (pop q))"
begin

lemma inv_pushes: "inv q \<Longrightarrow> inv (fold (\<lambda>x q. push q x) xs q)"
  by (induction xs arbitrary: q) (auto intro: inv_push)

lemma items_pushes: "inv q \<Longrightarrow> items (fold (\<lambda>x q. push q x) xs q) = items q + mset xs"
  by (induction xs arbitrary: q) (auto simp: items_push inv_push)

lemma pops_spec:
  assumes "inv q" and "n \<le> size (items q)" and "pops pop n q = (xs, q')"
  shows "inv q' \<and> items q = mset xs + items q' \<and> length xs = n \<and>
    sorted_wrt (\<lambda>x y. \<not> precedes y x) xs \<and> (\<forall>x \<in> set xs. \<forall>y \<in># items q'. \<not> precedes y x)"
  using assms
proof (induction n arbitrary: q xs)
  case 0
  then show ?case by auto
next
  case (Suc n)
  have ne: "items q \<noteq> {#}" using Suc.prems(2) by auto
  obtain ys where ys: "pops pop n (snd (pop q)) = (ys, q')" "xs = fst (pop q) # ys"
    using Suc.prems(3) by (auto simp: Let_def split: prod.splits)
  have split: "items q = items (snd (pop q)) + {#fst (pop q)#}" by (rule items_pop[OF Suc.prems(1) ne])
  then have "n \<le> size (items (snd (pop q)))" using Suc.prems(2) by simp
  from Suc.IH[OF inv_pop[OF Suc.prems(1) ne] this ys(1)] have IH: "inv q'"
    "items (snd (pop q)) = mset ys + items q'" "length ys = n" "sorted_wrt (\<lambda>x y. \<not> precedes y x) ys"
    "\<forall>x \<in> set ys. \<forall>y \<in># items q'. \<not> precedes y x" by auto
  have least: "\<not> precedes y (fst (pop q))" if "y \<in># items (snd (pop q))" for y
    using pop_least[OF Suc.prems(1), of y] that split by simp
  show ?case using IH split ys(2) least by auto
qed

lemma pops_all:
  assumes "inv q" and "pops pop (size (items q)) q = (xs, q')"
  shows "mset xs = items q" and "items q' = {#}" and "sorted_wrt (\<lambda>x y. \<not> precedes y x) xs"
proof -
  note spec = pops_spec[OF assms(1) le_refl assms(2)]
  then have "size (items q) = size (mset xs) + size (items q')" by (metis size_union)
  with spec show "items q' = {#}" by simp
  with spec show "mset xs = items q" "sorted_wrt (\<lambda>x y. \<not> precedes y x) xs" by auto
qed

end

definition heap_ok :: "event_heap \<Rightarrow> bool" where
  "heap_ok h \<longleftrightarrow> is_heap h (length h)"

lemma heap_Pop_facts:
  assumes "heap_ok h" and "h \<noteq> []"
  shows "heap_ok (snd (heap_Pop h)) \<and> mset h = mset (snd (heap_Pop h)) + {#fst (heap_Pop h)#} \<and>
    (\<forall>y \<in> set h. \<not> qe_less y (fst (heap_Pop h))) \<and> fst (heap_Pop h) = h ! 0"
proof (rule heap_Pop_heap)
  show "is_heap h (length h)" "h \<noteq> []" using assms by (simp_all add: heap_ok_def)
qed (simp add: heap_ok_def)

interpretation eq: event_queue heap_ok mset qe_less heap_Push heap_Pop
proof (unfold_locales, goal_cases ipush mpush ipop mpop least)
  case (ipush q x)
  then show ?case using heap_Push_heap by (simp add: heap_ok_def)
next
  case (mpush q x)
  then show ?case using heap_Push_heap by (simp add: heap_ok_def)
next
  case (ipop q)
  then show ?case using heap_Pop_facts[of q] by fastforce
next
  case (mpop q)
  then show ?case using heap_Pop_facts[of q] by fastforce
next
  case (least q y)
  then have "y \<in> set q" and "q \<noteq> []" by auto
  with least(1) show ?case using heap_Pop_facts[of q] by blast
qed

lemma heap_ok_Nil [simp]: "heap_ok []"
  by (simp add: heap_ok_def is_heap_def)

lemma heap_Init_Nil [simp]: "heap_Init [] = []"
  by (simp add: heap_Init_def)

lemma heap_Pop_Peek: "heap_ok h \<Longrightarrow> h \<noteq> [] \<Longrightarrow> heap_Peek h = (qe_event (fst (heap_Pop h)), True)"
  using heap_Pop_facts[of h] by (simp add: heap_Peek_def)

lemma heap_Pop_length: "h \<noteq> [] \<Longrightarrow> length (snd (heap_Pop h)) = length h - 1"
proof -
  assume "h \<noteq> []"
  have "length (heap_down (heap_Swap h 0 (length h - 1)) 0 (length h - 1)) = length h"
    using heap_down_mset[of "length h - 1" "heap_Swap h 0 (length h - 1)" 0] by simp
  then show ?thesis by (simp add: heap_Pop_def heap_remove_last_def Let_def)
qed

end
