(* ===== verification/Processor.thy ===== *)
theory Processor
  imports EventHeap Engine
begin

text \<open>
  The watermark processor of one submission (\<open>watermark/processor.go\<close>). The channel \<open>out\<close> is the list
  of the events sent on it. Cancellation of the context is an argument: \<open>c n\<close> says that the
  \<open>select\<close> of the send after \<open>n\<close> successful ones takes the branch \<open>ctx.Done()\<close>. What the \<open>select\<close> in
  \<open>Run\<close> sees, round by round, is a list of \<open>run_input\<close>: when the idle timer fires is left open.
\<close>

section \<open>The processor\<close>

record processor =
  p_MaxSeenTimestamp :: int
  p_AllowedLateness :: int
  p_IdleFlushTimeout :: int
  p_events :: event_heap
  p_nextSequence :: int

text \<open>\<open>time.Duration\<close> counts nanoseconds.\<close>

definition DefaultAllowedLateness :: int where
  "DefaultAllowedLateness = 2 * 1000000000"

definition DefaultAllowedLatenessMicros :: int where
  "DefaultAllowedLatenessMicros = DefaultAllowedLateness div 1000"

definition NewProcessor :: "int \<Rightarrow> processor" where
  "NewProcessor allowedLatenessMicros =
     (let allowed = (if allowedLatenessMicros < 0 then DefaultAllowedLatenessMicros else allowedLatenessMicros) in
      \<lparr>p_MaxSeenTimestamp = 0, p_AllowedLateness = allowed, p_IdleFlushTimeout = 30 * 1000000000,
       p_events = heap_Init [], p_nextSequence = 0\<rparr>)"

definition NewDefaultProcessor :: processor where
  "NewDefaultProcessor = NewProcessor DefaultAllowedLatenessMicros"

definition Enqueue :: "processor \<Rightarrow> order_event \<Rightarrow> processor" where
  "Enqueue p event =
     (let p1 = p\<lparr>p_events := heap_Push (p_events p) \<lparr>qe_event = event, qe_sequence = p_nextSequence p\<rparr>,
                 p_nextSequence := u64 (p_nextSequence p + 1)\<rparr> in
      if ev_eventTimestamp event > p_MaxSeenTimestamp p1
      then p1\<lparr>p_MaxSeenTimestamp := ev_eventTimestamp event\<rparr> else p1)"

definition Watermark :: "processor \<Rightarrow> int" where
  "Watermark p = i64 (p_MaxSeenTimestamp p - p_AllowedLateness p)"

definition proc_send :: "(nat \<Rightarrow> bool) \<Rightarrow> order_event list \<Rightarrow> order_event \<Rightarrow> order_event list option" where
  "proc_send c out event = chan_send c out event"

function EmitReady :: "(nat \<Rightarrow> bool) \<Rightarrow> processor \<Rightarrow> order_event list \<Rightarrow>
    processor \<times> order_event list \<times> ctx_err option" where
  "EmitReady c p out =
     (if p_events p = [] then (p, out, None)
      else if ev_eventTimestamp (fst (heap_Peek (p_events p))) > Watermark p then (p, out, None)
      else (case proc_send c out (qe_event (fst (heap_Pop (p_events p)))) of
              None \<Rightarrow> (p\<lparr>p_events := snd (heap_Pop (p_events p))\<rparr>, out, Some CtxErr)
            | Some out' \<Rightarrow> EmitReady c (p\<lparr>p_events := snd (heap_Pop (p_events p))\<rparr>) out'))"
  by pat_completeness auto
termination
  by (relation "measure (\<lambda>(c, p, out). length (p_events p))") (auto simp: heap_Pop_length)

function proc_Flush :: "(nat \<Rightarrow> bool) \<Rightarrow> processor \<Rightarrow> order_event list \<Rightarrow>
    processor \<times> order_event list \<times> ctx_err option" where
  "proc_Flush c p out =
     (if p_events p = [] then (p, out, None)
      else (case proc_send c out (qe_event (fst (heap_Pop (p_events p)))) of
              None \<Rightarrow> (p\<lparr>p_events := snd (heap_Pop (p_events p))\<rparr>, out, Some CtxErr)
            | Some out' \<Rightarrow> proc_Flush c (p\<lparr>p_events := snd (heap_Pop (p_events p))\<rparr>) out'))"
  by pat_completeness auto
termination
  by (relation "measure (\<lambda>(c, p, out). length (p_events p))") (auto simp: heap_Pop_length)

declare EmitReady.simps [simp del] proc_Flush.simps [simp del]

definition Process :: "(nat \<Rightarrow> bool) \<Rightarrow> processor \<Rightarrow> order_event \<Rightarrow> order_event list \<Rightarrow>
    processor \<times> order_event list \<times> ctx_err option" where
  "Process c p event out =
     (let p' = Enqueue p event in
      if ev_endOfRun event then proc_Flush c p' out else EmitReady c p' out)"

text \<open>The rounds of \<open>Run\<close>. The list ends while the loop still waits (\<open>Running\<close>), or \<open>Run\<close> returns.\<close>

datatype run_input = CtxDone | Received order_event | InClosed | IdleFired

datatype run_result = Running | Returned "ctx_err option"

fun proc_Run :: "(nat \<Rightarrow> bool) \<Rightarrow> processor \<Rightarrow> order_event list \<Rightarrow> run_input list \<Rightarrow>
    processor \<times> order_event list \<times> run_result" where
  "proc_Run c p out [] = (p, out, Running)"
| "proc_Run c p out (CtxDone # rest) = (p, out, Returned (Some CtxErr))"
| "proc_Run c p out (InClosed # rest) =
     (case proc_Flush c p out of (p', out', err) \<Rightarrow> (p', out', Returned err))"
| "proc_Run c p out (Received event # rest) =
     (case Process c p event out of
        (p', out', Some err) \<Rightarrow> (p', out', Returned (Some err))
      | (p', out', None) \<Rightarrow> proc_Run c p' out' rest)"
| "proc_Run c p out (IdleFired # rest) =
     (case proc_Flush c p out of
        (p', out', Some err) \<Rightarrow> (p', out', Returned (Some err))
      | (p', out', None) \<Rightarrow> proc_Run c p' out' rest)"

section \<open>What a round emits\<close>

text \<open>
  Both loops pop a number of entries and send them in that order; when a send fails, the last popped
  entry is neither sent nor kept.
\<close>

definition emits :: "(order_event \<Rightarrow> bool) \<Rightarrow> processor \<Rightarrow> order_event list \<Rightarrow>
    processor \<times> order_event list \<times> ctx_err option \<Rightarrow> bool" where
  "emits ready p out r \<longleftrightarrow> (case r of (p', out', err) \<Rightarrow> \<exists>n xs. n \<le> length (p_events p) \<and>
     pops heap_Pop n (p_events p) = (xs, p_events p') \<and> p' = p\<lparr>p_events := p_events p'\<rparr> \<and>
     out' = out @ map qe_event (if err = None then xs else butlast xs) \<and>
     (err \<noteq> None \<longrightarrow> xs \<noteq> []) \<and> (\<forall>x \<in> set xs. ready (qe_event x)))"

lemma emits_nothing: "emits ready p out (p, out, None)"
  unfolding emits_def by (auto intro!: exI[of _ 0])

lemma emits_fails:
  assumes "p_events p \<noteq> []" and "ready (qe_event (fst (heap_Pop (p_events p))))"
  shows "emits ready p out (p\<lparr>p_events := snd (heap_Pop (p_events p))\<rparr>, out, Some CtxErr)"
  using assms unfolding emits_def by (cases "p_events p") (auto intro!: exI[of _ 1] simp: Let_def split: prod.splits)

lemma emits_more:
  assumes "p_events p \<noteq> []" and "ready (qe_event (fst (heap_Pop (p_events p))))"
    and "emits ready (p\<lparr>p_events := snd (heap_Pop (p_events p))\<rparr>) (out @ [qe_event (fst (heap_Pop (p_events p)))]) r"
  shows "emits ready p out r"
proof -
  let ?x = "fst (heap_Pop (p_events p))" and ?h = "snd (heap_Pop (p_events p))"
  obtain p' out' err where r: "r = (p', out', err)" by (cases r)
  from assms(3) obtain n xs where xs: "n \<le> length ?h" "pops heap_Pop n ?h = (xs, p_events p')"
    "p' = p\<lparr>p_events := p_events p'\<rparr>"
    "out' = (out @ [qe_event ?x]) @ map qe_event (if err = None then xs else butlast xs)"
    "err \<noteq> None \<longrightarrow> xs \<noteq> []" "\<forall>x \<in> set xs. ready (qe_event x)"
    unfolding emits_def r by auto
  have "pops heap_Pop (Suc n) (p_events p) = (?x # xs, p_events p')"
    using xs(2) by (simp add: case_prod_beta Let_def)
  moreover have "Suc n \<le> length (p_events p)"
    using xs(1) assms(1) heap_Pop_length[OF assms(1)] by (cases "p_events p") simp_all
  moreover have "out' = out @ map qe_event (if err = None then ?x # xs else butlast (?x # xs))"
    using xs(4,5) by simp
  ultimately show ?thesis using xs(3,6) assms(2) unfolding emits_def r by (auto intro!: exI[of _ "Suc n"])
qed

lemma Flush_emits: "emits (\<lambda>_. True) p out (proc_Flush c p out)"
proof (induction c p out rule: proc_Flush.induct)
  case (1 c p out)
  show ?case
    by (subst proc_Flush.simps)
      (use 1 in \<open>auto intro: emits_nothing emits_fails emits_more simp: proc_send_def chan_send_def\<close>)
qed

lemma Watermark_events [simp]: "Watermark (p\<lparr>p_events := h\<rparr>) = Watermark p"
  by (simp add: Watermark_def)

lemma EmitReady_emits:
  "heap_ok (p_events p) \<Longrightarrow> emits (\<lambda>ev. ev_eventTimestamp ev \<le> Watermark p) p out (EmitReady c p out)"
proof (induction c p out rule: EmitReady.induct)
  case (1 c p out)
  show ?case
  proof (cases "p_events p = [] \<or> ev_eventTimestamp (fst (heap_Peek (p_events p))) > Watermark p")
    case True
    then show ?thesis by (subst EmitReady.simps) (auto intro: emits_nothing)
  next
    case False
    then have ready: "ev_eventTimestamp (qe_event (fst (heap_Pop (p_events p)))) \<le> Watermark p"
      using "1.prems" False heap_Pop_Peek[of "p_events p"] by (auto simp: not_less)
    have ok: "heap_ok (snd (heap_Pop (p_events p)))" using "1.prems" False heap_Pop_facts by blast
    show ?thesis
    proof (cases "c (length out)")
      case True
      then have "EmitReady c p out = (p\<lparr>p_events := snd (heap_Pop (p_events p))\<rparr>, out, Some CtxErr)"
        using False by (subst EmitReady.simps) (simp add: proc_send_def chan_send_def)
      with False ready show ?thesis by (simp add: emits_fails)
    next
      case send: False
      then have "EmitReady c p out = EmitReady c (p\<lparr>p_events := snd (heap_Pop (p_events p))\<rparr>)
          (out @ [qe_event (fst (heap_Pop (p_events p)))])"
        using False by (subst EmitReady.simps) (simp add: proc_send_def chan_send_def)
      moreover have "emits (\<lambda>ev. ev_eventTimestamp ev \<le> Watermark p) (p\<lparr>p_events := snd (heap_Pop (p_events p))\<rparr>)
          (out @ [qe_event (fst (heap_Pop (p_events p)))])
          (EmitReady c (p\<lparr>p_events := snd (heap_Pop (p_events p))\<rparr>) (out @ [qe_event (fst (heap_Pop (p_events p)))]))"
        using "1.IH"[of "out @ [qe_event (fst (heap_Pop (p_events p)))]"] False send ok
        by (simp add: proc_send_def chan_send_def)
      ultimately show ?thesis using False ready emits_more by simp
    qed
  qed
qed

lemma Flush_empties: "proc_Flush c p out = (p', out', None) \<Longrightarrow> p_events p' = []"
proof (induction c p out rule: proc_Flush.induct)
  case (1 c p out)
  from "1.prems" show ?case
    by (subst (asm) proc_Flush.simps) (use "1.IH" in \<open>auto split: if_splits option.splits\<close>)
qed

abbreviation never :: "nat \<Rightarrow> bool" where
  "never \<equiv> \<lambda>_. False"

lemma Flush_uncancelled: "snd (snd (proc_Flush never p out)) = None"
proof (induction "never" p out rule: proc_Flush.induct)
  case (1 p out)
  then show ?case by (subst proc_Flush.simps) (auto simp: proc_send_def chan_send_def)
qed

lemma EmitReady_uncancelled: "snd (snd (EmitReady never p out)) = None"
proof (induction "never" p out rule: EmitReady.induct)
  case (1 p out)
  then show ?case by (subst EmitReady.simps) (auto simp: proc_send_def chan_send_def)
qed

lemma EmitReady_stops:
  "EmitReady c p out = (p', out', None) \<Longrightarrow>
     p_events p' = [] \<or> Watermark p < ev_eventTimestamp (fst (heap_Peek (p_events p')))"
proof (induction c p out rule: EmitReady.induct)
  case (1 c p out)
  from "1.prems" show ?case
    by (subst (asm) EmitReady.simps) (use "1.IH" in \<open>auto split: if_splits option.splits\<close>)
qed

section \<open>Nothing is lost or invented\<close>

fun received :: "run_input list \<Rightarrow> order_event list" where
  "received [] = []"
| "received (Received ev # ins) = ev # received ins"
| "received (_ # ins) = received ins"

lemma received_append [simp]: "received (xs @ ys) = received xs @ received ys"
  by (induction xs rule: received.induct) simp_all

lemma received_map [simp]: "received (map Received evs) = evs"
  by (induction evs) simp_all

definition held :: "processor \<Rightarrow> order_event multiset" where
  "held p = image_mset qe_event (mset (p_events p))"

lemma emits_held:
  assumes "emits ready p out (p', out', err)" and "heap_ok (p_events p)"
  shows "heap_ok (p_events p') \<and> (\<exists>lost. mset out + held p = mset out' + held p' + lost \<and> size lost \<le> 1 \<and>
    (err = None \<longrightarrow> lost = {#}))"
proof -
  from assms(1) obtain n xs where xs: "n \<le> length (p_events p)" "pops heap_Pop n (p_events p) = (xs, p_events p')"
    "out' = out @ map qe_event (if err = None then xs else butlast xs)" "err \<noteq> None \<longrightarrow> xs \<noteq> []"
    unfolding emits_def by auto
  from eq.pops_spec[OF assms(2) _ xs(2)] xs(1) have ok: "heap_ok (p_events p')"
    and ms: "mset (p_events p) = mset xs + mset (p_events p')" by simp_all
  have "held p = image_mset qe_event (mset xs) + held p'" using ms by (simp add: held_def)
  moreover have "mset xs = mset (butlast xs) + {#last xs#}" if "xs \<noteq> []"
    using that append_butlast_last_id[of xs] by (metis mset_append mset_single_iff_right)
  ultimately show ?thesis
    using ok xs(3,4)
    by (intro conjI exI[of _ "if err = None then {#} else {#qe_event (last xs)#}"]) (auto simp: ac_simps)
qed

lemma Enqueue_held:
  "heap_ok (p_events p) \<Longrightarrow> heap_ok (p_events (Enqueue p ev)) \<and> held (Enqueue p ev) = held p + {#ev#}"
  using heap_Push_heap[of "p_events p"]
  by (simp add: Enqueue_def Let_def held_def heap_ok_def)

lemma proc_Run_conserves:
  assumes "proc_Run c p out ins = (p', out', res)" and "heap_ok (p_events p)"
  shows "\<exists>k lost. mset out + held p + mset (received (take k ins)) = mset out' + held p' + lost \<and>
    size lost \<le> 1 \<and> (res \<noteq> Returned (Some CtxErr) \<longrightarrow> lost = {#}) \<and>
    (res = Running \<longrightarrow> k = length ins) \<and> (res = Returned None \<longrightarrow> held p' = {#} \<and> k < length ins \<and> ins ! k = InClosed)"
  using assms
proof (induction c p out ins rule: proc_Run.induct)
  case (1 c p out)
  then show ?case by (intro exI[of _ 0] exI[of _ "{#}"]) simp
next
  case (2 c p out rest)
  then show ?case by (intro exI[of _ 0] exI[of _ "{#}"]) auto
next
  case (3 c p out rest)
  obtain q o' err where f: "proc_Flush c p out = (q, o', err)" by (cases "proc_Flush c p out")
  with 3 have eqs: "p' = q" "out' = o'" "res = Returned err" by simp_all
  have "emits (\<lambda>_. True) p out (q, o', err)" using Flush_emits[of p out c] f by simp
  from emits_held[OF this 3(2)] obtain lost where lost: "mset out + held p = mset o' + held q + lost"
    "size lost \<le> 1" "err = None \<longrightarrow> lost = {#}" by blast
  moreover have "err = None \<Longrightarrow> held q = {#}" using f Flush_empties by (simp add: held_def)
  moreover have "err = None \<or> err = Some CtxErr" by (cases err) (auto intro: ctx_err.exhaust)
  ultimately show ?case using eqs by (intro exI[of _ 0] exI[of _ lost]) auto
next
  case (4 c p out event rest)
  obtain q o' err where f: "Process c p event out = (q, o', err)" by (cases "Process c p event out")
  have enq: "heap_ok (p_events (Enqueue p event))" "held (Enqueue p event) = held p + {#event#}"
    using Enqueue_held[OF 4(3)] by simp_all
  have "\<exists>ready. emits ready (Enqueue p event) out (q, o', err)"
    using f Flush_emits[of "Enqueue p event" out c] EmitReady_emits[OF enq(1), of out c]
    by (auto simp: Process_def Let_def split: if_splits)
  then obtain lost where lost: "heap_ok (p_events q)"
    "mset out + held (Enqueue p event) = mset o' + held q + lost" "size lost \<le> 1" "err = None \<longrightarrow> lost = {#}"
    using emits_held[OF _ enq(1)] by metis
  show ?case
  proof (cases err)
    case None
    with 4(2) f have run: "proc_Run c q o' rest = (p', out', res)" by simp
    from 4(1)[OF f[symmetric] _ _ run lost(1)] None obtain k lost' where
      k: "mset o' + held q + mset (received (take k rest)) = mset out' + held p' + lost'"
      "size lost' \<le> 1" "res \<noteq> Returned (Some CtxErr) \<longrightarrow> lost' = {#}"
      "res = Running \<longrightarrow> k = length rest" "res = Returned None \<longrightarrow> held p' = {#} \<and> k < length rest \<and> rest ! k = InClosed" by auto
    have "mset out + held p + mset (received (take (Suc k) (Received event # rest))) = mset out' + held p' + lost'"
    proof -
      have "mset o' + held q = mset out + held p + {#event#}" using lost(2,4) None enq(2) by simp
      with k(1) show ?thesis by simp
    qed
    with k show ?thesis by (intro exI[of _ "Suc k"] exI[of _ lost']) auto
  next
    case (Some e)
    then have "e = CtxErr" by (cases e)
    with 4(2) f Some lost enq(2) show ?thesis
      by (intro exI[of _ 1] exI[of _ lost]) (auto simp: ac_simps)
  qed
next
  case (5 c p out rest)
  obtain q o' err where f: "proc_Flush c p out = (q, o', err)" by (cases "proc_Flush c p out")
  have "emits (\<lambda>_. True) p out (q, o', err)" using Flush_emits[of p out c] f by simp
  from emits_held[OF this 5(3)] obtain lost where lost: "heap_ok (p_events q)"
    "mset out + held p = mset o' + held q + lost"
    "size lost \<le> 1" "err = None \<longrightarrow> lost = {#}" by blast
  show ?case
  proof (cases err)
    case None
    with 5(2) f have run: "proc_Run c q o' rest = (p', out', res)" by simp
    from 5(1)[OF f[symmetric] _ _ run lost(1)] None obtain k lost' where
      k: "mset o' + held q + mset (received (take k rest)) = mset out' + held p' + lost'"
      "size lost' \<le> 1" "res \<noteq> Returned (Some CtxErr) \<longrightarrow> lost' = {#}"
      "res = Running \<longrightarrow> k = length rest" "res = Returned None \<longrightarrow> held p' = {#} \<and> k < length rest \<and> rest ! k = InClosed" by auto
    with lost None show ?thesis by (intro exI[of _ "Suc k"] exI[of _ lost']) auto
  next
    case (Some e)
    then have "e = CtxErr" by (cases e)
    with 5(2) f Some lost show ?thesis by (intro exI[of _ 0] exI[of _ lost]) auto
  qed
qed

text \<open>
  C13. Reordering loses and invents nothing: whatever the interleaving of events, idle timeouts, close and
  cancellation, the events that \<open>Run\<close> took from its input are, as a multiset, those it sent, those still
  in the heap, and at most one whose send was cancelled. If the context is not cancelled nothing is lost,
  and when \<open>Run\<close> returns without an error its input was closed and every event has been sent.
\<close>

theorem processor_conserves:
  assumes "proc_Run c (NewProcessor lateness) [] ins = (p, out, res)"
  shows "\<exists>k lost. mset (received (take k ins)) = mset out + held p + lost \<and> size lost \<le> 1 \<and>
    (res \<noteq> Returned (Some CtxErr) \<longrightarrow> lost = {#}) \<and> (res = Running \<longrightarrow> k = length ins) \<and>
    (res = Returned None \<longrightarrow> held p = {#} \<and> k < length ins \<and> ins ! k = InClosed)"
  using proc_Run_conserves[OF assms] by (simp add: NewProcessor_def Let_def held_def)

text \<open>A run that is cancelled while it flushes: one event sent, one lost, one still in the heap.\<close>

definition sample_arrivals :: "order_event list" where
  "sample_arrivals = [zero_event\<lparr>ev_eventTimestamp := 5000, ev_seq := 3\<rparr>,
     zero_event\<lparr>ev_eventTimestamp := 3000, ev_seq := 1\<rparr>,
     zero_event\<lparr>ev_eventTimestamp := 4000, ev_seq := 2\<rparr>]"

lemmas heap_eval = heap_Push_def heap_append_def heap_Pop_def heap_remove_last_def heap_Swap_def
  heap_Less_def qe_less_def heap_up.simps heap_down.simps heap_Peek_def Let_def

lemmas proc_eval = Process_def Enqueue_def EmitReady.simps proc_Flush.simps proc_send_def chan_send_def
  NewProcessor_def Watermark_def DefaultAllowedLatenessMicros_def DefaultAllowedLateness_def u64_def i64_def

lemma sample_cancelled:
  "\<exists>p. proc_Run (\<lambda>n. n = 1) (NewProcessor 2000) [] (map Received sample_arrivals @ [InClosed]) =
     (p, [sample_arrivals ! 1], Returned (Some CtxErr)) \<and> held p = {#sample_arrivals ! 0#}"
  by (simp add: sample_arrivals_def zero_event_def proc_eval heap_eval held_def)

theorem processor_conserves_witness:
  "\<exists>p k lost. mset (received (take k (map Received sample_arrivals @ [InClosed]))) =
     {#sample_arrivals ! 1#} + held p + lost \<and> size lost \<le> 1"
proof -
  obtain p where "proc_Run (\<lambda>n. n = 1) (NewProcessor 2000) [] (map Received sample_arrivals @ [InClosed]) =
     (p, [sample_arrivals ! 1], Returned (Some CtxErr))" using sample_cancelled by blast
  from processor_conserves[OF this] show ?thesis by auto
qed

section \<open>The order of emission\<close>

text \<open>
  The entries that the arrivals \<open>evs\<close> become, and the state after them: the entries \<open>sent\<close> and those in
  the heap are the entries of all arrivals. Fewer than \<open>2 ^ 64\<close> arrivals keep the numbers distinct.
\<close>

definition stamped :: "order_event list \<Rightarrow> queued_event list" where
  "stamped evs = map (\<lambda>i. \<lparr>qe_event = evs ! i, qe_sequence = int i\<rparr>) [0..<length evs]"

definition max_seen :: "order_event list \<Rightarrow> int" where
  "max_seen evs = Max (insert 0 (ev_eventTimestamp ` set evs))"

definition proc_inv :: "order_event list \<Rightarrow> processor \<Rightarrow> queued_event list \<Rightarrow> bool" where
  "proc_inv evs p sent \<longleftrightarrow> heap_ok (p_events p) \<and> mset sent + mset (p_events p) = mset (stamped evs) \<and>
     p_nextSequence p = int (length evs) \<and> p_MaxSeenTimestamp p = max_seen evs"

lemma stamped_snoc: "stamped (evs @ [ev]) = stamped evs @ [\<lparr>qe_event = ev, qe_sequence = int (length evs)\<rparr>]"
  by (auto simp: stamped_def nth_append)

lemma max_seen_snoc: "max_seen (evs @ [ev]) = max (max_seen evs) (ev_eventTimestamp ev)"
proof -
  have "insert 0 (ev_eventTimestamp ` set (evs @ [ev])) = insert (ev_eventTimestamp ev) (insert 0 (ev_eventTimestamp ` set evs))"
    by auto
  then show ?thesis unfolding max_seen_def by (simp only: Max_insert finite.intros finite_imageI finite_set insert_not_empty) (simp add: max.commute)
qed

lemma max_seen_upper: "ev \<in> set evs \<Longrightarrow> ev_eventTimestamp ev \<le> max_seen evs" and max_seen_nonneg: "0 \<le> max_seen evs"
  by (simp_all add: max_seen_def)

lemma proc_inv_New: "proc_inv [] (NewProcessor lateness) []"
  by (simp add: proc_inv_def NewProcessor_def Let_def stamped_def max_seen_def)

lemma Enqueue_inv:
  assumes "proc_inv evs p sent" and "int (length evs) + 1 < 2 ^ 64"
  shows "proc_inv (evs @ [ev]) (Enqueue p ev) sent \<and> p_AllowedLateness (Enqueue p ev) = p_AllowedLateness p"
  using assms heap_Push_heap[of "p_events p" "\<lparr>qe_event = ev, qe_sequence = p_nextSequence p\<rparr>"]
  by (auto simp: proc_inv_def Enqueue_def Let_def heap_ok_def stamped_snoc max_seen_snoc u64_def)

lemma emits_inv:
  assumes "proc_inv evs p sent" and "emits ready p out (p', out', None)"
  obtains xs where "proc_inv evs p' (sent @ xs)" "out' = out @ map qe_event xs"
    "p_AllowedLateness p' = p_AllowedLateness p" "Watermark p' = Watermark p"
    "sorted_wrt (\<lambda>x y. \<not> qe_less y x) xs" "\<forall>x \<in> set xs. ready (qe_event x)"
    "\<forall>x \<in> set xs. \<forall>y \<in> set (p_events p'). \<not> qe_less y x"
proof -
  from assms(2) obtain n xs where xs: "n \<le> length (p_events p)" "pops heap_Pop n (p_events p) = (xs, p_events p')"
    "p' = p\<lparr>p_events := p_events p'\<rparr>" "out' = out @ map qe_event xs" "\<forall>x \<in> set xs. ready (qe_event x)"
    unfolding emits_def by auto
  have ok: "heap_ok (p_events p)" using assms(1) by (simp add: proc_inv_def)
  have spec: "heap_ok (p_events p') \<and> mset (p_events p) = mset xs + mset (p_events p') \<and>
      sorted_wrt (\<lambda>x y. \<not> qe_less y x) xs \<and> (\<forall>x \<in> set xs. \<forall>y \<in> set (p_events p'). \<not> qe_less y x)"
    using eq.pops_spec[OF ok _ xs(2)] xs(1) by simp
  have fields: "p_AllowedLateness p' = p_AllowedLateness p" "p_MaxSeenTimestamp p' = p_MaxSeenTimestamp p"
    "p_nextSequence p' = p_nextSequence p"
    by (subst xs(3), simp)+
  show thesis
    using spec fields assms(1) xs(4,5)
    by (intro that[of xs]) (auto simp: proc_inv_def Watermark_def ac_simps)
qed

text \<open>Entries in heap order are the stable sort of the arrivals by time.\<close>

lemma stamped_nth: "q \<in> set (stamped evs) \<Longrightarrow> 0 \<le> qe_sequence q \<and> nat (qe_sequence q) < length evs \<and>
    qe_event q = evs ! nat (qe_sequence q)"
  by (auto simp: stamped_def)

lemma stamped_seq: "map qe_sequence (stamped evs) = map int [0..<length evs]"
  by (simp add: stamped_def)

lemma stamped_events: "map qe_event (stamped evs) = evs"
  by (rule nth_equalityI) (simp_all add: stamped_def)

lemma stamped_sorted: "sorted_wrt (\<lambda>x y. qe_sequence x < qe_sequence y) (stamped evs)"
  by (simp add: stamped_def sorted_wrt_map)

lemma sort_key_map: "sort_key f (map g xs) = map g (sort_key (\<lambda>x. f (g x)) xs)"
proof -
  have ins: "insort_key f (g x) (map g ys) = map g (insort_key (\<lambda>x. f (g x)) x ys)" for x ys
    by (induction ys) simp_all
  show ?thesis by (induction xs) (simp_all add: ins)
qed

lemma heap_order_is_stable_sort:
  assumes "mset xs = mset (stamped evs)" and "sorted_wrt (\<lambda>x y. \<not> qe_less y x) xs"
  shows "map qe_event xs = sort_key ev_eventTimestamp evs"
proof -
  let ?ts = "\<lambda>q. ev_eventTimestamp (qe_event q)"
  have set: "set xs = set (stamped evs)" using assms(1) by (metis set_mset_mset)
  have inj: "inj_on qe_sequence (set xs)"
    unfolding set using stamped_seq[of evs] by (metis (no_types) distinct_map distinct_upt inj_on_of_nat)
  have dist: "distinct xs"
    using assms(1) stamped_seq[of evs] by (metis distinct_map distinct_upt inj_on_of_nat mset_eq_imp_distinct_iff)
  have "sort_key ?ts (stamped evs) = xs"
  proof (rule properties_for_sort_key)
    show "mset xs = mset (stamped evs)" by (rule assms(1))
    show "sorted (map ?ts xs)"
      unfolding sorted_wrt_map sorted_map using assms(2)
      by (rule sorted_wrt_mono_rel[rotated]) (auto simp: qe_less_def split: if_splits)
    fix k assume "k \<in> set xs"
    let ?P = "\<lambda>x. ?ts k = ?ts x"
    have "sorted_wrt (\<lambda>x y. qe_sequence x \<le> qe_sequence y) (filter ?P xs)"
    proof -
      have "sorted_wrt (\<lambda>x y. \<not> qe_less y x) (filter ?P xs)" by (rule sorted_wrt_filter[OF assms(2)])
      then show ?thesis by (rule sorted_wrt_mono_rel[rotated]) (auto simp: qe_less_def)
    qed
    moreover have "distinct (filter ?P (stamped evs))"
      using dist mset_eq_imp_distinct_iff[OF assms(1)] by (intro distinct_filter) simp
    moreover have "sorted_wrt (\<lambda>x y. qe_sequence x \<le> qe_sequence y) (filter ?P (stamped evs))"
      by (rule sorted_wrt_filter) (rule sorted_wrt_mono_rel[OF _ stamped_sorted], simp)
    ultimately have "map qe_sequence (filter ?P xs) = map qe_sequence (filter ?P (stamped evs))"
      using dist set inj stamped_seq[of evs]
      by (intro sorted_distinct_set_unique)
        (auto simp: sorted_wrt_map distinct_map intro: inj_on_subset)
    then show "filter ?P xs = filter ?P (stamped evs)"
      by (rule map_inj_on) (rule inj_on_subset[OF inj], use set in auto)
  qed
  then have "map qe_event xs = map qe_event (sort_key ?ts (stamped evs))" by simp
  also have "\<dots> = sort_key ev_eventTimestamp (map qe_event (stamped evs))" by (simp only: sort_key_map)
  finally show ?thesis by (simp only: stamped_events)
qed

lemma proc_Run_append:
  "proc_Run c p out xs = (p', out', Running) \<Longrightarrow> proc_Run c p out (xs @ ys) = proc_Run c p' out' ys"
  by (induction c p out xs rule: proc_Run.induct) (auto split: prod.splits option.splits)

lemma Flush_inv:
  assumes "proc_inv evs p sent"
  obtains p' xs where "proc_Flush never p out = (p', out @ map qe_event xs, None)" "proc_inv evs p' (sent @ xs)"
    "p_AllowedLateness p' = p_AllowedLateness p" "p_events p' = []" "sorted_wrt (\<lambda>x y. \<not> qe_less y x) xs"
proof -
  obtain p' out' err where f: "proc_Flush never p out = (p', out', err)" by (cases "proc_Flush never p out")
  then have none: "err = None" using Flush_uncancelled[of p out] by simp
  have "emits (\<lambda>_. True) p out (p', out', None)" using Flush_emits[of p out never] f none by simp
  then show thesis
    by (rule emits_inv[OF assms]) (use f none Flush_empties that in auto)
qed

lemma Process_inv:
  assumes "proc_inv evs p sent" and "int (length evs) + 1 < 2 ^ 64"
  obtains p' xs where "Process never p ev out = (p', out @ map qe_event xs, None)"
    "proc_inv (evs @ [ev]) p' (sent @ xs)" "p_AllowedLateness p' = p_AllowedLateness p"
    "sorted_wrt (\<lambda>x y. \<not> qe_less y x) xs"
    "ev_endOfRun ev \<Longrightarrow> p_events p' = []"
    "\<not> ev_endOfRun ev \<Longrightarrow> \<forall>x \<in> set xs. ev_eventTimestamp (qe_event x) \<le> Watermark p'"
    "\<not> ev_endOfRun ev \<Longrightarrow> \<forall>x \<in> set (p_events p'). Watermark p' < ev_eventTimestamp (qe_event x)"
proof -
  have enq: "proc_inv (evs @ [ev]) (Enqueue p ev) sent" "p_AllowedLateness (Enqueue p ev) = p_AllowedLateness p"
    using Enqueue_inv[OF assms] by simp_all
  show thesis
  proof (cases "ev_endOfRun ev")
    case True
    obtain p' xs where "proc_Flush never (Enqueue p ev) out = (p', out @ map qe_event xs, None)"
      "proc_inv (evs @ [ev]) p' (sent @ xs)" "p_AllowedLateness p' = p_AllowedLateness (Enqueue p ev)"
      "p_events p' = []" "sorted_wrt (\<lambda>x y. \<not> qe_less y x) xs"
      by (rule Flush_inv[OF enq(1)])
    with True enq(2) show thesis by (intro that[of p' xs]) (simp_all add: Process_def Let_def)
  next
    case False
    let ?q = "Enqueue p ev"
    obtain p' out' err where f: "EmitReady never ?q out = (p', out', err)" by (cases "EmitReady never ?q out")
    then have none: "err = None" using EmitReady_uncancelled[of ?q out] by simp
    have ok: "heap_ok (p_events ?q)" using enq(1) by (simp add: proc_inv_def)
    have "emits (\<lambda>ev. ev_eventTimestamp ev \<le> Watermark ?q) ?q out (p', out', None)"
      using EmitReady_emits[OF ok, of out never] f none by simp
    from emits_inv[OF enq(1) this] obtain xs where xs: "proc_inv (evs @ [ev]) p' (sent @ xs)"
      "out' = out @ map qe_event xs" "p_AllowedLateness p' = p_AllowedLateness ?q" "Watermark p' = Watermark ?q"
      "sorted_wrt (\<lambda>x y. \<not> qe_less y x) xs" "\<forall>x \<in> set xs. ev_eventTimestamp (qe_event x) \<le> Watermark ?q" by metis
    have ok': "heap_ok (p_events p')" using xs(1) by (simp add: proc_inv_def)
    have "p_events p' = [] \<or> Watermark ?q < ev_eventTimestamp (fst (heap_Peek (p_events p')))"
      using EmitReady_stops[of never ?q out p' out'] f none by simp
    then have held: "\<forall>x \<in> set (p_events p'). Watermark p' < ev_eventTimestamp (qe_event x)"
      using heap_Pop_facts[OF ok'] xs(4) by (force simp: heap_Peek_def qe_less_def split: if_splits)
    from False f none xs enq(2) held show thesis by (intro that[of p' xs]) (simp_all add: Process_def Let_def)
  qed
qed

lemma proc_Run_inv:
  assumes "CtxDone \<notin> set ins" and "InClosed \<notin> set ins" and "int (length (received ins)) < 2 ^ 64"
  shows "\<exists>p sent. proc_Run never (NewProcessor lateness) [] ins = (p, map qe_event sent, Running) \<and>
    proc_inv (received ins) p sent \<and> p_AllowedLateness p = p_AllowedLateness (NewProcessor lateness)"
  using assms
proof (induction ins rule: rev_induct)
  case Nil
  then show ?case using proc_inv_New by (intro exI[of _ "NewProcessor lateness"] exI[of _ "[]"]) simp
next
  case (snoc i ins)
  from snoc.IH snoc.prems obtain p sent where IH:
    "proc_Run never (NewProcessor lateness) [] ins = (p, map qe_event sent, Running)"
    "proc_inv (received ins) p sent" "p_AllowedLateness p = p_AllowedLateness (NewProcessor lateness)" by auto
  from snoc.prems consider ev where "i = Received ev" | "i = IdleFired" by (cases i) auto
  then show ?case
  proof cases
    case 1
    have "int (length (received ins)) + 1 < 2 ^ 64" using snoc.prems(3) 1 by simp
    from Process_inv[OF IH(2) this, of ev "map qe_event sent"] obtain p' xs where
      "Process never p ev (map qe_event sent) = (p', map qe_event sent @ map qe_event xs, None)"
      "proc_inv (received ins @ [ev]) p' (sent @ xs)" "p_AllowedLateness p' = p_AllowedLateness p" by metis
    then show ?thesis using 1 proc_Run_append[OF IH(1)] IH(3)
      by (intro exI[of _ p'] exI[of _ "sent @ xs"]) simp
  next
    case 2
    from Flush_inv[OF IH(2), of "map qe_event sent"] obtain p' xs where
      "proc_Flush never p (map qe_event sent) = (p', map qe_event sent @ map qe_event xs, None)"
      "proc_inv (received ins) p' (sent @ xs)" "p_AllowedLateness p' = p_AllowedLateness p" by metis
    then show ?thesis using 2 proc_Run_append[OF IH(1)] IH(3)
      by (intro exI[of _ p'] exI[of _ "sent @ xs"]) simp
  qed
qed

section \<open>The watermark\<close>

text \<open>The watermark does not wrap around.\<close>

definition stream_fits :: "order_event list \<Rightarrow> bool" where
  "stream_fits evs \<longleftrightarrow> (\<forall>ev \<in> set evs. in_i64 (ev_eventTimestamp ev)) \<and> int (length evs) < 2 ^ 64"

lemma max_seen_in_i64: "stream_fits evs \<Longrightarrow> in_i64 (max_seen evs)"
proof -
  assume a: "stream_fits evs"
  have "max_seen evs \<in> insert 0 (ev_eventTimestamp ` set evs)" unfolding max_seen_def by (rule Max_in) simp_all
  then show ?thesis using a by (auto simp: stream_fits_def in_i64_def)
qed

lemma Watermark_exact:
  assumes "proc_inv evs p sent" and "stream_fits evs" and "0 \<le> p_AllowedLateness p" "in_i64 (p_AllowedLateness p)"
  shows "Watermark p = max_seen evs - p_AllowedLateness p"
  using assms max_seen_in_i64[OF assms(2)] max_seen_nonneg[of evs]
  by (auto simp: proc_inv_def Watermark_def in_i64_def intro!: i64_id)

text \<open>Every event arrives at most the allowed lateness after a newer one.\<close>

definition on_time :: "int \<Rightarrow> order_event list \<Rightarrow> bool" where
  "on_time lateness evs \<longleftrightarrow>
     (\<forall>i < length evs. max_seen (take i evs) - lateness \<le> ev_eventTimestamp (evs ! i))"

lemma on_time_snoc:
  "on_time lateness (evs @ [ev]) \<longleftrightarrow> on_time lateness evs \<and> max_seen evs - lateness \<le> ev_eventTimestamp ev"
  unfolding on_time_def by (auto simp: less_Suc_eq nth_append)

lemma new_entries:
  assumes "proc_inv evs p sent" and "proc_inv (evs @ [ev]) p' (sent @ xs)" and "y \<in> set xs"
  shows "y = \<lparr>qe_event = ev, qe_sequence = int (length evs)\<rparr> \<or> y \<in> set (p_events p)"
proof -
  have "mset sent + mset (p_events p) = mset (stamped evs)" using assms(1) by (simp add: proc_inv_def)
  moreover have "mset (sent @ xs) + mset (p_events p') = mset (stamped (evs @ [ev]))"
    using assms(2) by (simp add: proc_inv_def)
  ultimately have "mset sent + (mset xs + mset (p_events p')) =
      mset sent + add_mset \<lparr>qe_event = ev, qe_sequence = int (length evs)\<rparr> (mset (p_events p))"
    by (simp add: stamped_snoc add.assoc)
  then have "mset xs + mset (p_events p') =
      add_mset \<lparr>qe_event = ev, qe_sequence = int (length evs)\<rparr> (mset (p_events p))"
    by (simp only: add_left_cancel)
  then have "y \<in># add_mset \<lparr>qe_event = ev, qe_sequence = int (length evs)\<rparr> (mset (p_events p))"
    using assms(3) by (metis set_mset_mset union_iff)
  then show ?thesis by auto
qed

lemma new_after_sent:
  assumes "proc_inv evs p sent" and "proc_inv (evs @ [ev]) p' (sent @ xs)"
    and "\<forall>x \<in> set sent. ev_eventTimestamp (qe_event x) \<le> W"
    and "\<forall>x \<in> set (p_events p). W < ev_eventTimestamp (qe_event x)"
    and "W \<le> ev_eventTimestamp ev"
  shows "\<forall>x \<in> set sent. \<forall>y \<in> set xs. \<not> qe_less y x"
proof (intro ballI)
  fix x y assume x: "x \<in> set sent" and y: "y \<in> set xs"
  from new_entries[OF assms(1,2) y] show "\<not> qe_less y x"
  proof
    assume 1: "y = \<lparr>qe_event = ev, qe_sequence = int (length evs)\<rparr>"
    have "x \<in># mset (stamped evs)"
      using x assms(1) unfolding proc_inv_def by (metis set_mset_mset union_iff)
    then have "qe_sequence x < int (length evs)" by (auto simp: stamped_def)
    moreover have "ev_eventTimestamp (qe_event x) \<le> ev_eventTimestamp ev" using assms(3,5) x by force
    ultimately show ?thesis using 1 by (simp add: qe_less_def)
  next
    assume "y \<in> set (p_events p)"
    then show ?thesis using assms(3,4) x by (force simp: qe_less_def)
  qed
qed

lemma proc_Run_body:
  assumes "\<forall>ev \<in> set evs. \<not> ev_endOfRun ev" and "stream_fits evs" and "0 \<le> lateness" and "in_i64 lateness"
  shows "\<exists>p sent. proc_Run never (NewProcessor lateness) [] (map Received evs) = (p, map qe_event sent, Running) \<and>
    proc_inv evs p sent \<and> p_AllowedLateness p = lateness \<and>
    (\<forall>x \<in> set sent. ev_eventTimestamp (qe_event x) \<le> max_seen evs - lateness) \<and>
    (\<forall>x \<in> set (p_events p). max_seen evs - lateness < ev_eventTimestamp (qe_event x)) \<and>
    (on_time lateness evs \<longrightarrow> sorted_wrt (\<lambda>x y. \<not> qe_less y x) sent)"
  using assms(1,2)
proof (induction evs rule: rev_induct)
  case Nil
  then show ?case using proc_inv_New[of lateness] assms(3)
    by (intro exI[of _ "NewProcessor lateness"] exI[of _ "[]"]) (auto simp: NewProcessor_def Let_def)
next
  case (snoc ev evs)
  have fits: "stream_fits evs" "int (length evs) + 1 < 2 ^ 64" using snoc.prems(2) by (simp_all add: stream_fits_def)
  with snoc obtain p sent where IH: "proc_Run never (NewProcessor lateness) [] (map Received evs) = (p, map qe_event sent, Running)"
    "proc_inv evs p sent" "p_AllowedLateness p = lateness"
    "\<forall>x \<in> set sent. ev_eventTimestamp (qe_event x) \<le> max_seen evs - lateness"
    "\<forall>x \<in> set (p_events p). max_seen evs - lateness < ev_eventTimestamp (qe_event x)"
    "on_time lateness evs \<longrightarrow> sorted_wrt (\<lambda>x y. \<not> qe_less y x) sent" by auto
  have ord: "\<not> ev_endOfRun ev" using snoc.prems(1) by simp
  from Process_inv[OF IH(2) fits(2), of ev "map qe_event sent"] ord obtain p' xs where
    P: "Process never p ev (map qe_event sent) = (p', map qe_event sent @ map qe_event xs, None)"
    "proc_inv (evs @ [ev]) p' (sent @ xs)" "p_AllowedLateness p' = p_AllowedLateness p"
    "sorted_wrt (\<lambda>x y. \<not> qe_less y x) xs"
    "\<forall>x \<in> set xs. ev_eventTimestamp (qe_event x) \<le> Watermark p'"
    "\<forall>x \<in> set (p_events p'). Watermark p' < ev_eventTimestamp (qe_event x)" by metis
  have wm: "Watermark p' = max_seen (evs @ [ev]) - lateness"
    using Watermark_exact[OF P(2) snoc.prems(2)] P(3) IH(3) assms(3,4) by simp
  have mono: "max_seen evs \<le> max_seen (evs @ [ev])" by (simp add: max_seen_snoc)
  have below: "\<forall>x \<in> set (sent @ xs). ev_eventTimestamp (qe_event x) \<le> max_seen (evs @ [ev]) - lateness"
    using IH(4) P(5) wm mono by fastforce
  have sorted: "sorted_wrt (\<lambda>x y. \<not> qe_less y x) (sent @ xs)" if late: "on_time lateness (evs @ [ev])"
  proof -
    have "\<forall>x \<in> set sent. \<forall>y \<in> set xs. \<not> qe_less y x"
      using late by (intro new_after_sent[OF IH(2) P(2) IH(4,5)]) (simp add: on_time_snoc)
    with IH(6) P(4) late show ?thesis by (simp add: sorted_wrt_append on_time_snoc)
  qed
  show ?case
    using P wm below sorted IH(3) proc_Run_append[OF IH(1), of "[Received ev]"]
    by (intro exI[of _ p'] exI[of _ "sent @ xs"]) simp
qed

text \<open>
  C37. The processor releases exactly what is behind the watermark: after any events without an end marker,
  whatever their order, the events sent are those whose time is at most the largest time seen minus the
  allowed lateness, the events held are the newer ones, and none is lost. The subtraction does not wrap
  around.
\<close>

theorem processor_watermark_exact:
  assumes "\<forall>ev \<in> set evs. \<not> ev_endOfRun ev" and "stream_fits evs" and "0 \<le> lateness" and "in_i64 lateness"
  shows "\<exists>p out. proc_Run never (NewProcessor lateness) [] (map Received evs) = (p, out, Running) \<and>
    Watermark p = max_seen evs - lateness \<and>
    mset out = filter_mset (\<lambda>ev. ev_eventTimestamp ev \<le> max_seen evs - lateness) (mset evs) \<and>
    held p = filter_mset (\<lambda>ev. max_seen evs - lateness < ev_eventTimestamp ev) (mset evs)"
proof -
  obtain p sent where r: "proc_Run never (NewProcessor lateness) [] (map Received evs) = (p, map qe_event sent, Running)"
    "proc_inv evs p sent" "p_AllowedLateness p = lateness"
    "\<forall>x \<in> set sent. ev_eventTimestamp (qe_event x) \<le> max_seen evs - lateness"
    "\<forall>x \<in> set (p_events p). max_seen evs - lateness < ev_eventTimestamp (qe_event x)"
    using proc_Run_body[OF assms] by blast
  have "mset (map qe_event sent) + held p = image_mset qe_event (mset (stamped evs))"
    using r(2) by (simp add: proc_inv_def held_def flip: image_mset_union)
  also have "\<dots> = mset evs" by (simp flip: mset_map add: stamped_events)
  finally have split: "mset evs = mset (map qe_event sent) + held p" by simp
  let ?P = "\<lambda>ev. ev_eventTimestamp ev \<le> max_seen evs - lateness"
  have "filter_mset ?P (mset (map qe_event sent)) = mset (map qe_event sent)" "filter_mset ?P (held p) = {#}"
    "filter_mset (\<lambda>ev. \<not> ?P ev) (mset (map qe_event sent)) = {#}" "filter_mset (\<lambda>ev. \<not> ?P ev) (held p) = held p"
    using r(4,5) by (auto simp: filter_mset_eq_conv held_def not_le)
  then show ?thesis
    using r(1) Watermark_exact[OF r(2) assms(2)] r(3) assms(3,4) split
    by (intro exI[of _ p] exI[of _ "map qe_event sent"]) (simp add: not_le)
qed

theorem processor_watermark_exact_witness:
  "\<exists>p out. proc_Run never (NewProcessor 1500) [] (map Received sample_arrivals) = (p, out, Running) \<and>
    mset out = filter_mset (\<lambda>ev. ev_eventTimestamp ev \<le> max_seen sample_arrivals - 1500) (mset sample_arrivals)"
  using processor_watermark_exact[of sample_arrivals 1500]
  by (auto simp: sample_arrivals_def zero_event_def stream_fits_def in_i64_def)

lemma inv_drained:
  "proc_inv evs p sent \<Longrightarrow> p_events p = [] \<Longrightarrow> sorted_wrt (\<lambda>x y. \<not> qe_less y x) sent \<Longrightarrow>
     map qe_event sent = sort_key ev_eventTimestamp evs"
  by (rule heap_order_is_stable_sort) (simp_all add: proc_inv_def)

text \<open>
  C11. When the disorder of the arrivals is within the allowed lateness, the processor sorts: after the
  input closes it has sent precisely the arrivals, stably sorted by event time, and returned without an
  error; and an end marker that arrives within the same bound makes it send the sorted stream at once.
\<close>

theorem processor_sorts:
  assumes "\<forall>ev \<in> set evs. \<not> ev_endOfRun ev" and "0 \<le> lateness" and "in_i64 lateness"
    and "ev_endOfRun fin" and "stream_fits (evs @ [fin])" and "on_time lateness (evs @ [fin])"
  shows "(\<exists>p. proc_Run never (NewProcessor lateness) [] (map Received evs @ [InClosed]) =
      (p, sort_key ev_eventTimestamp evs, Returned None)) \<and>
    (\<exists>p. proc_Run never (NewProcessor lateness) [] (map Received (evs @ [fin])) =
      (p, sort_key ev_eventTimestamp (evs @ [fin]), Running))"
proof
  have fits: "stream_fits evs" "int (length evs) + 1 < 2 ^ 64" using assms(5) by (simp_all add: stream_fits_def)
  have late: "on_time lateness evs" "max_seen evs - lateness \<le> ev_eventTimestamp fin"
    using assms(6) by (simp_all add: on_time_snoc)
  obtain p sent where r: "proc_Run never (NewProcessor lateness) [] (map Received evs) = (p, map qe_event sent, Running)"
    "proc_inv evs p sent" "\<forall>x \<in> set sent. ev_eventTimestamp (qe_event x) \<le> max_seen evs - lateness"
    "\<forall>x \<in> set (p_events p). max_seen evs - lateness < ev_eventTimestamp (qe_event x)"
    "sorted_wrt (\<lambda>x y. \<not> qe_less y x) sent"
    using proc_Run_body[OF assms(1) fits(1) assms(2,3)] late(1) by blast
  from Flush_inv[OF r(2), of "map qe_event sent"] obtain p' xs where f:
    "proc_Flush never p (map qe_event sent) = (p', map qe_event sent @ map qe_event xs, None)"
    "proc_inv evs p' (sent @ xs)" "p_events p' = []" "sorted_wrt (\<lambda>x y. \<not> qe_less y x) xs" by metis
  have "mset sent + (mset xs + mset (p_events p')) = mset sent + mset (p_events p)"
    using f(2) r(2) by (simp add: proc_inv_def add.assoc)
  then have "set xs \<subseteq> set (p_events p)" by (metis add_left_cancel f(3) mset.simps(1) add.right_neutral set_mset_mset subset_refl)
  then have "\<forall>x \<in> set sent. \<forall>y \<in> set xs. \<not> qe_less y x" using r(3,4) by (force simp: qe_less_def)
  then have "map qe_event (sent @ xs) = sort_key ev_eventTimestamp evs"
    using r(5) f by (intro inv_drained[OF f(2)]) (simp_all add: sorted_wrt_append)
  with f(1) show "\<exists>p. proc_Run never (NewProcessor lateness) [] (map Received evs @ [InClosed]) =
      (p, sort_key ev_eventTimestamp evs, Returned None)"
    by (simp add: proc_Run_append[OF r(1)])
  from Process_inv[OF r(2) fits(2), of fin "map qe_event sent"] assms(4) obtain p' xs where g:
    "Process never p fin (map qe_event sent) = (p', map qe_event sent @ map qe_event xs, None)"
    "proc_inv (evs @ [fin]) p' (sent @ xs)" "p_events p' = []" "sorted_wrt (\<lambda>x y. \<not> qe_less y x) xs" by metis
  have "map qe_event (sent @ xs) = sort_key ev_eventTimestamp (evs @ [fin])"
    using r(5) g new_after_sent[OF r(2) g(2) r(3,4) late(2)]
    by (intro inv_drained[OF g(2)]) (simp_all add: sorted_wrt_append)
  with g(1) show "\<exists>p. proc_Run never (NewProcessor lateness) [] (map Received (evs @ [fin])) =
      (p, sort_key ev_eventTimestamp (evs @ [fin]), Running)"
    by (simp add: proc_Run_append[OF r(1)])
qed

theorem processor_sorts_witness:
  "\<exists>p. proc_Run never (NewProcessor 2000) [] (map Received sample_arrivals @ [InClosed]) =
     (p, [sample_arrivals ! 1, sample_arrivals ! 2, sample_arrivals ! 0], Returned None)"
  using processor_sorts[of sample_arrivals 2000 "zero_event\<lparr>ev_eventTimestamp := 6000, ev_endOfRun := True\<rparr>"]
  by (simp add: sample_arrivals_def zero_event_def stream_fits_def in_i64_def on_time_def max_seen_def
      less_Suc_eq numeral_3_eq_3)

section \<open>The end marker\<close>

lemma marker_last_rel:
  assumes "CtxDone \<notin> set ins" and "InClosed \<notin> set ins" and "int (length (received ins)) + 1 < 2 ^ 64"
    and "ev_endOfRun fin" and "\<forall>ev \<in> set (received ins). ev_eventTimestamp ev \<le> ev_eventTimestamp fin"
  shows "\<exists>p out. proc_Run never (NewProcessor lateness) [] (ins @ [Received fin]) = (p, out @ [fin], Running) \<and>
    mset out = mset (received ins)"
proof -
  let ?evs = "received ins" and ?fin = "\<lparr>qe_event = fin, qe_sequence = int (length (received ins))\<rparr>"
  from proc_Run_inv[OF assms(1,2), of lateness] assms(3) obtain p sent where r:
    "proc_Run never (NewProcessor lateness) [] ins = (p, map qe_event sent, Running)" "proc_inv ?evs p sent" by auto
  from Process_inv[OF r(2) assms(3), of fin "map qe_event sent"] assms(4) obtain p' xs where g:
    "Process never p fin (map qe_event sent) = (p', map qe_event sent @ map qe_event xs, None)"
    "proc_inv (?evs @ [fin]) p' (sent @ xs)" "p_events p' = []" "sorted_wrt (\<lambda>x y. \<not> qe_less y x) xs" by metis
  have all: "mset sent + mset xs = add_mset ?fin (mset (stamped ?evs))"
    using g(2,3) by (simp add: proc_inv_def stamped_snoc)
  have old: "qe_less y ?fin" if "y \<in> set (stamped ?evs)" for y
  proof -
    from that obtain i where i: "i < length ?evs" "y = \<lparr>qe_event = ?evs ! i, qe_sequence = int i\<rparr>"
      by (auto simp: stamped_def)
    then have "ev_eventTimestamp (?evs ! i) \<le> ev_eventTimestamp fin" using assms(5) nth_mem by blast
    with i show ?thesis by (simp add: qe_less_def)
  qed
  have "?fin \<notin> set (stamped ?evs)" by (auto simp: stamped_def)
  moreover have "set sent \<subseteq> set (stamped ?evs)"
    using r(2) unfolding proc_inv_def by (metis set_mset_mset UnI1 set_mset_union subsetI)
  ultimately have mem: "?fin \<in> set xs" using all by (metis set_mset_mset subsetD union_iff union_single_eq_member)
  then obtain ys z where ys: "xs = ys @ [z]" by (metis append_butlast_last_id empty_iff list.set(1))
  have "z = ?fin"
  proof (rule ccontr)
    assume ne: "z \<noteq> ?fin"
    then have "?fin \<in> set ys" using mem ys by simp
    then have "\<not> qe_less z ?fin" using g(4) ys by (simp add: sorted_wrt_append)
    moreover have "z \<in># add_mset ?fin (mset (stamped ?evs))" using all ys by (metis union_iff in_multiset_in_set last_in_set last_snoc snoc_eq_iff_butlast)
    ultimately show False using old ne by auto
  qed
  then have "mset (sent @ ys) = mset (stamped ?evs)" using all ys by simp
  then have "mset (map qe_event (sent @ ys)) = mset (map qe_event (stamped ?evs))" by (simp only: mset_map)
  then have "mset (map qe_event (sent @ ys)) = mset ?evs" by (simp only: stamped_events)
  with g(1) ys \<open>z = ?fin\<close> show ?thesis
    by (intro exI[of _ p'] exI[of _ "map qe_event (sent @ ys)"]) (simp add: proc_Run_append[OF r(1)])
qed

text \<open>
  An end marker that is newest in event time completes the stream however late the other events were
  and however often the idle timer has fired: all events received have then been sent, each once, and the
  marker is the last.
\<close>

theorem processor_marker_last:
  assumes "CtxDone \<notin> set ins" and "InClosed \<notin> set ins" and "int (length (received ins)) + 1 < 2 ^ 64"
    and "ev_endOfRun fin" and "\<forall>ev \<in> set (received ins). ev_eventTimestamp ev \<le> ev_eventTimestamp fin"
  shows "\<exists>p out. proc_Run never (NewProcessor lateness) [] (ins @ [Received fin]) = (p, out @ [fin], Running) \<and>
    mset out = mset (received ins)"
  by (rule marker_last_rel[OF assms])

theorem processor_marker_last_witness:
  "\<exists>p out. proc_Run never (NewProcessor 0) []
      (map Received sample_arrivals @ [IdleFired, Received (zero_event\<lparr>ev_eventTimestamp := 6000, ev_endOfRun := True\<rparr>)]) =
     (p, out @ [zero_event\<lparr>ev_eventTimestamp := 6000, ev_endOfRun := True\<rparr>], Running) \<and> mset out = mset sample_arrivals"
  using processor_marker_last[of "map Received sample_arrivals @ [IdleFired]"
      "zero_event\<lparr>ev_eventTimestamp := 6000, ev_endOfRun := True\<rparr>" 0]
  by (auto simp: sample_arrivals_def zero_event_def)

end
