(* ===== verification/Router.thy ===== *)
theory Router
  imports Processor
begin

text \<open>
  The watermark router (\<open>watermark/router.go\<close>): one goroutine with its own processor per submission. The
  router goroutine and the workers are a step relation on one state, a step being one action of one of
  them. The channel \<open>out\<close> that the workers share is the list of the events sent on it; a worker's
  channel is the list of what it holds. What one event makes a processor emit is computed at once and
  sent event by event, so that the sends of different workers interleave freely.
\<close>

section \<open>State\<close>

definition defaultRouterBuffer :: int where
  "defaultRouterBuffer = 8192"

record router =
  ro_AllowedLateness :: int
  ro_WorkerBuffer :: int

definition NewRouter :: "int \<Rightarrow> router" where
  "NewRouter allowedLatenessMicros =
     \<lparr>ro_AllowedLateness = allowedLatenessMicros, ro_WorkerBuffer = defaultRouterBuffer\<rparr>"

definition worker_capacity :: "router \<Rightarrow> nat" where
  "worker_capacity r = nat (if ro_WorkerBuffer r \<le> 0 then defaultRouterBuffer else ro_WorkerBuffer r)"

text \<open>A worker that drains has seen its channel closed and sends what its last flush emitted.\<close>

record rworker =
  wk_proc :: processor
  wk_in :: "order_event list"
  wk_closed :: bool
  wk_pending :: "order_event list"
  wk_draining :: bool
  wk_exited :: bool

definition worker_start :: "int \<Rightarrow> rworker" where
  "worker_start lateness = \<lparr>wk_proc = NewProcessor lateness, wk_in = [], wk_closed = False, wk_pending = [],
     wk_draining = False, wk_exited = False\<rparr>"

definition worker_process :: "order_event \<Rightarrow> rworker \<Rightarrow> rworker" where
  "worker_process ev w = (case Process never (wk_proc w) ev [] of (p, out, _) \<Rightarrow> w\<lparr>wk_proc := p, wk_pending := out\<rparr>)"

definition worker_flush :: "rworker \<Rightarrow> rworker" where
  "worker_flush w = (case proc_Flush never (wk_proc w) [] of (p, out, _) \<Rightarrow> w\<lparr>wk_proc := p, wk_pending := out\<rparr>)"

datatype router_phase = RtReceiving | RtSending order_event | RtDraining | RtClosed

record router_sys =
  rt_workers :: "(string, rworker) gomap"
  rt_out :: "order_event list"
  rt_ctxDone :: bool
  rt_phase :: router_phase

definition router_init :: router_sys where
  "router_init = \<lparr>rt_workers = [], rt_out = [], rt_ctxDone = False, rt_phase = RtReceiving\<rparr>"

definition put_worker :: "string \<Rightarrow> rworker \<Rightarrow> router_sys \<Rightarrow> router_sys" where
  "put_worker sid w s = s\<lparr>rt_workers := gm_put sid w (rt_workers s)\<rparr>"

text \<open>Receiving an event: it is dropped, or the router goes on to send it to its worker.\<close>

definition router_receive :: "int \<Rightarrow> order_event \<Rightarrow> router_sys \<Rightarrow> router_sys" where
  "router_receive lateness event s =
     (let sid = ev_submissionID event in
      if sid = [] then s
      else (let s' = (case gm_get (rt_workers s) sid of
                        None \<Rightarrow> put_worker sid (worker_start lateness) s
                      | Some _ \<Rightarrow> s)
            in s'\<lparr>rt_phase := RtSending event\<rparr>))"

definition closeWorkers :: "router_sys \<Rightarrow> router_sys" where
  "closeWorkers s = s\<lparr>rt_workers := map (\<lambda>(sid, w). (sid, w\<lparr>wk_closed := True\<rparr>)) (rt_workers s)\<rparr>"

section \<open>Steps\<close>

inductive router_step :: "router \<Rightarrow> router_sys \<Rightarrow> order_event option \<Rightarrow> router_sys \<Rightarrow> bool" for r :: router where
  receive: "rt_phase s = RtReceiving \<Longrightarrow>
    router_step r s (Some ev) (router_receive (ro_AllowedLateness r) ev s)"
| enqueue: "rt_phase s = RtSending ev \<Longrightarrow> gm_get (rt_workers s) (ev_submissionID ev) = Some w \<Longrightarrow>
    length (wk_in w) < worker_capacity r \<Longrightarrow>
    router_step r s None
      ((put_worker (ev_submissionID ev) (w\<lparr>wk_in := wk_in w @ [ev]\<rparr>) s)\<lparr>rt_phase := RtReceiving\<rparr>)"
| in_closed: "rt_phase s = RtReceiving \<Longrightarrow> router_step r s None ((closeWorkers s)\<lparr>rt_phase := RtDraining\<rparr>)"
| cancelled: "rt_phase s = RtReceiving \<or> rt_phase s = RtSending ev \<Longrightarrow> rt_ctxDone s \<Longrightarrow>
    router_step r s None ((closeWorkers s)\<lparr>rt_phase := RtDraining\<rparr>)"
| worker_takes: "gm_get (rt_workers s) sid = Some w \<Longrightarrow> \<not> wk_draining w \<Longrightarrow> \<not> wk_exited w \<Longrightarrow>
    wk_pending w = [] \<Longrightarrow> wk_in w = ev # rest \<Longrightarrow>
    router_step r s None (put_worker sid (worker_process ev (w\<lparr>wk_in := rest\<rparr>)) s)"
| worker_idles: "gm_get (rt_workers s) sid = Some w \<Longrightarrow> \<not> wk_draining w \<Longrightarrow> \<not> wk_exited w \<Longrightarrow>
    wk_pending w = [] \<Longrightarrow>
    router_step r s None (put_worker sid (worker_flush w) s)"
| worker_sees_close: "gm_get (rt_workers s) sid = Some w \<Longrightarrow> \<not> wk_draining w \<Longrightarrow> \<not> wk_exited w \<Longrightarrow>
    wk_pending w = [] \<Longrightarrow> wk_in w = [] \<Longrightarrow> wk_closed w \<Longrightarrow>
    router_step r s None (put_worker sid ((worker_flush w)\<lparr>wk_draining := True\<rparr>) s)"
| worker_sends: "gm_get (rt_workers s) sid = Some w \<Longrightarrow> \<not> wk_exited w \<Longrightarrow> wk_pending w = ev # rest \<Longrightarrow>
    router_step r s None ((put_worker sid (w\<lparr>wk_pending := rest\<rparr>) s)\<lparr>rt_out := rt_out s @ [ev]\<rparr>)"
| worker_exits: "gm_get (rt_workers s) sid = Some w \<Longrightarrow> wk_draining w \<Longrightarrow> wk_pending w = [] \<Longrightarrow>
    router_step r s None (put_worker sid (w\<lparr>wk_exited := True\<rparr>) s)"
| worker_cancelled: "gm_get (rt_workers s) sid = Some w \<Longrightarrow> \<not> wk_exited w \<Longrightarrow> rt_ctxDone s \<Longrightarrow>
    router_step r s None (put_worker sid (w\<lparr>wk_exited := True\<rparr>) s)"
| cancel_ctx: "router_step r s None (s\<lparr>rt_ctxDone := True\<rparr>)"
| close_out: "rt_phase s = RtDraining \<Longrightarrow> (\<And>sid w. gm_get (rt_workers s) sid = Some w \<Longrightarrow> wk_exited w) \<Longrightarrow>
    router_step r s None (s\<lparr>rt_phase := RtClosed\<rparr>)"

inductive router_run :: "router \<Rightarrow> order_event list \<Rightarrow> router_sys \<Rightarrow> bool" for r :: router where
  start: "router_run r [] router_init"
| step: "router_run r evs s \<Longrightarrow> router_step r s ev s' \<Longrightarrow>
    router_run r (evs @ (case ev of None \<Rightarrow> [] | Some x \<Rightarrow> [x])) s'"

section \<open>A worker is a processor\<close>

lemma Flush_prefix: "proc_Flush never p (pre @ out) = (case proc_Flush never p out of (p', o', e) \<Rightarrow> (p', pre @ o', e))"
proof (induction "never" p out rule: proc_Flush.induct)
  case (1 p out)
  then show ?case
    by (subst (1 2) proc_Flush.simps) (auto simp: proc_send_def chan_send_def)
qed

lemma EmitReady_prefix: "EmitReady never p (pre @ out) = (case EmitReady never p out of (p', o', e) \<Rightarrow> (p', pre @ o', e))"
proof (induction "never" p out rule: EmitReady.induct)
  case (1 p out)
  then show ?case
    by (subst (1 2) EmitReady.simps) (auto simp: proc_send_def chan_send_def)
qed

lemma Process_prefix: "Process never p ev out = (case Process never p ev [] of (p', o', e) \<Rightarrow> (p', out @ o', e))"
  using Flush_prefix[of "Enqueue p ev" out "[]"] EmitReady_prefix[of "Enqueue p ev" out "[]"]
  by (simp add: Process_def Let_def)

lemma Process_uncancelled: "snd (snd (Process never p ev out)) = None"
  by (simp add: Process_def Let_def Flush_uncancelled EmitReady_uncancelled)

text \<open>What a worker has done is a run of its processor, from which it may still have to send a rest.\<close>

definition worker_did :: "int \<Rightarrow> order_event list \<Rightarrow> rworker \<Rightarrow> order_event list \<Rightarrow> bool" where
  "worker_did lateness sent w got \<longleftrightarrow> (\<exists>ins. CtxDone \<notin> set ins \<and> InClosed \<notin> set ins \<and> received ins = got \<and>
     proc_Run never (NewProcessor lateness) [] (if wk_draining w then ins @ [InClosed] else ins) =
       (wk_proc w, sent @ wk_pending w, if wk_draining w then Returned None else Running))"

lemma worker_did_start: "worker_did lateness [] (worker_start lateness) []"
  by (auto simp: worker_did_def worker_start_def intro!: exI[of _ "[]"])

lemma worker_did_process:
  assumes "worker_did lateness sent w got" and "\<not> wk_draining w" and "wk_pending w = []"
  shows "worker_did lateness sent (worker_process ev w) (got @ [ev])"
proof -
  from assms obtain ins where ins: "CtxDone \<notin> set ins" "InClosed \<notin> set ins" "received ins = got"
    "proc_Run never (NewProcessor lateness) [] ins = (wk_proc w, sent, Running)" by (auto simp: worker_did_def)
  obtain p out where P: "Process never (wk_proc w) ev [] = (p, out, None)"
    using Process_uncancelled[of "wk_proc w" ev "[]"] by (metis prod.collapse)
  have "Process never (wk_proc w) ev sent = (p, sent @ out, None)" by (subst Process_prefix) (simp add: P)
  then have "proc_Run never (NewProcessor lateness) [] (ins @ [Received ev]) = (p, sent @ out, Running)"
    by (simp add: proc_Run_append[OF ins(4)])
  then show ?thesis using ins assms(2) P
    by (auto simp: worker_did_def worker_process_def intro!: exI[of _ "ins @ [Received ev]"])
qed

lemma worker_did_flush:
  assumes "worker_did lateness sent w got" and "\<not> wk_draining w" and "wk_pending w = []"
  shows "worker_did lateness sent (worker_flush w) got"
    and "worker_did lateness sent ((worker_flush w)\<lparr>wk_draining := True\<rparr>) got"
proof -
  from assms obtain ins where ins: "CtxDone \<notin> set ins" "InClosed \<notin> set ins" "received ins = got"
    "proc_Run never (NewProcessor lateness) [] ins = (wk_proc w, sent, Running)" by (auto simp: worker_did_def)
  obtain p out where P: "proc_Flush never (wk_proc w) [] = (p, out, None)"
    using Flush_uncancelled[of "wk_proc w" "[]"] by (metis prod.collapse)
  have F: "proc_Flush never (wk_proc w) sent = (p, sent @ out, None)"
    using Flush_prefix[of "wk_proc w" sent "[]"] by (simp add: P)
  then have "proc_Run never (NewProcessor lateness) [] (ins @ [IdleFired]) = (p, sent @ out, Running)"
    by (simp add: proc_Run_append[OF ins(4)])
  then show "worker_did lateness sent (worker_flush w) got" using ins assms(2) P
    by (auto simp: worker_did_def worker_flush_def intro!: exI[of _ "ins @ [IdleFired]"])
  from F have "proc_Run never (NewProcessor lateness) [] (ins @ [InClosed]) = (p, sent @ out, Returned None)"
    by (simp add: proc_Run_append[OF ins(4)])
  then show "worker_did lateness sent ((worker_flush w)\<lparr>wk_draining := True\<rparr>) got" using ins P
    by (auto simp: worker_did_def worker_flush_def intro!: exI[of _ ins])
qed

lemma worker_did_send:
  "worker_did lateness sent w got \<Longrightarrow> wk_pending w = ev # rest \<Longrightarrow>
     worker_did lateness (sent @ [ev]) (w\<lparr>wk_pending := rest\<rparr>) got"
  by (simp add: worker_did_def)

lemma worker_did_fields:
  "worker_did lateness sent (w\<lparr>wk_in := q\<rparr>) got = worker_did lateness sent w got"
  "worker_did lateness sent (w\<lparr>wk_closed := b\<rparr>) got = worker_did lateness sent w got"
  "worker_did lateness sent (w\<lparr>wk_exited := b\<rparr>) got = worker_did lateness sent w got"
  by (simp_all add: worker_did_def)

lemma worker_did_mset:
  assumes "worker_did lateness sent w got"
  shows "mset sent + mset (wk_pending w) + held (wk_proc w) = mset got \<and> (wk_draining w \<longrightarrow> held (wk_proc w) = {#})"
proof -
  from assms obtain ins where ins: "CtxDone \<notin> set ins" "InClosed \<notin> set ins" "received ins = got"
    "proc_Run never (NewProcessor lateness) [] (if wk_draining w then ins @ [InClosed] else ins) =
       (wk_proc w, sent @ wk_pending w, if wk_draining w then Returned None else Running)"
    by (auto simp: worker_did_def)
  have new: "heap_ok (p_events (NewProcessor lateness))" "held (NewProcessor lateness) = {#}"
    by (simp_all add: NewProcessor_def Let_def held_def)
  show ?thesis
  proof (cases "wk_draining w")
    case True
    then obtain k where k: "mset (received (take k (ins @ [InClosed]))) = mset (sent @ wk_pending w) + held (wk_proc w)"
      "held (wk_proc w) = {#}" "k < length (ins @ [InClosed])" "(ins @ [InClosed]) ! k = InClosed"
      using proc_Run_conserves[OF ins(4) new(1)] new(2) by auto
    have "k < length ins \<Longrightarrow> ins ! k \<noteq> InClosed" using ins(2) nth_mem by metis
    then have "k = length ins" using k(3,4) by (cases "k < length ins") (simp_all add: nth_append)
    with k ins(3) show ?thesis by simp
  next
    case False
    then show ?thesis using proc_Run_conserves[OF ins(4) new(1)] new(2) ins(3) by auto
  qed
qed

section \<open>Every worker sees its own submission\<close>

definition sub_events :: "string \<Rightarrow> order_event list \<Rightarrow> order_event list" where
  "sub_events sid evs = filter (\<lambda>ev. ev_submissionID ev = sid) evs"

lemma sub_events_simps [simp]: "sub_events sid [] = []" "sub_events sid (xs @ ys) = sub_events sid xs @ sub_events sid ys"
  "sub_events sid (ev # xs) = (if ev_submissionID ev = sid then ev # sub_events sid xs else sub_events sid xs)"
  by (simp_all add: sub_events_def)

definition blocked :: "router_phase \<Rightarrow> string \<Rightarrow> order_event list" where
  "blocked ph sid = (case ph of RtSending ev \<Rightarrow> if ev_submissionID ev = sid then [ev] else [] | _ \<Rightarrow> [])"

definition worker_inv :: "router \<Rightarrow> order_event list \<Rightarrow> router_sys \<Rightarrow> string \<Rightarrow> rworker \<Rightarrow> bool" where
  "worker_inv r evs s sid w \<longleftrightarrow>
     (\<exists>got. worker_did (ro_AllowedLateness r) (sub_events sid (rt_out s)) w got \<and>
        got @ wk_in w @ blocked (rt_phase s) sid = sub_events sid evs) \<and>
     (wk_draining w \<longrightarrow> wk_in w = [] \<and> wk_closed w) \<and> (wk_exited w \<longrightarrow> wk_draining w \<and> wk_pending w = []) \<and>
     (wk_closed w \<longrightarrow> rt_phase s = RtDraining \<or> rt_phase s = RtClosed)"

definition router_inv :: "router \<Rightarrow> order_event list \<Rightarrow> router_sys \<Rightarrow> bool" where
  "router_inv r evs s \<longleftrightarrow>
     (\<forall>sid w. gm_get (rt_workers s) sid = Some w \<longrightarrow> sid \<noteq> [] \<and> worker_inv r evs s sid w) \<and>
     (\<forall>sid. gm_get (rt_workers s) sid = None \<longrightarrow> sub_events sid (rt_out s) = [] \<and> (sid \<noteq> [] \<longrightarrow> sub_events sid evs = [])) \<and>
     (\<forall>ev. rt_phase s = RtSending ev \<longrightarrow> gm_get (rt_workers s) (ev_submissionID ev) \<noteq> None) \<and>
     (rt_phase s = RtClosed \<longrightarrow> (\<forall>sid w. gm_get (rt_workers s) sid = Some w \<longrightarrow> wk_exited w))"

lemma router_invI:
  assumes "\<And>sid w. gm_get (rt_workers s) sid = Some w \<Longrightarrow> sid \<noteq> [] \<and> worker_inv r evs s sid w"
    and "\<And>sid. gm_get (rt_workers s) sid = None \<Longrightarrow> sub_events sid (rt_out s) = [] \<and> (sid \<noteq> [] \<longrightarrow> sub_events sid evs = [])"
    and "\<And>ev. rt_phase s = RtSending ev \<Longrightarrow> gm_get (rt_workers s) (ev_submissionID ev) \<noteq> None"
    and "\<And>sid w. rt_phase s = RtClosed \<Longrightarrow> gm_get (rt_workers s) sid = Some w \<Longrightarrow> wk_exited w"
  shows "router_inv r evs s"
  using assms unfolding router_inv_def by blast

lemma closeWorkers_get: "gm_get (rt_workers (closeWorkers s)) sid =
    map_option (\<lambda>w. w\<lparr>wk_closed := True\<rparr>) (gm_get (rt_workers s) sid)"
proof -
  have "map_of (map (\<lambda>(sid, w). (sid, f w)) m) sid = map_option f (map_of m sid)" for f :: "rworker \<Rightarrow> rworker" and m
    by (induction m) auto
  then show ?thesis by (simp add: closeWorkers_def gm_get_def)
qed

lemma put_worker_fields [simp]:
  "gm_get (rt_workers (put_worker sid w s)) sid' = (if sid' = sid then Some w else gm_get (rt_workers s) sid')"
  "rt_out (put_worker sid w s) = rt_out s" "rt_ctxDone (put_worker sid w s) = rt_ctxDone s"
  "rt_phase (put_worker sid w s) = rt_phase s"
  by (simp_all add: put_worker_def)

lemma closeWorkers_fields [simp]: "rt_out (closeWorkers s) = rt_out s" "rt_ctxDone (closeWorkers s) = rt_ctxDone s"
  "rt_phase (closeWorkers s) = rt_phase s"
  by (simp_all add: closeWorkers_def)

lemma worker_fields [simp]:
  "wk_in (worker_flush w) = wk_in w" "wk_closed (worker_flush w) = wk_closed w"
  "wk_draining (worker_flush w) = wk_draining w" "wk_exited (worker_flush w) = wk_exited w"
  "wk_in (worker_process ev w) = wk_in w" "wk_closed (worker_process ev w) = wk_closed w"
  "wk_draining (worker_process ev w) = wk_draining w" "wk_exited (worker_process ev w) = wk_exited w"
  by (simp_all add: worker_flush_def worker_process_def split: prod.splits)

text \<open>A step of one worker that sends nothing.\<close>

lemma router_inv_worker:
  assumes "router_inv r evs s" and "gm_get (rt_workers s) sid = Some w"
    and "worker_inv r evs s sid w'" and "rt_phase s = RtClosed \<Longrightarrow> wk_exited w'"
  shows "router_inv r evs (put_worker sid w' s)"
  using assms unfolding router_inv_def worker_inv_def by (auto split: if_splits)

lemma router_inv_running:
  assumes "router_inv r evs s" and "gm_get (rt_workers s) sid = Some w" and "\<not> wk_exited w"
    and "worker_inv r evs s sid w'"
  shows "router_inv r evs (put_worker sid w' s)"
  using assms(1,2,4)
proof (rule router_inv_worker)
  assume "rt_phase s = RtClosed"
  then show "wk_exited w'" using assms(1-3) by (auto simp: router_inv_def)
qed

lemma worker_inv_pending:
  assumes "worker_inv r evs s sid w" and "ev \<in> set (wk_pending w)"
  shows "ev_submissionID ev = sid"
proof -
  from assms(1) obtain got where got: "worker_did (ro_AllowedLateness r) (sub_events sid (rt_out s)) w got"
    "got @ wk_in w @ blocked (rt_phase s) sid = sub_events sid evs" by (auto simp: worker_inv_def)
  have "ev \<in># mset got" using worker_did_mset[OF got(1)] assms(2) by (metis in_multiset_in_set union_iff)
  then have "ev \<in> set (sub_events sid evs)" using got(2) by (metis Un_iff set_append set_mset_mset)
  then show ?thesis by (simp add: sub_events_def)
qed

lemma router_inv_receive:
  assumes "router_inv r evs s" and "rt_phase s = RtReceiving"
  shows "router_inv r (evs @ [ev]) (router_receive (ro_AllowedLateness r) ev s)"
proof (cases "ev_submissionID ev = []")
  case True
  then have keep: "sid \<noteq> [] \<Longrightarrow> sub_events sid (evs @ [ev]) = sub_events sid evs" for sid by auto
  with True assms show ?thesis unfolding router_inv_def worker_inv_def by (auto simp: router_receive_def)
next
  case False
  let ?sid = "ev_submissionID ev" and ?L = "ro_AllowedLateness r"
  define s' where "s' = (case gm_get (rt_workers s) ?sid of None \<Rightarrow> put_worker ?sid (worker_start ?L) s | Some _ \<Rightarrow> s)"
  have r: "router_receive ?L ev s = s'\<lparr>rt_phase := RtSending ev\<rparr>"
    using False by (simp add: router_receive_def s'_def Let_def)
  have s': "router_inv r evs s'" "gm_get (rt_workers s') ?sid \<noteq> None" "rt_phase s' = RtReceiving"
  proof -
    have "worker_inv r evs s ?sid (worker_start ?L)" if "gm_get (rt_workers s) ?sid = None"
      using that assms False worker_did_start[of ?L]
      by (auto simp: worker_inv_def router_inv_def blocked_def worker_start_def)
    then show "router_inv r evs s'"
      using assms False unfolding s'_def router_inv_def worker_inv_def
      by (auto split: option.splits if_splits)
  qed (use assms(2) in \<open>auto simp: s'_def split: option.splits\<close>)
  show ?thesis
    unfolding r
  proof (rule router_invI)
    fix sid w assume w: "gm_get (rt_workers (s'\<lparr>rt_phase := RtSending ev\<rparr>)) sid = Some w"
    then have "sid \<noteq> []" "worker_inv r evs s' sid w" using s'(1) by (auto simp: router_inv_def)
    then show "sid \<noteq> [] \<and> worker_inv r (evs @ [ev]) (s'\<lparr>rt_phase := RtSending ev\<rparr>) sid w"
      using s'(3) by (auto simp: worker_inv_def blocked_def)
  next
    fix sid assume "gm_get (rt_workers (s'\<lparr>rt_phase := RtSending ev\<rparr>)) sid = None"
    then show "sub_events sid (rt_out (s'\<lparr>rt_phase := RtSending ev\<rparr>)) = [] \<and> (sid \<noteq> [] \<longrightarrow> sub_events sid (evs @ [ev]) = [])"
      using s'(1,2) by (auto simp: router_inv_def)
  qed (use s'(2) in auto)
qed

lemma router_inv_send:
  assumes "router_inv r evs s" and "gm_get (rt_workers s) sid = Some w" and "\<not> wk_exited w" and "wk_pending w = ev # rest"
  shows "router_inv r evs ((put_worker sid (w\<lparr>wk_pending := rest\<rparr>) s)\<lparr>rt_out := rt_out s @ [ev]\<rparr>)"
proof -
  have w: "worker_inv r evs s sid w" "sid \<noteq> []" using assms(1,2) by (auto simp: router_inv_def)
  have ev: "ev_submissionID ev = sid" using worker_inv_pending[OF w(1)] assms(4) by simp
  have other: "sub_events sid' (rt_out s @ [ev]) = sub_events sid' (rt_out s)" if "sid' \<noteq> sid" for sid'
    using that ev by simp
  let ?s = "(put_worker sid (w\<lparr>wk_pending := rest\<rparr>) s)\<lparr>rt_out := rt_out s @ [ev]\<rparr>"
  have me: "worker_inv r evs ?s sid (w\<lparr>wk_pending := rest\<rparr>)"
    using w(1) assms(3,4) ev worker_did_send[of "ro_AllowedLateness r" "sub_events sid (rt_out s)" w _ ev rest]
    by (auto simp: worker_inv_def)
  show ?thesis
    using assms me w(2) other unfolding router_inv_def worker_inv_def by (auto split: if_splits)
qed

lemma router_inv_enqueue:
  assumes "router_inv r evs s" and "rt_phase s = RtSending ev" and "gm_get (rt_workers s) (ev_submissionID ev) = Some w"
  shows "router_inv r evs ((put_worker (ev_submissionID ev) (w\<lparr>wk_in := wk_in w @ [ev]\<rparr>) s)\<lparr>rt_phase := RtReceiving\<rparr>)"
  using assms unfolding router_inv_def worker_inv_def
  by (auto simp: blocked_def worker_did_fields split: if_splits)

lemma router_inv_close:
  assumes "router_inv r evs s" and "rt_phase s = RtReceiving"
  shows "router_inv r evs ((closeWorkers s)\<lparr>rt_phase := RtDraining\<rparr>)"
  using assms unfolding router_inv_def worker_inv_def
  by (auto simp: blocked_def worker_did_fields closeWorkers_get)

lemma worker_inv_takes:
  assumes "worker_inv r evs s sid w" and "\<not> wk_draining w" and "\<not> wk_exited w" and "wk_pending w = []"
    and "wk_in w = ev # rest"
  shows "worker_inv r evs s sid (worker_process ev (w\<lparr>wk_in := rest\<rparr>))"
proof -
  from assms(1) obtain got where got: "worker_did (ro_AllowedLateness r) (sub_events sid (rt_out s)) w got"
    "got @ wk_in w @ blocked (rt_phase s) sid = sub_events sid evs" by (auto simp: worker_inv_def)
  let ?w = "worker_process ev (w\<lparr>wk_in := rest\<rparr>)"
  have "worker_did (ro_AllowedLateness r) (sub_events sid (rt_out s)) ?w (got @ [ev])"
    using got(1) assms by (intro worker_did_process) (simp_all add: worker_did_fields)
  moreover have "(got @ [ev]) @ wk_in ?w @ blocked (rt_phase s) sid = sub_events sid evs"
    using got(2) assms(5) by simp
  moreover have "wk_closed w \<longrightarrow> rt_phase s = RtDraining \<or> rt_phase s = RtClosed"
    using assms(1) by (simp add: worker_inv_def)
  ultimately show ?thesis unfolding worker_inv_def using assms(2,3) by (intro conjI exI[of _ "got @ [ev]"]) simp_all
qed

lemma router_inv_step:
  assumes "router_inv r evs s" and "router_step r s lbl s'" and "\<not> rt_ctxDone s'"
  shows "router_inv r (evs @ (case lbl of None \<Rightarrow> [] | Some x \<Rightarrow> [x])) s'"
  using assms(2)
proof (cases rule: router_step.cases)
  case (receive ev)
  with router_inv_receive[OF assms(1)] show ?thesis by simp
next
  case (enqueue ev w)
  with router_inv_enqueue[OF assms(1)] show ?thesis by simp
next
  case in_closed
  with router_inv_close[OF assms(1)] show ?thesis by simp
next
  case (cancelled ev)
  with assms(3) show ?thesis by simp
next
  case (worker_takes sid w ev rest)
  then have w: "worker_inv r evs s sid w" using assms(1) by (auto simp: router_inv_def)
  have "worker_inv r evs s sid (worker_process ev (w\<lparr>wk_in := rest\<rparr>))"
    using worker_takes by (intro worker_inv_takes[OF w]) simp_all
  from router_inv_running[OF assms(1) worker_takes(3,5) this] worker_takes(1,2) show ?thesis by simp
next
  case (worker_idles sid w)
  then have w: "worker_inv r evs s sid w" using assms(1) by (auto simp: router_inv_def)
  have "worker_inv r evs s sid (worker_flush w)"
    using w worker_did_flush(1)[of _ _ w] worker_idles by (auto simp: worker_inv_def)
  from router_inv_running[OF assms(1) worker_idles(3,5) this] worker_idles(1,2) show ?thesis by simp
next
  case (worker_sees_close sid w)
  then have w: "worker_inv r evs s sid w" using assms(1) by (auto simp: router_inv_def)
  have "worker_inv r evs s sid ((worker_flush w)\<lparr>wk_draining := True\<rparr>)"
    using w worker_did_flush(2)[of _ _ w] worker_sees_close by (auto simp: worker_inv_def)
  from router_inv_running[OF assms(1) worker_sees_close(3,5) this] worker_sees_close(1,2) show ?thesis by simp
next
  case (worker_sends sid w ev rest)
  with router_inv_send[OF assms(1)] show ?thesis by simp
next
  case (worker_exits sid w)
  then have w: "worker_inv r evs s sid w" using assms(1) by (auto simp: router_inv_def)
  then have "worker_inv r evs s sid (w\<lparr>wk_exited := True\<rparr>)"
    using worker_exits by (auto simp: worker_inv_def worker_did_fields)
  then show ?thesis using worker_exits router_inv_worker[OF assms(1)] by simp
next
  case (worker_cancelled sid w)
  with assms(3) show ?thesis by simp
next
  case cancel_ctx
  with assms(3) show ?thesis by simp
next
  case close_out
  have "worker_inv r evs (s\<lparr>rt_phase := RtClosed\<rparr>) sid w" if "worker_inv r evs s sid w" for sid w
    using that close_out(3) by (simp add: worker_inv_def blocked_def)
  then have "router_inv r evs (s\<lparr>rt_phase := RtClosed\<rparr>)"
    using assms(1) close_out(4) by (intro router_invI) (auto simp: router_inv_def)
  with close_out(1,2) show ?thesis by simp
qed

lemma router_step_ctx: "router_step r s lbl s' \<Longrightarrow> rt_ctxDone s \<Longrightarrow> rt_ctxDone s'"
  by (induction rule: router_step.induct) (auto simp: router_receive_def Let_def split: option.splits)

lemma router_run_inv: "router_run r evs s \<Longrightarrow> \<not> rt_ctxDone s \<Longrightarrow> router_inv r evs s"
proof (induction rule: router_run.induct)
  case start
  show ?case by (simp add: router_inv_def router_init_def)
next
  case (step evs s ev s')
  then have "\<not> rt_ctxDone s" using router_step_ctx by blast
  with step router_inv_step show ?case by blast
qed

text \<open>What a submission's worker has sent, in general and when the router has closed its output.\<close>

lemma router_run_worker:
  assumes "router_run r evs s" and "\<not> rt_ctxDone s" and "rt_phase s = RtClosed" and "sid \<noteq> []" "sub_events sid evs \<noteq> []"
  shows "\<exists>p ins. CtxDone \<notin> set ins \<and> InClosed \<notin> set ins \<and> received ins = sub_events sid evs \<and>
    proc_Run never (NewProcessor (ro_AllowedLateness r)) [] (ins @ [InClosed]) = (p, sub_events sid (rt_out s), Returned None)"
proof -
  note inv = router_run_inv[OF assms(1,2)]
  obtain w where w: "gm_get (rt_workers s) sid = Some w"
    using inv assms(4,5) by (cases "gm_get (rt_workers s) sid") (auto simp: router_inv_def)
  have "worker_inv r evs s sid w" "wk_exited w" using inv w assms(3) by (auto simp: router_inv_def)
  then obtain got where "worker_did (ro_AllowedLateness r) (sub_events sid (rt_out s)) w got"
    "got = sub_events sid evs" "wk_draining w" "wk_pending w = []"
    using assms(3) by (auto simp: worker_inv_def blocked_def)
  then show ?thesis by (auto simp: worker_did_def)
qed

lemma router_isolates_rel:
  assumes "router_run r evs s" and "\<not> rt_ctxDone s" and "rt_phase s = RtClosed" and "sid \<noteq> []"
    and "sub_events sid evs \<noteq> []"
  shows "(\<exists>p ins. CtxDone \<notin> set ins \<and> received ins = sub_events sid evs \<and>
      proc_Run never (NewProcessor (ro_AllowedLateness r)) [] (ins @ [InClosed]) =
        (p, sub_events sid (rt_out s), Returned None)) \<and>
    mset (sub_events sid (rt_out s)) = mset (sub_events sid evs)"
proof -
  obtain p ins where ins: "CtxDone \<notin> set ins" "InClosed \<notin> set ins" "received ins = sub_events sid evs"
    "proc_Run never (NewProcessor (ro_AllowedLateness r)) [] (ins @ [InClosed]) = (p, sub_events sid (rt_out s), Returned None)"
    using router_run_worker[OF assms] by blast
  have "worker_did (ro_AllowedLateness r) (sub_events sid (rt_out s))
      \<lparr>wk_proc = p, wk_in = [], wk_closed = True, wk_pending = [], wk_draining = True, wk_exited = True\<rparr> (sub_events sid evs)"
    using ins by (auto simp: worker_did_def)
  from worker_did_mset[OF this] ins show ?thesis by auto
qed

lemma router_out_set:
  assumes "router_run r evs s" and "\<not> rt_ctxDone s" and "rt_phase s = RtClosed"
  shows "set (rt_out s) \<subseteq> set evs"
proof
  fix ev assume ev: "ev \<in> set (rt_out s)"
  let ?sid = "ev_submissionID ev"
  have out: "ev \<in> set (sub_events ?sid (rt_out s))" using ev by (simp add: sub_events_def)
  note inv = router_run_inv[OF assms(1,2)]
  then obtain w where "gm_get (rt_workers s) ?sid = Some w"
    using out by (cases "gm_get (rt_workers s) ?sid") (auto simp: router_inv_def)
  with inv have "worker_inv r evs s ?sid w" by (simp add: router_inv_def)
  then obtain got where "worker_did (ro_AllowedLateness r) (sub_events ?sid (rt_out s)) w got"
    "got @ wk_in w @ blocked (rt_phase s) ?sid = sub_events ?sid evs"
    by (auto simp: worker_inv_def)
  moreover from this have "ev \<in># mset got" using worker_did_mset out by (metis in_multiset_in_set union_iff)
  ultimately have "ev \<in> set (sub_events ?sid evs)" by (metis Un_iff set_append set_mset_mset)
  then show "ev \<in> set evs" by (simp add: sub_events_def)
qed

text \<open>
  C14. The router isolates submissions and loses nothing: when it has closed its output without being
  cancelled, the events of each submission in the output, in their order, are exactly what one
  processor emits that received the events of that submission alone, in their order of arrival,
  whatever the other submissions sent and however the goroutines were scheduled; so the output is, as a
  multiset, all events received that have an id.
\<close>

theorem router_isolates:
  assumes "router_run r evs s" and "\<not> rt_ctxDone s" and "rt_phase s = RtClosed" and "sid \<noteq> []"
    and "sub_events sid evs \<noteq> []"
  shows "(\<exists>p ins. CtxDone \<notin> set ins \<and> received ins = sub_events sid evs \<and>
      proc_Run never (NewProcessor (ro_AllowedLateness r)) [] (ins @ [InClosed]) =
        (p, sub_events sid (rt_out s), Returned None)) \<and>
    mset (sub_events sid (rt_out s)) = mset (sub_events sid evs)"
  by (rule router_isolates_rel[OF assms])

section \<open>A short run\<close>

lemma router_run_one:
  assumes "router_run r evs s" and "router_step r s None s'"
  shows "router_run r evs s'"
  using router_run.step[OF assms] by simp

definition done_worker :: "processor \<Rightarrow> bool \<Rightarrow> bool \<Rightarrow> bool \<Rightarrow> rworker" where
  "done_worker p shut draining exited = \<lparr>wk_proc = p, wk_in = [], wk_closed = shut, wk_pending = [],
     wk_draining = draining, wk_exited = exited\<rparr>"

lemma sample_worker:
  "\<exists>p. worker_process sample_event (worker_start 0) = (done_worker p False False False)\<lparr>wk_pending := [sample_event]\<rparr> \<and> p_events p = []"
  by (simp add: worker_process_def worker_start_def done_worker_def sample_event_def zero_event_def proc_eval heap_eval)

lemma sample_router_run:
  "\<exists>s. router_run (NewRouter 0) [sample_event] s \<and> \<not> rt_ctxDone s \<and> rt_phase s = RtClosed \<and> rt_out s = [sample_event]"
proof -
  let ?r = "NewRouter 0" and ?ev = sample_event and ?sid = "''s''"
  obtain p where p: "worker_process ?ev (worker_start 0) = (done_worker p False False False)\<lparr>wk_pending := [?ev]\<rparr>"
    "p_events p = []" using sample_worker by blast
  let ?st = "\<lambda>w out ph. \<lparr>rt_workers = [(?sid, w)], rt_out = out, rt_ctxDone = False, rt_phase = ph\<rparr>"
  have sid: "ev_submissionID ?ev = ?sid" by (simp add: sample_event_def)
  note ev = put_worker_def gm_put_def gm_get_def done_worker_def closeWorkers_def
  have r1: "router_run ?r [?ev] (?st (worker_start 0) [] (RtSending ?ev))"
    using router_run.step[OF router_run.start router_step.receive[of router_init ?r ?ev]]
    by (simp add: router_init_def router_receive_def sid ev Let_def NewRouter_def)
  have r2: "router_run ?r [?ev] (?st ((worker_start 0)\<lparr>wk_in := [?ev]\<rparr>) [] RtReceiving)"
    using router_run_one[OF r1 router_step.enqueue[of _ ?ev "worker_start 0"]]
    by (simp add: sid ev worker_capacity_def NewRouter_def defaultRouterBuffer_def worker_start_def)
  have "((worker_start 0)\<lparr>wk_in := [?ev]\<rparr>)\<lparr>wk_in := []\<rparr> = worker_start 0" by (simp add: worker_start_def)
  then have r3: "router_run ?r [?ev] (?st ((done_worker p False False False)\<lparr>wk_pending := [?ev]\<rparr>) [] RtReceiving)"
    using router_run_one[OF r2 router_step.worker_takes[of _ ?sid "(worker_start 0)\<lparr>wk_in := [?ev]\<rparr>" ?ev "[]"]] p(1)
    by (simp add: ev worker_start_def)
  have r4: "router_run ?r [?ev] (?st (done_worker p False False False) [?ev] RtReceiving)"
    using router_run_one[OF r3 router_step.worker_sends[of _ ?sid "(done_worker p False False False)\<lparr>wk_pending := [?ev]\<rparr>" ?ev "[]"]]
    by (simp add: ev)
  have r5: "router_run ?r [?ev] (?st (done_worker p True False False) [?ev] RtDraining)"
    using router_run_one[OF r4 router_step.in_closed] by (simp add: ev)
  have "proc_Flush never p [] = (p, [], None)" using p(2) by (subst proc_Flush.simps) simp
  then have "(worker_flush (done_worker p True False False))\<lparr>wk_draining := True\<rparr> = done_worker p True True False"
    by (simp add: worker_flush_def done_worker_def)
  then have r6: "router_run ?r [?ev] (?st (done_worker p True True False) [?ev] RtDraining)"
    using router_run_one[OF r5 router_step.worker_sees_close[of _ ?sid "done_worker p True False False"]]
    by (simp add: put_worker_def gm_put_def gm_get_def) (simp add: done_worker_def)
  have r7: "router_run ?r [?ev] (?st (done_worker p True True True) [?ev] RtDraining)"
    using router_run_one[OF r6 router_step.worker_exits[of _ ?sid "done_worker p True True False"]] by (simp add: ev)
  have "router_step ?r (?st (done_worker p True True True) [?ev] RtDraining) None
      ((?st (done_worker p True True True) [?ev] RtDraining)\<lparr>rt_phase := RtClosed\<rparr>)"
    by (rule router_step.close_out) (auto simp: gm_get_def done_worker_def split: if_splits)
  from router_run_one[OF r7 this] show ?thesis by force
qed

theorem router_isolates_witness:
  "\<exists>s :: router_sys. rt_out s = [sample_event] \<and> mset (sub_events ''s'' (rt_out s)) = mset (sub_events ''s'' [sample_event])"
proof -
  obtain s where s: "router_run (NewRouter 0) [sample_event] s" "\<not> rt_ctxDone s" "rt_phase s = RtClosed"
    "rt_out s = [sample_event]" using sample_router_run by blast
  have "ev_submissionID sample_event = ''s''" by (simp add: sample_event_def)
  then have "mset (sub_events ''s'' (rt_out s)) = mset (sub_events ''s'' [sample_event])"
    using router_isolates[OF s(1-3), of "''s''"] by simp
  with s(4) show ?thesis by blast
qed

end
