(* ===== verification/Pipeline.thy ===== *)
theory Pipeline
  imports Router
begin

text \<open>
  The stages together: the router's output is the replay engine's input (as wired in
  \<open>cmd/artifact-checker/main.go\<close>). Neither stage can get stuck, and an honest engine's stream, whatever
  the network and the other submissions do to it, ends in the verdict Correct.
\<close>

section \<open>The router can always finish\<close>

definition quiet :: "router_sys \<Rightarrow> bool" where
  "quiet s \<longleftrightarrow> rt_phase s = RtReceiving \<and> \<not> rt_ctxDone s \<and>
     (\<forall>sid w. gm_get (rt_workers s) sid = Some w \<longrightarrow>
        wk_in w = [] \<and> wk_pending w = [] \<and> \<not> wk_draining w \<and> \<not> wk_exited w)"

lemma send_pending:
  assumes "router_run r evs s" and "gm_get (rt_workers s) sid = Some w" and "\<not> wk_exited w"
  shows "\<exists>s'. router_run r evs s' \<and> rt_phase s' = rt_phase s \<and> rt_ctxDone s' = rt_ctxDone s \<and>
    (\<forall>sid'. gm_get (rt_workers s') sid' = (if sid' = sid then Some (w\<lparr>wk_pending := []\<rparr>) else gm_get (rt_workers s) sid'))"
  using assms
proof (induction "wk_pending w" arbitrary: w s)
  case Nil
  then have "w\<lparr>wk_pending := []\<rparr> = w" by (metis rworker.surjective rworker.update_convs(4))
  with Nil show ?case by (intro exI[of _ s]) auto
next
  case (Cons ev rest)
  let ?w = "w\<lparr>wk_pending := rest\<rparr>" and ?s = "(put_worker sid (w\<lparr>wk_pending := rest\<rparr>) s)\<lparr>rt_out := rt_out s @ [ev]\<rparr>"
  have "router_step r s None ?s"
    using Cons.prems(2,3) Cons.hyps(2) by (intro router_step.worker_sends) simp_all
  then have run: "router_run r evs ?s" by (rule router_run_one[OF Cons.prems(1)])
  have "\<exists>s'. router_run r evs s' \<and> rt_phase s' = rt_phase ?s \<and> rt_ctxDone s' = rt_ctxDone ?s \<and>
    (\<forall>sid'. gm_get (rt_workers s') sid' = (if sid' = sid then Some (?w\<lparr>wk_pending := []\<rparr>) else gm_get (rt_workers ?s) sid'))"
    by (rule Cons.hyps(1)) (use run Cons.prems(3) in simp_all)
  then obtain s' where s': "router_run r evs s'" "rt_phase s' = rt_phase s" "rt_ctxDone s' = rt_ctxDone s"
    "\<And>sid'. gm_get (rt_workers s') sid' = (if sid' = sid then Some (w\<lparr>wk_pending := []\<rparr>) else gm_get (rt_workers s) sid')"
    by auto
  then show ?case by blast
qed

lemma quiet_event:
  assumes "router_run r evs s" and "quiet s" and "0 < worker_capacity r"
  shows "\<exists>s'. router_run r (evs @ [ev]) s' \<and> quiet s'"
proof -
  let ?sid = "ev_submissionID ev" and ?L = "ro_AllowedLateness r"
  let ?s1 = "router_receive ?L ev s"
  have "router_step r s (Some ev) ?s1"
    by (rule router_step.receive) (use assms(2) in \<open>simp add: quiet_def\<close>)
  from router_run.step[OF assms(1) this] have r1: "router_run r (evs @ [ev]) ?s1" by simp
  show ?thesis
  proof (cases "?sid = []")
    case True
    with r1 assms(2) show ?thesis by (auto simp: router_receive_def)
  next
    case False
    have fresh: "wk_in (worker_start ?L) = []" "wk_pending (worker_start ?L) = []" "\<not> wk_draining (worker_start ?L)"
      "\<not> wk_exited (worker_start ?L)" by (simp_all add: worker_start_def)
    obtain w where w: "gm_get (rt_workers ?s1) ?sid = Some w" "wk_in w = []" "wk_pending w = []" "\<not> wk_draining w" "\<not> wk_exited w"
      using False assms(2) fresh
      by (cases "gm_get (rt_workers s) ?sid") (auto simp: router_receive_def quiet_def)
    have others: "wk_in w' = [] \<and> wk_pending w' = [] \<and> \<not> wk_draining w' \<and> \<not> wk_exited w'"
      if "gm_get (rt_workers ?s1) sid' = Some w'" "sid' \<noteq> ?sid" for sid' w'
      using that False assms(2) by (auto simp: router_receive_def quiet_def Let_def split: option.splits)
    have ph: "rt_phase ?s1 = RtSending ev" "\<not> rt_ctxDone ?s1"
      using False assms(2) by (auto simp: router_receive_def quiet_def Let_def split: option.splits)
    let ?s2 = "(put_worker ?sid (w\<lparr>wk_in := wk_in w @ [ev]\<rparr>) ?s1)\<lparr>rt_phase := RtReceiving\<rparr>"
    have r2: "router_run r (evs @ [ev]) ?s2"
      by (rule router_run_one[OF r1], rule router_step.enqueue) (use ph w assms(3) in simp_all)
    let ?w = "worker_process ev ((w\<lparr>wk_in := wk_in w @ [ev]\<rparr>)\<lparr>wk_in := []\<rparr>)"
    let ?s3 = "put_worker ?sid ?w ?s2"
    have r3: "router_run r (evs @ [ev]) ?s3"
      by (rule router_run_one[OF r2], rule router_step.worker_takes) (use w in simp_all)
    obtain s' where s': "router_run r (evs @ [ev]) s'" "rt_phase s' = RtReceiving" "\<not> rt_ctxDone s'"
      "\<And>sid'. gm_get (rt_workers s') sid' = (if sid' = ?sid then Some (?w\<lparr>wk_pending := []\<rparr>) else gm_get (rt_workers ?s1) sid')"
      using send_pending[OF r3, of ?sid ?w] w(5) ph by auto
    then have "quiet s'" using others w by (auto simp: quiet_def split: if_splits)
    with s'(1) show ?thesis by blast
  qed
qed

lemma quiet_reachable: "0 < worker_capacity r \<Longrightarrow> \<exists>s. router_run r evs s \<and> quiet s"
proof (induction evs rule: rev_induct)
  case Nil
  then show ?case using router_run.start[of r] by (auto simp: quiet_def router_init_def)
next
  case (snoc ev evs)
  then show ?case using quiet_event by blast
qed

definition drainable :: "router_sys \<Rightarrow> bool" where
  "drainable s \<longleftrightarrow> rt_phase s = RtDraining \<and> \<not> rt_ctxDone s \<and>
     (\<forall>sid w. gm_get (rt_workers s) sid = Some w \<longrightarrow> wk_exited w \<or>
        wk_in w = [] \<and> wk_pending w = [] \<and> \<not> wk_draining w \<and> wk_closed w)"

definition running_ids :: "router_sys \<Rightarrow> string set" where
  "running_ids s = {sid. \<exists>w. gm_get (rt_workers s) sid = Some w \<and> \<not> wk_exited w}"

lemma running_ids_finite: "finite (running_ids s)"
proof -
  have "running_ids s \<subseteq> dom (map_of (rt_workers s))" by (auto simp: running_ids_def gm_get_def)
  then show ?thesis using finite_dom_map_of finite_subset by blast
qed

lemma drain_all:
  assumes "router_run r evs s" and "drainable s"
  shows "\<exists>s'. router_run r evs s' \<and> drainable s' \<and> running_ids s' = {}"
  using assms
proof (induction "card (running_ids s)" arbitrary: s rule: less_induct)
  case less
  show ?case
  proof (cases "running_ids s = {}")
    case True
    with less.prems show ?thesis by blast
  next
    case False
    then obtain sid w where w: "gm_get (rt_workers s) sid = Some w" "\<not> wk_exited w" by (auto simp: running_ids_def)
    with less.prems(2) have idle: "wk_in w = []" "wk_pending w = []" "\<not> wk_draining w" "wk_closed w" by (auto simp: drainable_def)
    let ?w = "(worker_flush w)\<lparr>wk_draining := True\<rparr>"
    have r1: "router_run r evs (put_worker sid ?w s)"
      by (rule router_run_one[OF less.prems(1)], rule router_step.worker_sees_close) (use w idle in simp_all)
    obtain s1 where s1: "router_run r evs s1" "rt_phase s1 = rt_phase s" "rt_ctxDone s1 = rt_ctxDone s"
      "\<And>sid'. gm_get (rt_workers s1) sid' = (if sid' = sid then Some (?w\<lparr>wk_pending := []\<rparr>) else gm_get (rt_workers s) sid')"
      using send_pending[OF r1, of sid ?w] w(2) by auto
    let ?s2 = "put_worker sid ((?w\<lparr>wk_pending := []\<rparr>)\<lparr>wk_exited := True\<rparr>) s1"
    have r2: "router_run r evs ?s2"
      by (rule router_run_one[OF s1(1)], rule router_step.worker_exits) (simp_all add: s1(4))
    have dr: "drainable ?s2" using less.prems(2) s1 by (auto simp: drainable_def split: if_splits)
    have "running_ids ?s2 \<subset> running_ids s" using w s1(4) by (auto simp: running_ids_def split: if_splits)
    then have "card (running_ids ?s2) < card (running_ids s)" using psubset_card_mono running_ids_finite by blast
    then show ?thesis using less.hyps r2 dr by blast
  qed
qed

lemma router_can_finish:
  assumes "0 < worker_capacity r"
  shows "\<exists>s. router_run r evs s \<and> rt_phase s = RtClosed \<and> \<not> rt_ctxDone s"
proof -
  obtain s where s: "router_run r evs s" "quiet s" using quiet_reachable[OF assms] by blast
  let ?s = "(closeWorkers s)\<lparr>rt_phase := RtDraining\<rparr>"
  have "router_run r evs ?s"
    by (rule router_run_one[OF s(1)], rule router_step.in_closed) (use s(2) in \<open>simp add: quiet_def\<close>)
  moreover have "drainable ?s" using s(2) by (auto simp: drainable_def quiet_def closeWorkers_get)
  ultimately obtain s' where s': "router_run r evs s'" "drainable s'" "running_ids s' = {}" using drain_all by blast
  have "router_run r evs (s'\<lparr>rt_phase := RtClosed\<rparr>)"
    by (rule router_run_one[OF s'(1)], rule router_step.close_out) (use s'(2,3) in \<open>auto simp: drainable_def running_ids_def\<close>)
  with s'(2) show ?thesis by (auto simp: drainable_def)
qed

section \<open>The engine can always finish\<close>

lemma engine_run_one: "engine_run workers evs e \<Longrightarrow> engine_step workers e None e' \<Longrightarrow> engine_run workers evs e'"
  using engine_run.step[of workers evs e None e'] by simp

lemma engine_receives_all:
  "\<exists>e. engine_run workers evs e \<and> en_phase e = Receiving \<and> \<not> en_ctxDone e \<and> en_holding e = []"
proof (induction evs rule: rev_induct)
  case Nil
  show ?case using engine_run.start by (fastforce simp: New_engine_def)
next
  case (snoc ev evs)
  then obtain e where e: "engine_run workers evs e" "en_phase e = Receiving" "\<not> en_ctxDone e" "en_holding e = []" by blast
  have "engine_run workers (evs @ [ev]) (engine_receive ev e)"
    using engine_run.step[OF e(1) engine_step.receive[OF e(2)]] by simp
  moreover have "en_phase (engine_receive ev e) = Receiving" "\<not> en_ctxDone (engine_receive ev e)" "en_holding (engine_receive ev e) = []"
    using e by (simp_all add: engine_receive_def Let_def takeEvents_def dispatch_def)
  ultimately show ?case by blast
qed

lemma finalize_total: "volumes_ok events \<Longrightarrow> \<exists>u. finalize rng sid events = Inr u"
  using Replay_no_panic[of events rng] by (auto simp: finalize_def split: sum.splits)

lemma volumes_ok_events_of: "volumes_ok evs \<Longrightarrow> volumes_ok (events_of sid evs)"
proof -
  have "set (upto_end xs) \<subseteq> set xs" for xs by (induction xs) auto
  then have "set (events_of sid evs) \<subseteq> set evs" by (fastforce simp: events_of_def)
  then show "volumes_ok evs \<Longrightarrow> volumes_ok (events_of sid evs)" by (auto simp: volumes_ok_def)
qed

lemma ranges_ok_id: "ranges_ok (\<lambda>n. id)"
  by (simp add: ranges_ok_def range_ok_def)

lemma engine_flushes:
  assumes "engine_run workers evs e" and "en_phase e = Flushing ids" and "\<not> en_ctxDone e" and "en_holding e = []"
    and "volumes_ok evs"
  shows "\<exists>e'. engine_run workers evs e' \<and> en_phase e' = Waiting \<and> \<not> en_ctxDone e' \<and> en_holding e' = []"
  using assms(1-4)
proof (induction ids arbitrary: e)
  case Nil
  have "engine_run workers evs (e\<lparr>en_phase := Waiting\<rparr>)"
    by (rule engine_run_one[OF Nil(1)], rule engine_step.flush_done) (rule Nil(2))
  with Nil show ?case by (intro exI[of _ "e\<lparr>en_phase := Waiting\<rparr>"]) simp
next
  case (Cons sid ids)
  obtain es e1 where t: "takeEvents sid e = (es, e1)" by (cases "takeEvents sid e")
  have inv: "engine_inv workers e" "engine_knows evs e" using engine_run_inv engine_run_knows Cons.prems(1) by blast+
  then have "sid \<notin> en_finalized e" "sid \<noteq> []" using Cons.prems(2) by (auto simp: engine_inv_def engine_knows_def)
  then have "es = events_of sid evs" using inv(2) t by (auto simp: engine_knows_def buffered_def takeEvents_def)
  then obtain u where u: "finalize (\<lambda>n. id) sid es = Inr u"
    using finalize_total volumes_ok_events_of[OF assms(5)] by metis
  let ?e = "e1\<lparr>en_updates := en_updates e @ [u], en_phase := Flushing ids\<rparr>"
  have run: "engine_run workers evs ?e"
    by (rule engine_run_one[OF Cons.prems(1)], rule engine_step.flush_send[OF Cons.prems(2) t ranges_ok_id u])
  show ?case by (rule Cons.IH[OF run]) (use t Cons.prems in \<open>auto simp: takeEvents_def\<close>)
qed

lemma engine_works_off:
  assumes "engine_run workers evs e" and "en_phase e = Waiting" and "\<not> en_ctxDone e" and "en_holding e = []"
    and "volumes_ok evs" and "0 < workers"
  shows "\<exists>e'. engine_run workers evs e' \<and> en_phase e' = Waiting \<and> \<not> en_ctxDone e' \<and> en_holding e' = [] \<and> en_waiting e' = []"
  using assms(1-4)
proof (induction "en_waiting e" arbitrary: e)
  case Nil
  then show ?case by (intro exI[of _ e]) simp
next
  case (Cons job jobs)
  obtain sid es where job: "job = (sid, es)" by (cases job)
  let ?e1 = "e\<lparr>en_waiting := [] @ jobs, en_holding := en_holding e @ [job]\<rparr>"
  have r1: "engine_run workers evs ?e1"
    by (rule engine_run_one[OF Cons.prems(1)], rule engine_step.worker_acquire)
      (use Cons.hyps(2) Cons.prems(4) assms(6) in simp_all)
  have "es = events_of sid evs"
    using engine_run_knows[OF Cons.prems(1)] Cons.hyps(2)[symmetric] job by (auto simp: engine_knows_def)
  then obtain u where u: "finalize (\<lambda>n. id) sid es = Inr u"
    using finalize_total volumes_ok_events_of[OF assms(5)] by metis
  let ?e2 = "?e1\<lparr>en_holding := [] @ [], en_updates := en_updates ?e1 @ [u]\<rparr>"
  have r2: "engine_run workers evs ?e2"
    by (rule engine_run_one[OF r1], rule engine_step.worker_sends[OF _ ranges_ok_id u])
      (use Cons.prems(4) job in simp)
  show ?case by (rule Cons.hyps(1)[OF _ r2]) (use Cons.prems in simp_all)
qed

lemma engine_can_finish:
  assumes "volumes_ok evs" and "0 < workers"
  shows "\<exists>e. engine_run workers evs e \<and> en_phase e = Closed \<and> \<not> en_ctxDone e"
proof -
  obtain e where e: "engine_run workers evs e" "en_phase e = Receiving" "\<not> en_ctxDone e" "en_holding e = []"
    using engine_receives_all by blast
  let ?e1 = "e\<lparr>en_phase := Flushing (sort (gm_keys (en_buffers e)))\<rparr>"
  have "engine_run workers evs ?e1" by (rule engine_run_one[OF e(1)], rule engine_step.input_closed[OF e(2)])
  from engine_flushes[OF this _ _ _ assms(1)] e obtain e2 where
    "engine_run workers evs e2" "en_phase e2 = Waiting" "\<not> en_ctxDone e2" "en_holding e2 = []" by auto
  from engine_works_off[OF this assms] obtain e3 where e3:
    "engine_run workers evs e3" "en_phase e3 = Waiting" "\<not> en_ctxDone e3" "en_holding e3 = []" "en_waiting e3 = []" by blast
  have "engine_run workers evs (e3\<lparr>en_phase := Closed\<rparr>)"
    by (rule engine_run_one[OF e3(1)], rule engine_step.close_updates) (use e3 in simp_all)
  with e3(3) show ?thesis by (intro exI[of _ "e3\<lparr>en_phase := Closed\<rparr>"]) simp
qed

lemma worker_capacity_pos: "0 < worker_capacity r"
  by (simp add: worker_capacity_def defaultRouterBuffer_def)



section \<open>From arrival to verdict\<close>

lemma received_split:
  assumes "received ins = body @ [fin]"
  obtains pre post where "ins = pre @ Received fin # post" "received pre = body" "received post = []"
  using assms
proof (induction ins arbitrary: body thesis rule: received.induct[case_names none event ctx closed_in idle])
  case (event ev ins)
  show ?case
  proof (cases body)
    case Nil
    with event.prems show ?thesis by (intro event.prems(1)[of "[]" ins]) simp_all
  next
    case (Cons b bs)
    with event.prems(2) have "received ins = bs @ [fin]" by simp
    then obtain pre post where "ins = pre @ Received fin # post" "received pre = bs" "received post = []"
      using event.IH by blast
    with Cons event.prems show ?thesis by (intro event.prems(1)[of "Received ev # pre" post]) simp_all
  qed
next
  case (ctx ins)
  then obtain pre post where "ins = pre @ Received fin # post" "received pre = body" "received post = []" by auto
  then show ?case by (intro ctx(2)[of "CtxDone # pre" post]) simp_all
next
  case (closed_in ins)
  then obtain pre post where "ins = pre @ Received fin # post" "received pre = body" "received post = []" by auto
  then show ?case by (intro closed_in(2)[of "InClosed # pre" post]) simp_all
next
  case (idle ins)
  then obtain pre post where "ins = pre @ Received fin # post" "received pre = body" "received post = []" by auto
  then show ?case by (intro idle(2)[of "IdleFired # pre" post]) simp_all
qed simp

lemma drained_idles:
  "p_events p = [] \<Longrightarrow> received post = [] \<Longrightarrow> CtxDone \<notin> set post \<Longrightarrow> InClosed \<notin> set post \<Longrightarrow>
     proc_Run never p out (post @ [InClosed]) = (p, out, Returned None)"
proof (induction post rule: received.induct[case_names none event ctx closed_in idle])
  case none
  then have "proc_Flush never p out = (p, out, None)" by (subst proc_Flush.simps) simp
  then show ?case by simp
next
  case (idle ins)
  then have "proc_Flush never p out = (p, out, None)" by (subst proc_Flush.simps) simp
  with idle show ?case by simp
qed auto

lemma worker_output_ends:
  assumes "CtxDone \<notin> set ins" and "InClosed \<notin> set ins" and "received ins = body @ [fin]"
    and "int (length body) + 1 < 2 ^ 64" and "ev_endOfRun fin"
    and "\<forall>ev \<in> set body. ev_eventTimestamp ev \<le> ev_eventTimestamp fin"
    and "proc_Run never (NewProcessor lateness) [] (ins @ [InClosed]) = (p, out, Returned None)"
  shows "\<exists>o'. out = o' @ [fin] \<and> mset o' = mset body"
proof -
  obtain pre post where ins: "ins = pre @ Received fin # post" "received pre = body" "received post = []"
    by (rule received_split[OF assms(3)])
  then obtain q o' where q: "proc_Run never (NewProcessor lateness) [] (pre @ [Received fin]) = (q, o' @ [fin], Running)"
    "mset o' = mset body"
    using marker_last_rel[of pre fin lateness] assms(1,2,4,5,6) by auto
  have new: "heap_ok (p_events (NewProcessor lateness))" "held (NewProcessor lateness) = {#}"
    by (simp_all add: NewProcessor_def Let_def held_def)
  have "held q = {#}" using proc_Run_conserves[OF q(1) new(1)] new(2) q(2) ins(2) by auto
  then have "p_events q = []" by (simp add: held_def)
  have "proc_Run never (NewProcessor lateness) [] (ins @ [InClosed]) = proc_Run never q (o' @ [fin]) (post @ [InClosed])"
    using proc_Run_append[OF q(1), of "post @ [InClosed]"] ins(1) by simp
  also have "\<dots> = (q, o' @ [fin], Returned None)"
    using drained_idles[OF \<open>p_events q = []\<close> ins(3)] assms(1,2) ins(1) by simp
  finally show ?thesis using assms(7) q(2) by auto
qed

lemma honest_stream_verdict:
  assumes "honest h evs" and "length evs < 2 ^ 50" and "set (body @ [fin]) = set evs"
    and "ev_endOfRun fin" and "\<forall>ev \<in> set body. \<not> ev_endOfRun ev" and "mset o' = mset body" and "ranges_ok rng"
  shows "finalize rng sid (upto_end (o' @ [fin])) =
    Inr \<lparr>cu_submissionID = sid, cu_verdict = VerdictCorrect, cu_reason = []\<rparr>"
proof -
  have o': "set o' = set body" using assms(6) by (metis set_mset_mset)
  then have "upto_end (o' @ [fin]) = o' @ [fin]" using assms(5) by (subst upto_end_snoc) auto
  moreover have "Replay rng (o' @ [fin]) = Inr (VerdictCorrect, [])"
    using o' assms(3) by (intro honest_passes_rel[OF assms(1) _ assms(7,2)]) auto
  ultimately show ?thesis using assms(4) by (simp add: finalize_def)
qed

text \<open>The heart of the theorem below, and of the one about the leaderboard in \<open>EndToEnd\<close>.\<close>

lemma pipeline_verdict:
  assumes "honest h evs" and "length evs < 2 ^ 50" and "sid \<noteq> []"
    and "sub_events sid arrivals = body @ [fin]" and "set (body @ [fin]) = set evs"
    and "ev_endOfRun fin" and "\<forall>ev \<in> set body. \<not> ev_endOfRun ev \<and> ev_eventTimestamp ev \<le> ev_eventTimestamp fin"
    and "int (length body) + 1 < 2 ^ 64"
    and "router_run r arrivals rs" and "rt_phase rs = RtClosed" and "\<not> rt_ctxDone rs"
    and "engine_run workers (rt_out rs) e" and "en_phase e = Closed" and "\<not> en_ctxDone e"
  shows "filter (\<lambda>u. cu_submissionID u = sid) (en_updates e) =
    [\<lparr>cu_submissionID = sid, cu_verdict = VerdictCorrect, cu_reason = []\<rparr>]"
proof -
  obtain p ins where ins: "CtxDone \<notin> set ins" "InClosed \<notin> set ins" "received ins = body @ [fin]"
    "proc_Run never (NewProcessor (ro_AllowedLateness r)) [] (ins @ [InClosed]) = (p, sub_events sid (rt_out rs), Returned None)"
    using router_run_worker[OF assms(9,11,10,3)] assms(4) by auto
  obtain o' where o': "sub_events sid (rt_out rs) = o' @ [fin]" "mset o' = mset body"
    using worker_output_ends[OF ins(1-3) assms(8,6) _ ins(4)] assms(7) by auto
  have evs: "events_of sid (rt_out rs) = upto_end (o' @ [fin])"
    using o'(1) by (simp add: events_of_def sub_events_def)
  let ?u = "\<lparr>cu_submissionID = sid, cu_verdict = VerdictCorrect, cu_reason = []\<rparr>"
  have only: "u = ?u" if "u \<in> set (en_updates e)" "cu_submissionID u = sid" for u
  proof -
    have "\<exists>rng. ranges_ok rng \<and> finalize rng (cu_submissionID u) (events_of (cu_submissionID u) (rt_out rs)) = Inr u"
      using engine_run_knows[OF assms(12)] that(1) unfolding engine_knows_def by blast
    with that(2) obtain rng where "ranges_ok rng" "finalize rng sid (events_of sid (rt_out rs)) = Inr u" by blast
    then show ?thesis
      using honest_stream_verdict[OF assms(1,2,5,6) _ o'(2)] assms(7) evs by auto
  qed
  have inv: "engine_inv workers e" by (rule engine_run_inv[OF assms(12)])
  have dist: "distinct (map cu_submissionID (en_updates e))" using inv by (simp add: engine_inv_def owned_ids_def)
  have "fin \<in> set (sub_events sid (rt_out rs))" using o'(1) by simp
  then have "fin \<in> set (rt_out rs)" "ev_submissionID fin = sid" by (simp_all add: sub_events_def)
  then have "sid \<in> set (map cu_submissionID (en_updates e))"
    using engine_run_complete[OF assms(12)] inv assms(3,13,14)
    by (auto simp: engine_complete_def engine_inv_def owned_ids_def simp del: set_map)
  then obtain u where "u \<in> set (en_updates e)" "cu_submissionID u = sid" by auto
  with only have u: "?u \<in> set (en_updates e)" by auto
  then obtain xs ys where xs: "en_updates e = xs @ ?u # ys" by (auto simp: in_set_conv_decomp)
  with dist have "sid \<notin> cu_submissionID ` set xs" "sid \<notin> cu_submissionID ` set ys" by auto
  then have "filter (\<lambda>u. cu_submissionID u = sid) xs = []" "filter (\<lambda>u. cu_submissionID u = sid) ys = []"
    by (auto simp: filter_empty_conv)
  with xs show ?thesis by simp
qed

text \<open>
  C1. End to end: when the stream of a correct engine reaches the checker in any order and with repeats,
  its end marker being newest in event time, then for every lateness, every buffer size, every number of
  workers, every interleaving with the events of other submissions and every schedule of the goroutines
  the submission gets exactly one verdict, and it is Correct.
\<close>

theorem pipeline_honest_passes:
  assumes "honest h evs" and "length evs < 2 ^ 50" and "sid \<noteq> []"
    and "sub_events sid arrivals = body @ [fin]" and "set (body @ [fin]) = set evs"
    and "ev_endOfRun fin" and "\<forall>ev \<in> set body. \<not> ev_endOfRun ev \<and> ev_eventTimestamp ev \<le> ev_eventTimestamp fin"
    and "int (length body) + 1 < 2 ^ 64"
    and "router_run r arrivals rs" and "rt_phase rs = RtClosed" and "\<not> rt_ctxDone rs"
    and "engine_run workers (rt_out rs) e" and "en_phase e = Closed" and "\<not> en_ctxDone e"
  shows "filter (\<lambda>u. cu_submissionID u = sid) (en_updates e) =
    [\<lparr>cu_submissionID = sid, cu_verdict = VerdictCorrect, cu_reason = []\<rparr>]"
  by (rule pipeline_verdict[OF assms])

section \<open>A run of the pipeline\<close>

definition named :: "string \<Rightarrow> order_event \<Rightarrow> order_event" where
  "named x ev = ev\<lparr>ev_submissionID := x\<rparr>"

lemma named_fields [simp]:
  "ev_seq (named x ev) = ev_seq ev" "ev_endOfRun (named x ev) = ev_endOfRun ev" "ev_outcome (named x ev) = ev_outcome ev"
  "ev_action (named x ev) = ev_action ev" "ev_orderID (named x ev) = ev_orderID ev" "ev_volume (named x ev) = ev_volume ev"
  "ev_eventTimestamp (named x ev) = ev_eventTimestamp ev" "ev_submissionID (named x ev) = x"
  "acknowledged (named x ev) = acknowledged ev" "honest_submit h (named x ev) = honest_submit h ev"
  "honest_order h (named x ev) = honest_order h ev" "honest_cancel h (named x ev) = honest_cancel h ev"
  "fill_reports h agg t (named x ev) = fill_reports h agg t ev"
  by (simp_all add: named_def acknowledged_def honest_submit_def honest_order_def honest_cancel_def fill_reports_def)

lemma honest_named: "honest h evs \<Longrightarrow> honest h (map (named x) evs)"
proof (induction rule: honest.induct)
  case init
  then show ?case by (simp add: honest.init)
next
  case (order h evs ev trades fills)
  have "honest ((honest_order h (named x ev))\<lparr>hs_seq := hs_seq h + 1 + int (length (map (named x) fills))\<rparr>)
      (map (named x) evs @ named x ev # map (named x) fills)"
    by (rule honest.order[of _ _ _ trades]) (use order in \<open>simp_all add: list_all2_map2 comp_def\<close>)
  then show ?case by simp
next
  case (cancel h evs ev)
  have "honest ((honest_cancel h (named x ev))\<lparr>hs_seq := hs_seq h + 1\<rparr>) (map (named x) evs @ [named x ev])"
    by (rule honest.cancel) (use cancel in simp_all)
  then show ?case by simp
next
  case (rejected h evs ev)
  have "honest (h\<lparr>hs_seq := hs_seq h + 1\<rparr>) (map (named x) evs @ [named x ev])"
    by (rule honest.rejected) (use rejected in simp_all)
  then show ?case by simp
next
  case (finish h evs ev)
  have "honest (h\<lparr>hs_seq := hs_seq h + 1\<rparr>) (map (named x) evs @ [named x ev])"
    by (rule honest.finish) (use finish in simp_all)
  then show ?case by simp
qed

definition sample_body :: "order_event list" where
  "sample_body = [named ''s'' (sample_stream ! 2), named ''s'' (sample_stream ! 0), named ''s'' (sample_stream ! 1)]"

definition sample_fin :: order_event where
  "sample_fin = named ''s'' (sample_stream ! 3)"

lemma sample_arrival:
  "sub_events ''s'' (sample_body @ [sample_fin]) = sample_body @ [sample_fin]"
  "set (sample_body @ [sample_fin]) = set (map (named ''s'') sample_stream)"
  "ev_endOfRun sample_fin"
  "(\<forall>ev \<in> set sample_body. \<not> ev_endOfRun ev \<and> ev_eventTimestamp ev \<le> ev_eventTimestamp sample_fin)"
  by (auto simp: sub_events_def sample_body_def sample_fin_def sample_stream_def zero_event_def)

lemma sample_arrival_volumes: "volumes_ok (sample_body @ [sample_fin])"
  by (simp add: volumes_ok_def sample_body_def sample_fin_def sample_stream_def zero_event_def in_i64_def)

text \<open>
  The fill arrives first, before the two orders it belongs to: the pipeline started on these four
  events can finish, and then it has published Correct.
\<close>

theorem pipeline_honest_passes_witness:
  "\<exists>rs e. router_run (NewRouter 2000) (sample_body @ [sample_fin]) rs \<and> engine_run 2 (rt_out rs) e \<and>
     filter (\<lambda>u. cu_submissionID u = ''s'') (en_updates e) =
       [\<lparr>cu_submissionID = ''s'', cu_verdict = VerdictCorrect, cu_reason = []\<rparr>]"
proof -
  obtain rs where rs: "router_run (NewRouter 2000) (sample_body @ [sample_fin]) rs" "rt_phase rs = RtClosed" "\<not> rt_ctxDone rs"
    using router_can_finish[OF worker_capacity_pos] by blast
  have "volumes_ok (rt_out rs)"
    using router_out_set[OF rs(1,3,2)] sample_arrival_volumes by (auto simp: volumes_ok_def)
  then obtain e where e: "engine_run 2 (rt_out rs) e" "en_phase e = Closed" "\<not> en_ctxDone e"
    using engine_can_finish[of "rt_out rs" 2] by auto
  obtain h where "honest h (map (named ''s'') sample_stream)" using sample_honest honest_named by blast
  from pipeline_honest_passes[OF this _ _ sample_arrival _ rs e] have
    "filter (\<lambda>u. cu_submissionID u = ''s'') (en_updates e) =
       [\<lparr>cu_submissionID = ''s'', cu_verdict = VerdictCorrect, cu_reason = []\<rparr>]"
    by (simp add: sample_stream_def sample_body_def)
  with rs(1) e(1) show ?thesis by blast
qed

end
