(* ===== verification/Aggregator.thy ===== *)
theory Aggregator
  imports Models
begin

text \<open>
  The score aggregator (\<open>aggregator/aggregator.go\<close>): the histogram functions, the state kept per
  submission, and the loop of \<open>Run\<close>. The clock and the order of the loop over the map of states are
  arguments; a \<open>*submissionState\<close> is the entry of the map, updated in place.
\<close>

section \<open>Histograms\<close>

definition BucketUpperBoundsMs :: "f64 list" where
  "BucketUpperBoundsMs = map rnd
     [5 / 100, 1 / 10, 1 / 4, 1 / 2, 3 / 4, 1, 2, 3, 5, 15 / 2, 10, 15, 25, 50, 100, 250, 500, 1000]"

definition histogramTotal :: "int list \<Rightarrow> int" where
  "histogramTotal histogram = fold (\<lambda>n total. i64 (total + n)) histogram 0"

text \<open>The loop over the buckets: the index at which the running count reaches the target.\<close>

fun bucket_loop :: "int \<Rightarrow> int \<Rightarrow> nat \<Rightarrow> int list \<Rightarrow> nat option" where
  "bucket_loop target cumulative index [] = None"
| "bucket_loop target cumulative index (n # ns) =
     (let cumulative' = i64 (cumulative + n) in
      if target \<le> cumulative' then Some index else bucket_loop target cumulative' (index + 1) ns)"

definition percentile_target :: "int \<Rightarrow> f64 \<Rightarrow> int" where
  "percentile_target n percentile =
     (let target = int64_of (math_Ceil (f64_div (f64_mul (f64_of_int n) percentile) (Fin 100)))
      in if target < 1 then 1 else target)"

definition PercentileBucketIndex :: "int list \<Rightarrow> f64 \<Rightarrow> int" where
  "PercentileBucketIndex histogram percentile =
     (let total = histogramTotal histogram in
      if total = 0 then - 1
      else (case bucket_loop (percentile_target total percentile) 0 0 histogram of
              Some index \<Rightarrow> int index
            | None \<Rightarrow> int (length histogram) - 1))"

definition PercentileMs :: "int list \<Rightarrow> f64 \<Rightarrow> f64" where
  "PercentileMs histogram percentile =
     (let index = PercentileBucketIndex histogram percentile in
      if index < 0 then Fin 0
      else if index < int (length BucketUpperBoundsMs) then BucketUpperBoundsMs ! nat index
      else BucketUpperBoundsMs ! (length BucketUpperBoundsMs - 1))"

text \<open>The loop of \<open>mergeHistogram\<close>, which runs when \<open>dst\<close> is at least as long as \<open>src\<close>.\<close>

fun add_counts :: "int list \<Rightarrow> int list \<Rightarrow> int list" where
  "add_counts (d # dst) (n # src) = i64 (d + n) # add_counts dst src"
| "add_counts dst src = dst"

definition mergeHistogram :: "int list \<Rightarrow> int list option \<Rightarrow> int list" where
  "mergeHistogram dst src =
     (let s = (case src of None \<Rightarrow> [] | Some s \<Rightarrow> s) in
      if s = [] then dst
      else add_counts (if length dst < length s then dst @ replicate (length s - length dst) 0 else dst) s)"

section \<open>State\<close>

record submission_state =
  ss_http200Delta :: int
  ss_lastFlush :: int
  ss_histogram :: "int list"
  ss_verdict :: verdict
  ss_lastTPS :: int
  ss_lastP50 :: f64
  ss_lastP90 :: f64
  ss_lastP99 :: f64
  ss_lastP99Bucket :: int

record aggregator =
  ag_FlushInterval :: int
  ag_states :: "(string, submission_state) gomap"

definition New_aggregator :: "int \<Rightarrow> aggregator" where
  "New_aggregator flushInterval =
     \<lparr>ag_FlushInterval = (if flushInterval \<le> 0 then 1000000000 else flushInterval), ag_states = []\<rparr>"

definition new_submission_state :: "int \<Rightarrow> submission_state" where
  "new_submission_state now =
     \<lparr>ss_http200Delta = 0, ss_lastFlush = now, ss_histogram = [], ss_verdict = VerdictUnverified,
      ss_lastTPS = 0, ss_lastP50 = Fin 0, ss_lastP90 = Fin 0, ss_lastP99 = Fin 0, ss_lastP99Bucket = - 1\<rparr>"

definition agg_state :: "int \<Rightarrow> string \<Rightarrow> aggregator \<Rightarrow> submission_state \<times> aggregator" where
  "agg_state now submissionID ag =
     (case gm_get (ag_states ag) submissionID of
        Some st \<Rightarrow> (st, ag)
      | None \<Rightarrow> (let st = new_submission_state now in
                 (st, ag\<lparr>ag_states := gm_put submissionID st (ag_states ag)\<rparr>)))"

definition set_state :: "string \<Rightarrow> submission_state \<Rightarrow> aggregator \<Rightarrow> aggregator" where
  "set_state submissionID st ag = ag\<lparr>ag_states := gm_put submissionID st (ag_states ag)\<rparr>"

definition AddBatch :: "int \<Rightarrow> metrics_batch \<Rightarrow> aggregator \<Rightarrow> aggregator" where
  "AddBatch now batch ag =
     (if mb_submissionID batch = [] then ag
      else (let (st, ag') = agg_state now (mb_submissionID batch) ag in
            set_state (mb_submissionID batch)
              (st\<lparr>ss_http200Delta := i64 (ss_http200Delta st + mb_http200 batch),
                  ss_histogram := mergeHistogram (ss_histogram st) (mb_histogram batch)\<rparr>) ag'))"

definition ApplyCorrectness :: "int \<Rightarrow> correctness_update \<Rightarrow> aggregator \<Rightarrow> aggregator" where
  "ApplyCorrectness now update ag =
     (if cu_submissionID update = [] then ag
      else (let (st, ag') = agg_state now (cu_submissionID update) ag in
            set_state (cu_submissionID update) (st\<lparr>ss_verdict := cu_verdict update\<rparr>) ag'))"

section \<open>Scores\<close>

definition scoreFor :: "string \<Rightarrow> submission_state \<Rightarrow> score" where
  "scoreFor submissionID st =
     \<lparr>sc_submissionID = submissionID, sc_teamName = submissionID, sc_tps = ss_lastTPS st,
      sc_p50Ms = ss_lastP50 st, sc_p90Ms = ss_lastP90 st, sc_p99Ms = ss_lastP99 st,
      sc_p99Bucket = ss_lastP99Bucket st, sc_verdict = ss_verdict st\<rparr>"

definition agg_send :: "(nat \<Rightarrow> bool) \<Rightarrow> score list \<Rightarrow> score \<Rightarrow> score list option" where
  "agg_send c out value = chan_send c out value"

definition emitVerdict :: "(nat \<Rightarrow> bool) \<Rightarrow> int \<Rightarrow> string \<Rightarrow> aggregator \<Rightarrow> score list \<Rightarrow>
    aggregator \<times> score list \<times> ctx_err option" where
  "emitVerdict c now submissionID ag out =
     (let (st, ag') = agg_state now submissionID ag in
      case agg_send c out (scoreFor submissionID st) of
        None \<Rightarrow> (ag', out, Some CtxErr)
      | Some out' \<Rightarrow> (ag', out', None))"

text \<open>
  \<open>now.Sub(t)\<close> saturates; \<open>Seconds()\<close> adds the whole seconds and the rest as floats. Go's \<open>/\<close> and
  \<open>%\<close> truncate towards zero.
\<close>

definition time_Sub :: "int \<Rightarrow> int \<Rightarrow> int" where
  "time_Sub now t = (let d = now - t in
     if d < - (2 ^ 63) then - (2 ^ 63) else if 2 ^ 63 - 1 < d then 2 ^ 63 - 1 else d)"

definition duration_Seconds :: "int \<Rightarrow> f64" where
  "duration_Seconds d =
     (let sec = sgn d * (\<bar>d\<bar> div 1000000000); nsec = sgn d * (\<bar>d\<bar> mod 1000000000)
      in f64_add (f64_of_int sec) (f64_div (f64_of_int nsec) (Fin 1000000000)))"

definition flush_tps :: "int \<Rightarrow> submission_state \<Rightarrow> int" where
  "flush_tps now st =
     (let elapsed = duration_Seconds (time_Sub now (ss_lastFlush st)) in
      if f64_less (Fin 0) elapsed
      then int64_of (math_Round (f64_div (f64_of_int (ss_http200Delta st)) elapsed)) else 0)"

text \<open>The two halves of the loop body of \<open>Flush\<close>: before the send and after it.\<close>

definition flush_idle :: "submission_state \<Rightarrow> bool" where
  "flush_idle st \<longleftrightarrow> ss_http200Delta st = 0 \<and> histogramTotal (ss_histogram st) = 0"

definition flush_measure :: "int \<Rightarrow> submission_state \<Rightarrow> submission_state" where
  "flush_measure now st = st\<lparr>ss_lastTPS := flush_tps now st,
     ss_lastP50 := PercentileMs (ss_histogram st) (Fin 50),
     ss_lastP90 := PercentileMs (ss_histogram st) (Fin 90),
     ss_lastP99 := PercentileMs (ss_histogram st) (Fin 99),
     ss_lastP99Bucket := PercentileBucketIndex (ss_histogram st) (Fin 99)\<rparr>"

definition flush_reset :: "int \<Rightarrow> submission_state \<Rightarrow> submission_state" where
  "flush_reset now st = st\<lparr>ss_http200Delta := 0, ss_lastFlush := now,
     ss_histogram := replicate (length (ss_histogram st)) 0\<rparr>"

fun flush_loop :: "(nat \<Rightarrow> bool) \<Rightarrow> int \<Rightarrow> string list \<Rightarrow> aggregator \<Rightarrow> score list \<Rightarrow>
    aggregator \<times> score list \<times> ctx_err option" where
  "flush_loop c now [] ag out = (ag, out, None)"
| "flush_loop c now (k # ks) ag out =
     (case gm_get (ag_states ag) k of
        None \<Rightarrow> flush_loop c now ks ag out
      | Some st \<Rightarrow>
          if flush_idle st then flush_loop c now ks ag out
          else (let st1 = flush_measure now st in
                case agg_send c out (scoreFor k st1) of
                  None \<Rightarrow> (set_state k st1 ag, out, Some CtxErr)
                | Some out' \<Rightarrow> flush_loop c now ks (set_state k (flush_reset now st1) ag) out'))"

definition agg_Flush :: "(nat \<Rightarrow> bool) \<Rightarrow> int \<Rightarrow> (string list \<Rightarrow> string list) \<Rightarrow> aggregator \<Rightarrow> score list \<Rightarrow>
    aggregator \<times> score list \<times> ctx_err option" where
  "agg_Flush c now rng ag out = flush_loop c now (rng (gm_keys (ag_states ag))) ag out"

section \<open>The loop of Run\<close>

text \<open>
  One step is one round of the \<open>select\<close>. \<open>AgLooping\<close> remembers which of the two channels are still
  open (not \<open>nil\<close>); when both are closed \<open>Run\<close> flushes a last time. In every way out the channel of
  scores is closed.
\<close>

datatype agg_phase = AgLooping bool bool | AgFinishing | AgClosed "ctx_err option"

datatype agg_event = AgBatch metrics_batch | AgUpdate correctness_update | AgOther

record agg_sys =
  as_agg :: aggregator
  as_out :: "score list"
  as_phase :: agg_phase

definition agg_start :: "int \<Rightarrow> agg_sys" where
  "agg_start flushInterval = \<lparr>as_agg = New_aggregator flushInterval, as_out = [], as_phase = AgLooping True True\<rparr>"

definition agg_goes_on :: "bool \<Rightarrow> bool \<Rightarrow> agg_phase" where
  "agg_goes_on metrics correctness = (if metrics \<or> correctness then AgLooping metrics correctness else AgFinishing)"

definition agg_after :: "agg_sys \<Rightarrow> aggregator \<times> score list \<times> ctx_err option \<Rightarrow> agg_phase \<Rightarrow> agg_sys" where
  "agg_after s r next = (case r of (ag, out, err) \<Rightarrow>
     \<lparr>as_agg = ag, as_out = out, as_phase = (if err = None then next else AgClosed err)\<rparr>)"

inductive agg_step :: "agg_sys \<Rightarrow> agg_event \<Rightarrow> agg_sys \<Rightarrow> bool" where
  ctx_done: "as_phase s = AgLooping m c \<Longrightarrow> agg_step s AgOther (s\<lparr>as_phase := AgClosed (Some CtxErr)\<rparr>)"
| batch: "as_phase s = AgLooping True c \<Longrightarrow>
    agg_step s (AgBatch b) (s\<lparr>as_agg := AddBatch now b (as_agg s)\<rparr>)"
| metrics_closed: "as_phase s = AgLooping True c \<Longrightarrow>
    agg_step s AgOther (s\<lparr>as_phase := agg_goes_on False c\<rparr>)"
| update: "as_phase s = AgLooping m True \<Longrightarrow>
    agg_step s (AgUpdate u)
      (agg_after s (emitVerdict cancel now' (cu_submissionID u) (ApplyCorrectness now u (as_agg s)) (as_out s))
         (as_phase s))"
| correctness_closed: "as_phase s = AgLooping m True \<Longrightarrow>
    agg_step s AgOther (s\<lparr>as_phase := agg_goes_on m False\<rparr>)"
| tick: "as_phase s = AgLooping m c \<Longrightarrow> mset (rng (gm_keys (ag_states (as_agg s)))) = mset (gm_keys (ag_states (as_agg s))) \<Longrightarrow>
    agg_step s AgOther (agg_after s (agg_Flush cancel now rng (as_agg s) (as_out s)) (as_phase s))"
| final_flush: "as_phase s = AgFinishing \<Longrightarrow> mset (rng (gm_keys (ag_states (as_agg s)))) = mset (gm_keys (ag_states (as_agg s))) \<Longrightarrow>
    agg_step s AgOther (agg_after s (agg_Flush cancel now rng (as_agg s) (as_out s)) (AgClosed None))"

inductive agg_run :: "int \<Rightarrow> agg_event list \<Rightarrow> agg_sys \<Rightarrow> bool" for flushInterval :: int where
  start: "agg_run flushInterval [] (agg_start flushInterval)"
| step: "agg_run flushInterval evs s \<Longrightarrow> agg_step s ev s' \<Longrightarrow> agg_run flushInterval (evs @ [ev]) s'"

section \<open>Totals and percentiles\<close>

lemma fold_i64_sum: "fold (\<lambda>n total. i64 (total + n)) ns (i64 t) = i64 (t + (\<Sum>n \<leftarrow> ns. n))"
proof (induction ns arbitrary: t)
  case (Cons n ns)
  have "fold (\<lambda>n total. i64 (total + n)) (n # ns) (i64 t) = fold (\<lambda>n total. i64 (total + n)) ns (i64 (t + n))" by simp
  also have "\<dots> = i64 (t + n + (\<Sum>n \<leftarrow> ns. n))" by (rule Cons.IH)
  finally show ?case by (simp add: add.assoc)
qed simp

lemma histogramTotal_sum: "histogramTotal h = i64 (\<Sum>n \<leftarrow> h. n)"
  using fold_i64_sum[of h 0] by (simp add: histogramTotal_def)

definition counts_ok :: "int list \<Rightarrow> bool" where
  "counts_ok h \<longleftrightarrow> (\<forall>n \<in> set h. 0 \<le> n) \<and> (\<Sum>n \<leftarrow> h. n) < 2 ^ 46"

lemma counts_ok_Cons: "counts_ok (n # h) \<Longrightarrow> counts_ok h \<and> 0 \<le> n"
  by (auto simp: counts_ok_def)

lemma counts_nonneg: "\<forall>n \<in> set h. 0 \<le> n \<Longrightarrow> 0 \<le> (\<Sum>n \<leftarrow> h. n :: int)"
  by (rule sum_list_nonneg) auto

lemma histogramTotal_exact: "counts_ok h \<Longrightarrow> histogramTotal h = (\<Sum>n \<leftarrow> h. n)"
  using counts_nonneg[of h] by (auto simp: histogramTotal_sum counts_ok_def in_i64_def intro!: i64_id)

lemma bucket_loop_spec:
  assumes "\<forall>n \<in> set h. 0 \<le> n" and "cum < target" and "0 \<le> cum" and "target \<le> cum + (\<Sum>n \<leftarrow> h. n)"
    and "cum + (\<Sum>n \<leftarrow> h. n) < 2 ^ 63"
  shows "\<exists>i. bucket_loop target cum k h = Some (k + i) \<and> i < length h \<and>
    cum + (\<Sum>n \<leftarrow> take i h. n) < target \<and> target \<le> cum + (\<Sum>n \<leftarrow> take (Suc i) h. n)"
  using assms
proof (induction h arbitrary: cum k)
  case (Cons n h)
  have n: "0 \<le> n" "\<forall>n \<in> set h. 0 \<le> n" using Cons.prems(1) by simp_all
  have "i64 (cum + n) = cum + n"
    using Cons.prems n counts_nonneg[OF n(2)] by (intro i64_id) (auto simp: in_i64_def)
  show ?case
  proof (cases "target \<le> cum + n")
    case True
    with \<open>i64 (cum + n) = cum + n\<close> Cons.prems(2) show ?thesis by (intro exI[of _ 0]) (simp add: Let_def)
  next
    case False
    with Cons.IH[of "cum + n" "k + 1"] Cons.prems n obtain i where
      "bucket_loop target (cum + n) (k + 1) h = Some (k + 1 + i)" "i < length h"
      "cum + n + (\<Sum>n \<leftarrow> take i h. n) < target" "target \<le> cum + n + (\<Sum>n \<leftarrow> take (Suc i) h. n)"
      by (auto simp: add.assoc)
    with False \<open>i64 (cum + n) = cum + n\<close> show ?thesis
      by (intro exI[of _ "Suc i"]) (simp add: Let_def add.assoc)
  qed
qed simp

text \<open>The target computed in floating point is the exact one.\<close>

lemma percentile_target_exact:
  assumes "0 < n" and "n < 2 ^ 46" and "1 \<le> p" and "p \<le> 100"
  shows "percentile_target n (Fin (of_int p)) = \<lceil>of_int (n * p) / 100 :: rat\<rceil>"
proof -
  define X where "X = n * p"
  have X: "0 < X" "X \<le> n * 100" using assms by (simp_all add: X_def mult_left_mono)
  then have X53: "X < 2 ^ 53" using assms(2) by simp
  have mul: "f64_mul (f64_of_int n) (Fin (of_int p)) = Fin (of_int X)"
    using f64_of_int_exact[of n] f64_of_int_exact[of X] assms(1,2) X X53 by (simp add: f64_of_int_def X_def)
  have div: "\<exists>y. f64_div (Fin (of_int X)) (Fin 100) = Fin y \<and> \<lceil>y\<rceil> = \<lceil>of_int X / 100 :: rat\<rceil>"
  proof (cases "100 dvd X")
    case True
    then obtain q where q: "X = 100 * q" by (elim dvdE)
    then have "rnd (of_int X / 100) = Fin (of_int q)"
      using f64_of_int_exact[of q] X X53 by (simp add: f64_of_int_def)
    with q show ?thesis by simp
  next
    case False
    let ?x = "of_int X / 100 :: rat" and ?q = "X div 100" and ?r = "X mod 100"
    have r: "1 \<le> ?r" "?r \<le> 99" using False by (simp_all add: mod_eq_0_iff_dvd) presburger+
    have "X = 100 * ?q + ?r" by simp
    then have "(of_int X :: rat) = 100 * of_int ?q + of_int ?r" by (metis of_int_add of_int_mult of_int_numeral)
    then have x: "?x = of_int ?q + of_int ?r / 100" by (simp add: add_divide_distrib)
    have rr: "(1 :: rat) \<le> of_int ?r" "(of_int ?r :: rat) \<le> 99" using r by linarith+
    have q: "0 \<le> ?q" using X by simp
    have pos: "1 / 100 \<le> ?x" using X by simp
    have lt: "?x < 2 ^ 46" using X assms(2) by (simp flip: of_int_less_iff)
    obtain y where y: "rnd ?x = Fin y" "\<bar>y - ?x\<bar> \<le> \<bar>?x\<bar> / 2 ^ 53"
    proof (rule rnd_error[of ?x])
      show "pow2 (- 1022) \<le> \<bar>?x\<bar>" using pos by (intro small_ge) simp
      have "(2 :: rat) ^ 46 \<le> pow2 1000" by (simp add: pow2_def)
      then show "\<bar>?x\<bar> \<le> pow2 1000" using lt pos by linarith
    qed
    have "\<bar>?x\<bar> / 2 ^ 53 < 1 / 100" using lt pos by (simp add: field_simps)
    with y(2) have "\<bar>y - ?x\<bar> < 1 / 100" by linarith
    with x rr have "of_int ?q < y" "y < of_int ?q + 1" by linarith+
    then have "\<lceil>y\<rceil> = ?q + 1" by (intro ceiling_unique) simp_all
    moreover have "\<lceil>?x\<rceil> = ?q + 1" using x rr by (intro ceiling_unique) simp_all
    ultimately show ?thesis using y(1) by simp
  qed
  then obtain y where y: "f64_div (Fin (of_int X)) (Fin 100) = Fin y" "\<lceil>y\<rceil> = \<lceil>of_int X / 100 :: rat\<rceil>" by blast
  have c: "1 \<le> \<lceil>of_int X / 100 :: rat\<rceil>" using X(1) by simp
  have "\<lceil>of_int X / 100 :: rat\<rceil> \<le> X" using X(1) by (intro ceiling_le) simp
  then have "in_i64 \<lceil>of_int X / 100 :: rat\<rceil>" using c X53 by (simp add: in_i64_def)
  with y c show ?thesis
    unfolding percentile_target_def mul X_def[symmetric] by (simp add: Let_def truncate_rat_def)
qed

lemma PercentileBucketIndex_spec:
  assumes "counts_ok h" and "0 < (\<Sum>n \<leftarrow> h. n)" and "1 \<le> p" and "p \<le> 100"
  shows "\<exists>i < length h. PercentileBucketIndex h (Fin (of_int p)) = int i \<and>
    100 * (\<Sum>n \<leftarrow> take i h. n) < p * (\<Sum>n \<leftarrow> h. n) \<and> p * (\<Sum>n \<leftarrow> h. n) \<le> 100 * (\<Sum>n \<leftarrow> take (Suc i) h. n)"
proof -
  let ?N = "\<Sum>n \<leftarrow> h. n" and ?T = "\<lceil>of_int ((\<Sum>n \<leftarrow> h. n) * p) / 100 :: rat\<rceil>"
  define M where "M = ?N * p"
  have N: "0 < ?N" "?N < 2 ^ 46" "\<forall>n \<in> set h. 0 \<le> n" using assms(1,2) by (simp_all add: counts_ok_def)
  have "100 * (\<lceil>of_int M / 100 :: rat\<rceil> - 1) < M \<and> M \<le> 100 * \<lceil>of_int M / 100 :: rat\<rceil>"
  proof -
    have T: "of_int \<lceil>of_int M / 100 :: rat\<rceil> - 1 < (of_int M / 100 :: rat)"
      "(of_int M / 100 :: rat) \<le> of_int \<lceil>of_int M / 100 :: rat\<rceil>"
      using ceiling_correct[of "of_int M / 100 :: rat"] by simp_all
    have "(of_int (100 * (\<lceil>of_int M / 100 :: rat\<rceil> - 1)) :: rat) < of_int M" using T(1) by (simp add: field_simps)
    moreover have "(of_int M :: rat) \<le> of_int (100 * \<lceil>of_int M / 100 :: rat\<rceil>)"
      using T(2) by (simp only: of_int_mult of_int_numeral)
    ultimately show ?thesis by (simp only: of_int_less_iff of_int_le_iff)
  qed
  then have lo: "100 * (?T - 1) < ?N * p" and hi: "?N * p \<le> 100 * ?T" by (simp_all only: M_def)
  have "?N * p \<le> ?N * 100" using N assms(4) by (intro mult_left_mono) simp_all
  with lo have le: "?T \<le> ?N" by linarith
  have "0 < ?N * p" using N assms(3) by simp
  with hi have pos: "0 < ?T" by linarith
  obtain i where i: "bucket_loop ?T 0 0 h = Some i" "i < length h" "(\<Sum>n \<leftarrow> take i h. n) < ?T"
    "?T \<le> (\<Sum>n \<leftarrow> take (Suc i) h. n)"
    using bucket_loop_spec[of h 0 ?T 0] N pos le by auto
  have "PercentileBucketIndex h (Fin (of_int p)) = int i"
    using N i(1) percentile_target_exact[OF N(1,2) assms(3,4)]
    by (simp add: PercentileBucketIndex_def histogramTotal_exact[OF assms(1)])
  moreover have "100 * (\<Sum>n \<leftarrow> take i h. n) < p * ?N" using i(3) lo by (simp add: mult.commute)
  moreover have "p * ?N \<le> 100 * (\<Sum>n \<leftarrow> take (Suc i) h. n)" using i(4) hi by (simp add: mult.commute)
  ultimately show ?thesis using i(2) by blast
qed

lemma take_sum_mono: "\<forall>n \<in> set h. (0 :: int) \<le> n \<Longrightarrow> i \<le> j \<Longrightarrow> (\<Sum>n \<leftarrow> take i h. n) \<le> (\<Sum>n \<leftarrow> take j h. n)"
proof -
  assume a: "\<forall>n \<in> set h. 0 \<le> n" "i \<le> j"
  have "take j h = take i h @ take (j - i) (drop i h)" using a(2) by (metis le_add_diff_inverse take_add)
  moreover have "0 \<le> (\<Sum>n \<leftarrow> take (j - i) (drop i h). n)"
    using a(1) by (intro counts_nonneg) (meson in_set_dropD in_set_takeD)
  ultimately show ?thesis by simp
qed

lemma percentile_mono:
  assumes "counts_ok h" and "0 < (\<Sum>n \<leftarrow> h. n)" and "1 \<le> p" and "p \<le> q" and "q \<le> 100"
  shows "0 \<le> PercentileBucketIndex h (Fin (of_int p)) \<and>
    PercentileBucketIndex h (Fin (of_int p)) \<le> PercentileBucketIndex h (Fin (of_int q)) \<and>
    PercentileBucketIndex h (Fin (of_int q)) < int (length h)"
proof -
  obtain i where i: "i < length h" "PercentileBucketIndex h (Fin (of_int p)) = int i"
    "100 * (\<Sum>n \<leftarrow> take i h. n) < p * (\<Sum>n \<leftarrow> h. n)"
    using PercentileBucketIndex_spec[OF assms(1-3)] assms(4,5) by auto
  obtain j where j: "j < length h" "PercentileBucketIndex h (Fin (of_int q)) = int j"
    "q * (\<Sum>n \<leftarrow> h. n) \<le> 100 * (\<Sum>n \<leftarrow> take (Suc j) h. n)"
    using PercentileBucketIndex_spec[OF assms(1,2), of q] assms(3,4,5) by auto
  have "i \<le> j"
  proof (rule ccontr)
    assume "\<not> i \<le> j"
    then have "(\<Sum>n \<leftarrow> take (Suc j) h. n) \<le> (\<Sum>n \<leftarrow> take i h. n)"
      using assms(1) by (intro take_sum_mono) (auto simp: counts_ok_def)
    moreover have "p * (\<Sum>n \<leftarrow> h. n) \<le> q * (\<Sum>n \<leftarrow> h. n)" using assms(2,4) by (simp add: mult_right_mono)
    ultimately show False using i(3) j(3) by linarith
  qed
  with i j show ?thesis by simp
qed

text \<open>The bounds of the buckets increase, after rounding to \<open>float64\<close> too.\<close>

lemma bounds_increase: "Suc i < length BucketUpperBoundsMs \<Longrightarrow>
    f64_less (BucketUpperBoundsMs ! i) (BucketUpperBoundsMs ! Suc i)"
proof -
  let ?b = "[5 / 100, 1 / 10, 1 / 4, 1 / 2, 3 / 4, 1, 2, 3, 5, 15 / 2, 10, 15, 25, 50, 100, 250, 500, 1000] :: rat list"
  assume i: "Suc i < length BucketUpperBoundsMs"
  then have i18: "i < 17" by (simp add: BucketUpperBoundsMs_def)
  have small: "pow2 (- 1022) \<le> 1 / 100" "(1000 :: rat) \<le> pow2 1000" by (simp_all add: pow2_def)
  have b: "BucketUpperBoundsMs ! k = rnd (?b ! k)" if "k < 18" for k
    using that unfolding BucketUpperBoundsMs_def by (subst nth_map) simp_all
  have "1 / 100 \<le> ?b ! i \<and> ?b ! i \<le> ?b ! Suc i \<and> ?b ! Suc i \<le> 1000 \<and> ?b ! i + (?b ! i + ?b ! Suc i) / 2 ^ 53 < ?b ! Suc i"
    using i18 by (auto simp: less_Suc_eq numeral_eq_Suc)
  then have "f64_less (rnd (?b ! i)) (rnd (?b ! Suc i))"
    using small by (intro rnd_less) linarith+
  with i18 show ?thesis by (simp only: b)
qed

lemma bounds_mono:
  assumes "i \<le> j" and "j < length BucketUpperBoundsMs"
  shows "f64_le (BucketUpperBoundsMs ! i) (BucketUpperBoundsMs ! j)"
proof -
  let ?B = "BucketUpperBoundsMs"
  have fin: "\<exists>r. ?B ! k = Fin r" if "k < length ?B" for k
  proof -
    let ?b = "[5 / 100, 1 / 10, 1 / 4, 1 / 2, 3 / 4, 1, 2, 3, 5, 15 / 2, 10, 15, 25, 50, 100, 250, 500, 1000] :: rat list"
    from that have k: "k < 18" by (simp add: BucketUpperBoundsMs_def)
    have B: "?B ! k = rnd (?b ! k)" using k unfolding BucketUpperBoundsMs_def by (subst nth_map) simp_all
    have small: "pow2 (- 1022) \<le> 1 / 100" "(1000 :: rat) \<le> pow2 1000" by (simp_all add: pow2_def)
    have "1 / 100 \<le> ?b ! k \<and> ?b ! k \<le> 1000" using k by (auto simp: less_Suc_eq numeral_eq_Suc)
    then have r: "pow2 (- 1022) \<le> \<bar>?b ! k\<bar>" "\<bar>?b ! k\<bar> \<le> pow2 1000" using small by linarith+
    show ?thesis unfolding B by (rule rnd_error[OF r]) blast
  qed
  define r where "r k = (case ?B ! k of Fin x \<Rightarrow> x | _ \<Rightarrow> 0)" for k
  have r: "?B ! k = Fin (r k)" if "k < length ?B" for k using fin[OF that] by (auto simp: r_def)
  have "r i \<le> r j"
    using assms
  proof (induction j rule: dec_induct)
    case (step k)
    then have "r i \<le> r k" by simp
    also have "r k < r (Suc k)" using bounds_increase[of k] r[of k] r[of "Suc k"] step.prems by simp
    finally show ?case by simp
  qed simp
  then show ?thesis using r[of i] r[of j] assms by simp
qed

lemma PercentileMs_mono:
  assumes "0 \<le> PercentileBucketIndex h p" and "PercentileBucketIndex h p \<le> PercentileBucketIndex h q"
  shows "f64_le (PercentileMs h p) (PercentileMs h q)"
proof -
  let ?n = "length BucketUpperBoundsMs"
  have n: "?n = 18" by (simp add: BucketUpperBoundsMs_def)
  have ms: "PercentileMs h x = BucketUpperBoundsMs ! min (nat (PercentileBucketIndex h x)) (?n - 1)"
    if "0 \<le> PercentileBucketIndex h x" for x
    using that n by (auto simp: PercentileMs_def Let_def min_def)
  have "min (nat (PercentileBucketIndex h p)) (?n - 1) \<le> min (nat (PercentileBucketIndex h q)) (?n - 1)"
    using assms by (intro min.mono nat_mono) simp_all
  moreover have "min (nat (PercentileBucketIndex h q)) (?n - 1) < ?n" using n by simp
  ultimately show ?thesis using ms[of p] ms[of q] assms bounds_mono by simp
qed

text \<open>
  C16. Percentiles are exact: for a histogram of fewer than \<open>2 ^ 46\<close> observations, the bucket reported for
  the \<open>p\<close>-th percentile is the first one up to which at least \<open>p\<close> percent of the observations lie, although
  the target is computed in \<open>float64\<close>; and the reported latencies grow with the percentile, so p50, p90
  and p99 are never out of order.
\<close>

theorem percentile_correct:
  assumes "counts_ok h" and "0 < (\<Sum>n \<leftarrow> h. n)" and "1 \<le> p" and "p \<le> q" and "q \<le> 100"
  shows "(\<exists>i < length h. PercentileBucketIndex h (Fin (of_int p)) = int i \<and>
      100 * (\<Sum>n \<leftarrow> take i h. n) < p * (\<Sum>n \<leftarrow> h. n) \<and>
      p * (\<Sum>n \<leftarrow> h. n) \<le> 100 * (\<Sum>n \<leftarrow> take (Suc i) h. n)) \<and>
    f64_le (PercentileMs h (Fin (of_int p))) (PercentileMs h (Fin (of_int q)))"
proof
  have "p \<le> 100" using assms(4,5) by simp
  then show "\<exists>i < length h. PercentileBucketIndex h (Fin (of_int p)) = int i \<and>
      100 * (\<Sum>n \<leftarrow> take i h. n) < p * (\<Sum>n \<leftarrow> h. n) \<and>
      p * (\<Sum>n \<leftarrow> h. n) \<le> 100 * (\<Sum>n \<leftarrow> take (Suc i) h. n)"
    by (rule PercentileBucketIndex_spec[OF assms(1-3)])
  show "f64_le (PercentileMs h (Fin (of_int p))) (PercentileMs h (Fin (of_int q)))"
    using percentile_mono[OF assms] by (intro PercentileMs_mono) simp_all
qed

theorem percentile_correct_witness:
  "\<exists>i < 4. PercentileBucketIndex [0, 0, 10, 40] (Fin (of_int 50)) = int i \<and>
      100 * (\<Sum>n \<leftarrow> take i [0, 0, 10, 40]. n) < (2500 :: int)"
  using percentile_correct[of "[0, 0, 10, 40]" 50 90] by (auto simp: counts_ok_def)

section \<open>Merging batches\<close>

lemma add_counts_length: "length (add_counts dst src) = length dst"
  by (induction dst src rule: add_counts.induct) simp_all

lemma add_counts_nth:
  "length src \<le> length dst \<Longrightarrow> i < length dst \<Longrightarrow>
     add_counts dst src ! i = (if i < length src then i64 (dst ! i + src ! i) else dst ! i)"
  by (induction dst src arbitrary: i rule: add_counts.induct) (auto simp: nth_Cons split: nat.splits)

lemma mergeHistogram_spec:
  "length (mergeHistogram dst (Some src)) = max (length dst) (length src) \<and>
   (\<forall>i < max (length dst) (length src). mergeHistogram dst (Some src) ! i =
      (if i < length src then i64 ((if i < length dst then dst ! i else 0) + src ! i) else dst ! i))"
proof (cases "src = []")
  case False
  let ?d = "if length dst < length src then dst @ replicate (length src - length dst) 0 else dst"
  have len: "length ?d = max (length dst) (length src)" by simp
  have "?d ! i = (if i < length dst then dst ! i else 0)" if "i < max (length dst) (length src)" for i
    using that by (auto simp: nth_append)
  moreover have "mergeHistogram dst (Some src) = add_counts ?d src" using False by (simp add: mergeHistogram_def Let_def)
  ultimately show ?thesis using len by (auto simp: add_counts_length add_counts_nth nth_append)
qed (simp add: mergeHistogram_def)

section \<open>Flushing\<close>

lemma flush_loop_verdicts:
  assumes "flush_loop c now ks ag out = (ag', out', err)"
  shows "map_option ss_verdict (gm_get (ag_states ag') sid) = map_option ss_verdict (gm_get (ag_states ag) sid) \<and>
    (\<exists>scs. out' = out @ scs \<and> (\<forall>sc \<in> set scs. \<exists>st. gm_get (ag_states ag) (sc_submissionID sc) = Some st \<and>
       sc_verdict sc = ss_verdict st))"
  using assms
proof (induction c now ks ag out rule: flush_loop.induct)
  case (2 c now k ks ag out)
  show ?case
  proof (cases "gm_get (ag_states ag) k")
    case None
    with 2 show ?thesis by simp
  next
    case (Some st)
    show ?thesis
    proof (cases "flush_idle st")
      case True
      with 2 Some show ?thesis by simp
    next
      case False
      let ?st1 = "flush_measure now st"
      have v: "ss_verdict ?st1 = ss_verdict st" "ss_verdict (flush_reset now ?st1) = ss_verdict st"
        by (simp_all add: flush_measure_def flush_reset_def)
      show ?thesis
      proof (cases "agg_send c out (scoreFor k ?st1)")
        case None
        with 2(4) Some False v show ?thesis by (auto simp: set_state_def)
      next
        case sent: (Some out1)
        let ?ag1 = "set_state k (flush_reset now ?st1) ag"
        have o1: "out1 = out @ [scoreFor k ?st1]" using sent by (auto simp: agg_send_def chan_send_def split: if_splits)
        from 2(4) Some False sent have "flush_loop c now ks ?ag1 out1 = (ag', out', err)" by simp
        from 2(3)[OF Some False refl sent this] obtain scs where
          IH: "map_option ss_verdict (gm_get (ag_states ag') sid) = map_option ss_verdict (gm_get (ag_states ?ag1) sid)"
          "out' = out1 @ scs" "\<forall>sc \<in> set scs. \<exists>st. gm_get (ag_states ?ag1) (sc_submissionID sc) = Some st \<and>
             sc_verdict sc = ss_verdict st" by blast
        have same: "\<exists>st'. gm_get (ag_states ag) x = Some st' \<and> ss_verdict y = ss_verdict st'"
          if "gm_get (ag_states ?ag1) x = Some y" for x y
          using that Some v by (auto simp: set_state_def split: if_splits)
        have "\<forall>sc \<in> set (scoreFor k ?st1 # scs). \<exists>st. gm_get (ag_states ag) (sc_submissionID sc) = Some st \<and>
             sc_verdict sc = ss_verdict st"
          using IH(3) same Some v by (fastforce simp: scoreFor_def)
        then show ?thesis using IH(1,2) o1 Some v by (auto simp: set_state_def)
      qed
    qed
  qed
qed simp

text \<open>A flush that is not cancelled, on a map without repeated keys.\<close>

definition flush_active :: "aggregator \<Rightarrow> string \<Rightarrow> bool" where
  "flush_active ag k \<longleftrightarrow> (case gm_get (ag_states ag) k of None \<Rightarrow> False | Some st \<Rightarrow> \<not> flush_idle st)"

definition flushed_state :: "int \<Rightarrow> submission_state \<Rightarrow> submission_state" where
  "flushed_state now st = (if flush_idle st then st else flush_reset now (flush_measure now st))"

definition flush_score :: "int \<Rightarrow> aggregator \<Rightarrow> string \<Rightarrow> score" where
  "flush_score now ag k = scoreFor k (flush_measure now (the (gm_get (ag_states ag) k)))"

lemma flush_loop_exact:
  assumes "\<And>n. \<not> c n" and "distinct ks"
  shows "\<exists>ag'. flush_loop c now ks ag out = (ag', out @ map (flush_score now ag) (filter (flush_active ag) ks), None) \<and>
    (\<forall>sid. gm_get (ag_states ag') sid =
       (if sid \<in> set ks then map_option (flushed_state now) (gm_get (ag_states ag) sid) else gm_get (ag_states ag) sid))"
  using assms(2)
proof (induction ks arbitrary: ag out)
  case (Cons k ks)
  have k: "k \<notin> set ks" "distinct ks" using Cons.prems by simp_all
  consider "gm_get (ag_states ag) k = None" | st where "gm_get (ag_states ag) k = Some st" "flush_idle st"
    | st where "gm_get (ag_states ag) k = Some st" "\<not> flush_idle st" by (cases "gm_get (ag_states ag) k") auto
  then show ?case
  proof cases
    case 1
    with Cons.IH[OF k(2), of ag out] k(1) show ?thesis by (auto simp: flush_active_def)
  next
    case 2
    then have "flushed_state now st = st" by (simp add: flushed_state_def)
    with 2 Cons.IH[OF k(2), of ag out] k(1) show ?thesis by (auto simp: flush_active_def)
  next
    case 3
    let ?st1 = "flush_measure now st"
    let ?ag1 = "set_state k (flush_reset now ?st1) ag" and ?out1 = "out @ [scoreFor k ?st1]"
    have step: "flush_loop c now (k # ks) ag out = flush_loop c now ks ?ag1 ?out1"
      using 3 assms(1) by (simp add: agg_send_def chan_send_def Let_def)
    have same: "flush_active ?ag1 x = flush_active ag x" "flush_score now ?ag1 x = flush_score now ag x" if "x \<in> set ks" for x
      using that k(1) by (auto simp: flush_active_def flush_score_def set_state_def)
    have "map (flush_score now ?ag1) (filter (flush_active ?ag1) ks) = map (flush_score now ag) (filter (flush_active ag) ks)"
      using same by (auto cong: filter_cong)
    moreover have "flush_active ag k" "flush_score now ag k = scoreFor k ?st1"
      using 3 by (simp_all add: flush_active_def flush_score_def)
    moreover have "flushed_state now st = flush_reset now ?st1" using 3 by (simp add: flushed_state_def)
    ultimately show ?thesis
      using Cons.IH[OF k(2), of ?ag1 ?out1] step 3 k(1) by (auto simp: set_state_def)
  qed
qed simp


section \<open>Where verdicts come from\<close>

text \<open>The verdicts received for a submission, and the one that counts: the last, or Unverified.\<close>

definition verdicts_for :: "string \<Rightarrow> agg_event list \<Rightarrow> verdict list" where
  "verdicts_for sid evs = concat (map (\<lambda>ev. case ev of
     AgUpdate u \<Rightarrow> if cu_submissionID u = sid then [cu_verdict u] else [] | _ \<Rightarrow> []) evs)"

definition current_verdict :: "string \<Rightarrow> agg_event list \<Rightarrow> verdict" where
  "current_verdict sid evs = (if sid = [] then VerdictUnverified else last (VerdictUnverified # verdicts_for sid evs))"

lemma verdicts_for_snoc [simp]: "verdicts_for sid (evs @ [ev]) = verdicts_for sid evs @
    (case ev of AgUpdate u \<Rightarrow> if cu_submissionID u = sid then [cu_verdict u] else [] | _ \<Rightarrow> [])"
  by (simp add: verdicts_for_def)

lemma current_verdict_snoc: "current_verdict sid (evs @ [ev]) =
    (case ev of AgUpdate u \<Rightarrow> if cu_submissionID u = sid \<and> sid \<noteq> [] then cu_verdict u else current_verdict sid evs
      | _ \<Rightarrow> current_verdict sid evs)"
  by (auto simp: current_verdict_def split: agg_event.splits)

lemma current_verdict_mem:
  "current_verdict sid evs = VerdictUnverified \<or> current_verdict sid evs \<in> set (verdicts_for sid evs)"
  by (auto simp: current_verdict_def)

definition agg_inv :: "agg_event list \<Rightarrow> agg_sys \<Rightarrow> bool" where
  "agg_inv evs s \<longleftrightarrow> gm_wf (ag_states (as_agg s)) \<and>
     (\<forall>sid st. gm_get (ag_states (as_agg s)) sid = Some st \<longrightarrow> ss_verdict st = current_verdict sid evs) \<and>
     (\<forall>sid. current_verdict sid evs \<noteq> VerdictUnverified \<longrightarrow> gm_get (ag_states (as_agg s)) sid \<noteq> None) \<and>
     (\<forall>sc \<in> set (as_out s). sc_verdict sc = VerdictUnverified \<or>
        sc_verdict sc \<in> set (verdicts_for (sc_submissionID sc) evs))"

text \<open>What the operations do to the table of states.\<close>

definition table_says :: "aggregator \<Rightarrow> (string \<Rightarrow> verdict) \<Rightarrow> bool" where
  "table_says ag v \<longleftrightarrow> gm_wf (ag_states ag) \<and>
     (\<forall>sid st. gm_get (ag_states ag) sid = Some st \<longrightarrow> ss_verdict st = v sid) \<and>
     (\<forall>sid. v sid \<noteq> VerdictUnverified \<longrightarrow> gm_get (ag_states ag) sid \<noteq> None)"

lemma agg_inv_table: "agg_inv evs s \<longleftrightarrow> table_says (as_agg s) (\<lambda>sid. current_verdict sid evs) \<and>
    (\<forall>sc \<in> set (as_out s). sc_verdict sc = VerdictUnverified \<or>
       sc_verdict sc \<in> set (verdicts_for (sc_submissionID sc) evs))"
  by (auto simp: agg_inv_def table_says_def)

lemma agg_state_says:
  assumes "table_says ag v" and "agg_state now sid ag = (st, ag')"
  shows "table_says ag' v \<and> gm_get (ag_states ag') sid = Some st \<and> ss_verdict st = v sid"
proof (cases "gm_get (ag_states ag) sid")
  case None
  with assms(1) have "v sid = VerdictUnverified" by (auto simp: table_says_def)
  with None assms show ?thesis
    by (auto simp: agg_state_def Let_def table_says_def new_submission_state_def split: if_splits)
next
  case (Some st')
  with assms show ?thesis by (auto simp: agg_state_def table_says_def)
qed

lemma set_state_says:
  "table_says ag v \<Longrightarrow> ss_verdict st = w \<Longrightarrow> table_says (set_state sid st ag) (v(sid := w))"
  by (auto simp: table_says_def set_state_def)

lemma AddBatch_says: "table_says ag v \<Longrightarrow> table_says (AddBatch now b ag) v"
proof (cases "mb_submissionID b = []")
  case False
  assume a: "table_says ag v"
  obtain st ag' where st: "agg_state now (mb_submissionID b) ag = (st, ag')" by (cases "agg_state now (mb_submissionID b) ag")
  have "table_says ag' v" "ss_verdict st = v (mb_submissionID b)" using agg_state_says[OF a st] by simp_all
  then have "table_says (set_state (mb_submissionID b) (st\<lparr>ss_http200Delta := x, ss_histogram := h\<rparr>) ag')
      (v(mb_submissionID b := v (mb_submissionID b)))" for x h
    by (intro set_state_says) simp_all
  with False st show ?thesis by (simp add: AddBatch_def)
qed (simp add: AddBatch_def)

lemma ApplyCorrectness_says:
  "table_says ag v \<Longrightarrow> cu_submissionID u \<noteq> [] \<Longrightarrow>
     table_says (ApplyCorrectness now u ag) (v(cu_submissionID u := cu_verdict u))"
proof -
  assume a: "table_says ag v" and id: "cu_submissionID u \<noteq> []"
  obtain st ag' where st: "agg_state now (cu_submissionID u) ag = (st, ag')" by (cases "agg_state now (cu_submissionID u) ag")
  have "table_says ag' v" using agg_state_says[OF a st] by simp
  then have "table_says (set_state (cu_submissionID u) (st\<lparr>ss_verdict := cu_verdict u\<rparr>) ag') (v(cu_submissionID u := cu_verdict u))"
    by (intro set_state_says) simp_all
  with id st show ?thesis by (simp add: ApplyCorrectness_def)
qed

lemma flush_loop_wf: "flush_loop c now ks ag out = (ag', out', err) \<Longrightarrow> gm_wf (ag_states ag) \<Longrightarrow> gm_wf (ag_states ag')"
proof (induction c now ks ag out rule: flush_loop.induct)
  case (2 c now k ks ag out)
  then show ?case by (auto simp: Let_def set_state_def split: option.splits if_splits)
qed simp

lemma flush_loop_says:
  assumes "flush_loop c now ks ag out = (ag', out', err)" and "table_says ag v"
  shows "table_says ag' v"
proof -
  have same: "map_option ss_verdict (gm_get (ag_states ag') sid) = map_option ss_verdict (gm_get (ag_states ag) sid)" for sid
    using flush_loop_verdicts[OF assms(1)] by blast
  have "ss_verdict st = v sid" if "gm_get (ag_states ag') sid = Some st" for sid st
    using same[of sid] that assms(2) by (cases "gm_get (ag_states ag) sid") (auto simp: table_says_def)
  moreover have "gm_get (ag_states ag') sid \<noteq> None" if "v sid \<noteq> VerdictUnverified" for sid
    using same[of sid] that assms(2) by (cases "gm_get (ag_states ag') sid") (auto simp: table_says_def)
  moreover have "gm_wf (ag_states ag')" using flush_loop_wf[OF assms(1)] assms(2) by (simp add: table_says_def)
  ultimately show ?thesis by (simp add: table_says_def)
qed

lemma agg_inv_flush:
  assumes "agg_inv evs s" and "agg_Flush cancel now rng (as_agg s) (as_out s) = (ag', out', err)"
  shows "agg_inv (evs @ [AgOther]) \<lparr>as_agg = ag', as_out = out', as_phase = ph\<rparr>"
proof -
  have fl: "flush_loop cancel now (rng (gm_keys (ag_states (as_agg s)))) (as_agg s) (as_out s) = (ag', out', err)"
    using assms(2) by (simp add: agg_Flush_def)
  from assms(1) have t: "table_says (as_agg s) (\<lambda>sid. current_verdict sid evs)" by (simp add: agg_inv_table)
  obtain scs where scs: "out' = as_out s @ scs" "\<forall>sc \<in> set scs. \<exists>st. gm_get (ag_states (as_agg s)) (sc_submissionID sc) = Some st \<and>
      sc_verdict sc = ss_verdict st" using flush_loop_verdicts[OF fl] by blast
  have "sc_verdict sc = current_verdict (sc_submissionID sc) evs" if "sc \<in> set scs" for sc
    using scs(2) that t by (fastforce simp: table_says_def)
  then have "\<forall>sc \<in> set scs. sc_verdict sc = VerdictUnverified \<or> sc_verdict sc \<in> set (verdicts_for (sc_submissionID sc) evs)"
    using current_verdict_mem by metis
  then show ?thesis
    using flush_loop_says[OF fl t] scs(1) assms(1) by (auto simp: agg_inv_table current_verdict_snoc)
qed

lemma emitVerdict_says:
  assumes "table_says ag v" and "emitVerdict cancel now sid ag out = (ag', out', err)"
  shows "table_says ag' v \<and> (out' = out \<and> err = Some CtxErr \<or>
    err = None \<and> (\<exists>sc. out' = out @ [sc] \<and> sc_submissionID sc = sid \<and> sc_verdict sc = v sid))"
proof -
  obtain st ag1 where st: "agg_state now sid ag = (st, ag1)" by (cases "agg_state now sid ag")
  show ?thesis using agg_state_says[OF assms(1) st] assms(2) st
    by (auto simp: emitVerdict_def agg_send_def chan_send_def scoreFor_def split: if_splits)
qed

lemma ApplyCorrectness_current:
  assumes "table_says ag (\<lambda>sid. current_verdict sid evs)"
  shows "table_says (ApplyCorrectness now u ag) (\<lambda>sid. current_verdict sid (evs @ [AgUpdate u]))"
proof (cases "cu_submissionID u = []")
  case True
  then have "(\<lambda>sid. current_verdict sid (evs @ [AgUpdate u])) = (\<lambda>sid. current_verdict sid evs)"
    by (auto simp: current_verdict_snoc)
  with True assms show ?thesis by (simp add: ApplyCorrectness_def)
next
  case False
  then have "(\<lambda>sid. current_verdict sid (evs @ [AgUpdate u])) = (\<lambda>sid. current_verdict sid evs)(cu_submissionID u := cu_verdict u)"
    by (auto simp: current_verdict_snoc)
  with ApplyCorrectness_says[OF assms False] show ?thesis by simp
qed

lemma agg_inv_step [inv_intro]:
  assumes "agg_inv evs s" and "agg_step s ev s'"
  shows "agg_inv (evs @ [ev]) s'"
  using assms(2)
proof (cases rule: agg_step.cases)
  case (ctx_done m c)
  with assms(1) show ?thesis by (simp add: agg_inv_table current_verdict_snoc)
next
  case (batch c b now)
  with assms(1) AddBatch_says show ?thesis by (simp add: agg_inv_table current_verdict_snoc)
next
  case (metrics_closed c)
  with assms(1) show ?thesis by (simp add: agg_inv_table current_verdict_snoc)
next
  case (update m u cancel now' now)
  obtain ag' out' err where e: "emitVerdict cancel now' (cu_submissionID u) (ApplyCorrectness now u (as_agg s)) (as_out s) = (ag', out', err)"
    by (cases "emitVerdict cancel now' (cu_submissionID u) (ApplyCorrectness now u (as_agg s)) (as_out s)")
  have "table_says (as_agg s) (\<lambda>sid. current_verdict sid evs)" using assms(1) by (simp add: agg_inv_table)
  from emitVerdict_says[OF ApplyCorrectness_current[OF this, of now u] e]
  have "table_says ag' (\<lambda>sid. current_verdict sid (evs @ [ev]))"
    "\<forall>sc \<in> set out'. sc \<in> set (as_out s) \<or> sc_verdict sc = current_verdict (sc_submissionID sc) (evs @ [ev])"
    using update(1) by auto
  then show ?thesis
    using update assms(1) e current_verdict_mem[of _ "evs @ [ev]"]
    by (fastforce simp: agg_inv_table agg_after_def)
next
  case (correctness_closed m)
  with assms(1) show ?thesis by (simp add: agg_inv_table current_verdict_snoc)
next
  case (tick m c rng cancel now)
  obtain ag' out' err where e: "agg_Flush cancel now rng (as_agg s) (as_out s) = (ag', out', err)"
    by (cases "agg_Flush cancel now rng (as_agg s) (as_out s)")
  from agg_inv_flush[OF assms(1) e] tick e show ?thesis by (simp add: agg_after_def)
next
  case (final_flush rng cancel now)
  obtain ag' out' err where e: "agg_Flush cancel now rng (as_agg s) (as_out s) = (ag', out', err)"
    by (cases "agg_Flush cancel now rng (as_agg s) (as_out s)")
  from agg_inv_flush[OF assms(1) e] final_flush e show ?thesis by (simp add: agg_after_def)
qed

lemma agg_run_inv: "agg_run fi evs s \<Longrightarrow> agg_inv evs s"
proof (induction rule: agg_run.induct)
  case start
  show ?case by (auto simp: agg_inv_def agg_start_def New_aggregator_def current_verdict_def verdicts_for_def)
next
  case (step evs s ev s')
  then show ?case using agg_inv_step by blast
qed

text \<open>
  No verdict is invented: every score carries Unverified or a verdict that the replay engine sent for that
  very submission.
\<close>

lemma agg_verdict_known:
  assumes "agg_run flushInterval evs s" and "sc \<in> set (as_out s)"
  shows "sc_verdict sc = VerdictUnverified \<or>
    (\<exists>u. AgUpdate u \<in> set evs \<and> cu_submissionID u = sc_submissionID sc \<and> cu_verdict u = sc_verdict sc)"
  using agg_run_inv[OF assms(1)] assms(2)
  by (force simp: agg_inv_table verdicts_for_def split: agg_event.splits if_splits)

lemma agg_update_emits:
  assumes "agg_run flushInterval evs s" and "agg_step s (AgUpdate u) s'"
  shows "as_phase s' = AgClosed (Some CtxErr) \<and> as_out s' = as_out s \<or>
    as_phase s' = as_phase s \<and> (\<exists>sc. as_out s' = as_out s @ [sc] \<and> sc_submissionID sc = cu_submissionID u \<and>
      sc_verdict sc = current_verdict (cu_submissionID u) (evs @ [AgUpdate u]))"
  using assms(2)
proof (cases rule: agg_step.cases)
  case (update m cancel now' now)
  obtain ag' out' err where e: "emitVerdict cancel now' (cu_submissionID u) (ApplyCorrectness now u (as_agg s)) (as_out s) = (ag', out', err)"
    by (cases "emitVerdict cancel now' (cu_submissionID u) (ApplyCorrectness now u (as_agg s)) (as_out s)")
  have "table_says (as_agg s) (\<lambda>sid. current_verdict sid evs)" using agg_run_inv[OF assms(1)] by (simp add: agg_inv_table)
  from emitVerdict_says[OF ApplyCorrectness_current[OF this, of now u] e] update e
  show ?thesis by (auto simp: agg_after_def)
qed

text \<open>
  A verdict is published at once: the round in which the aggregator receives an update for a
  submission sends a score of that submission with exactly that verdict, whether or not it has metrics;
  the only exception is a cancelled context, which ends \<open>Run\<close>.
\<close>

theorem aggregator_verdict_prompt:
  assumes "agg_run flushInterval evs s" and "agg_step s (AgUpdate u) s'" and "cu_submissionID u \<noteq> []"
    and "as_phase s' \<noteq> AgClosed (Some CtxErr)"
  shows "as_phase s' = as_phase s \<and> (\<exists>sc. as_out s' = as_out s @ [sc] \<and>
    sc_submissionID sc = cu_submissionID u \<and> sc_verdict sc = cu_verdict u)"
  using agg_update_emits[OF assms(1,2)] assms(3,4) by (auto simp: current_verdict_snoc)

section \<open>The last score has the last verdict\<close>

text \<open>The updates that a run has received, and the scores of one submission.\<close>

fun updates_in :: "agg_event list \<Rightarrow> correctness_update list" where
  "updates_in (AgUpdate u # evs) = u # updates_in evs"
| "updates_in (_ # evs) = updates_in evs"
| "updates_in [] = []"

lemma updates_in_append [simp]: "updates_in (evs @ evs') = updates_in evs @ updates_in evs'"
  by (induction evs rule: updates_in.induct) simp_all

abbreviation scores_for :: "string \<Rightarrow> score list \<Rightarrow> score list" where
  "scores_for sid scs \<equiv> filter (\<lambda>sc. sc_submissionID sc = sid) scs"

lemma verdicts_for_updates: "verdicts_for sid evs = map cu_verdict (filter (\<lambda>u. cu_submissionID u = sid) (updates_in evs))"
  by (induction evs rule: updates_in.induct) (simp_all add: verdicts_for_def)

definition shows_current :: "string \<Rightarrow> agg_event list \<Rightarrow> agg_sys \<Rightarrow> bool" where
  "shows_current sid evs s \<longleftrightarrow>
     (scores_for sid (as_out s) \<noteq> [] \<longrightarrow> sc_verdict (last (scores_for sid (as_out s))) = current_verdict sid evs) \<and>
     (sid \<in> cu_submissionID ` set (updates_in evs) \<longrightarrow> scores_for sid (as_out s) \<noteq> [])"

lemma shows_current_more:
  assumes "shows_current sid evs s" and "as_out s' = as_out s @ scs" and "updates_in evs' = updates_in evs"
    and "\<forall>sc \<in> set scs. sc_verdict sc = current_verdict (sc_submissionID sc) evs"
  shows "shows_current sid evs' s'"
proof -
  have same: "current_verdict sid evs' = current_verdict sid evs"
    by (simp add: current_verdict_def verdicts_for_updates assms(3))
  show ?thesis
  proof (cases "scores_for sid scs = []")
    case True
    with assms(1) same show ?thesis by (simp add: shows_current_def assms(2,3))
  next
    case False
    then have "last (scores_for sid scs) \<in> set (scores_for sid scs)" by (rule last_in_set)
    with assms(4) have "sc_verdict (last (scores_for sid scs)) = current_verdict sid evs" by auto
    with False same show ?thesis by (simp add: shows_current_def assms(2,3))
  qed
qed

lemma agg_flush_current:
  assumes "agg_inv evs s" and "agg_Flush cancel now rng (as_agg s) (as_out s) = r"
  shows "\<exists>scs. as_out (agg_after s r ph) = as_out s @ scs \<and> (\<forall>sc \<in> set scs. sc_verdict sc = current_verdict (sc_submissionID sc) evs)"
proof -
  obtain ag' out' err where r: "r = (ag', out', err)" by (cases r)
  from assms(1) have t: "table_says (as_agg s) (\<lambda>sid. current_verdict sid evs)" by (simp add: agg_inv_table)
  from assms(2) r obtain scs where "out' = as_out s @ scs"
    "\<forall>sc \<in> set scs. \<exists>st. gm_get (ag_states (as_agg s)) (sc_submissionID sc) = Some st \<and> sc_verdict sc = ss_verdict st"
    using flush_loop_verdicts unfolding agg_Flush_def by blast
  with t r show ?thesis by (fastforce simp: table_says_def agg_after_def)
qed

lemma shows_current_step:
  assumes "agg_run fi evs s" and "shows_current sid evs s" and "agg_step s ev s'" and "sid \<noteq> []"
    and "as_phase s' \<noteq> AgClosed (Some CtxErr)"
  shows "shows_current sid (evs @ [ev]) s'"
proof (cases "\<exists>u. ev = AgUpdate u")
  case True
  then obtain u where u: "ev = AgUpdate u" by blast
  then obtain sc where sc: "as_out s' = as_out s @ [sc]" "sc_submissionID sc = cu_submissionID u"
    "sc_verdict sc = current_verdict (cu_submissionID u) (evs @ [AgUpdate u])"
    using agg_update_emits[OF assms(1), of u s'] assms(3,5) by auto
  have "current_verdict sid (evs @ [ev]) = current_verdict sid evs" if "cu_submissionID u \<noteq> sid"
    using that u by (simp add: current_verdict_snoc)
  with assms(2) sc u show ?thesis by (auto simp: shows_current_def)
next
  case False
  then have ev: "updates_in (evs @ [ev]) = updates_in evs" by (cases ev) auto
  have "\<exists>scs. as_out s' = as_out s @ scs \<and> (\<forall>sc \<in> set scs. sc_verdict sc = current_verdict (sc_submissionID sc) evs)"
    using assms(3)
  proof (cases rule: agg_step.cases)
    case (tick m c rng cancel now)
    from agg_flush_current[OF agg_run_inv[OF assms(1)] refl] tick show ?thesis by simp
  next
    case (final_flush rng cancel now)
    from agg_flush_current[OF agg_run_inv[OF assms(1)] refl] final_flush show ?thesis by simp
  qed (use False in simp_all)
  with shows_current_more[OF assms(2) _ ev] show ?thesis by blast
qed

lemma agg_stopped: "agg_step s ev s' \<Longrightarrow> as_phase s \<noteq> AgClosed e"
  by (auto elim: agg_step.cases)

lemma last_score_current:
  assumes "agg_run fi evs s" and "as_phase s \<noteq> AgClosed (Some CtxErr)" and "sid \<noteq> []"
  shows "shows_current sid evs s"
  using assms(1,2)
proof (induction rule: agg_run.induct)
  case start
  show ?case by (simp add: shows_current_def agg_start_def)
next
  case (step evs s ev s')
  then show ?case using agg_stopped shows_current_step[OF step(1) _ step(2) assms(3)] by blast
qed

text \<open>The aggregator can take any updates and close its channel.\<close>

lemma flush_loop_uncancelled: "flush_loop (\<lambda>_. False) now ks ag out = (ag', out', err) \<Longrightarrow> err = None"
proof (induction "\<lambda>_ :: nat. False" now ks ag out rule: flush_loop.induct)
  case (2 now k ks ag out)
  then show ?case by (auto simp: Let_def agg_send_def chan_send_def split: option.splits if_splits)
qed simp

lemma emitVerdict_uncancelled: "emitVerdict (\<lambda>_. False) now sid ag out = (ag', out', err) \<Longrightarrow> err = None"
  by (auto simp: emitVerdict_def agg_send_def chan_send_def split: prod.splits)

lemma agg_run_one: "agg_run fi evs s \<Longrightarrow> agg_step s AgOther s' \<Longrightarrow> updates_in evs = us \<Longrightarrow>
    \<exists>evs'. agg_run fi evs' s' \<and> updates_in evs' = us"
  using agg_run.step[of fi evs s AgOther s'] by (intro exI[of _ "evs @ [AgOther]"]) simp

lemma agg_takes_all: "\<exists>evs s. agg_run fi evs s \<and> updates_in evs = us \<and> as_phase s = AgLooping True True"
proof (induction us rule: rev_induct)
  case Nil
  show ?case using agg_run.start[of fi] by (intro exI[of _ "[]"]) (auto simp: agg_start_def)
next
  case (snoc u us)
  then obtain evs s where s: "agg_run fi evs s" "updates_in evs = us" "as_phase s = AgLooping True True" by blast
  let ?r = "emitVerdict (\<lambda>_. False) 0 (cu_submissionID u) (ApplyCorrectness 0 u (as_agg s)) (as_out s)"
  have "agg_run fi (evs @ [AgUpdate u]) (agg_after s ?r (as_phase s))"
    by (rule agg_run.step[OF s(1)], rule agg_step.update) (rule s(3))
  moreover have "as_phase (agg_after s ?r (as_phase s)) = AgLooping True True"
    using emitVerdict_uncancelled s(3) by (auto simp: agg_after_def split: prod.split)
  ultimately show ?case using s(2) by (intro exI[of _ "evs @ [AgUpdate u]"]) auto
qed

lemma agg_can_finish: "\<exists>evs s. agg_run fi evs s \<and> updates_in evs = us \<and> as_phase s = AgClosed None"
proof -
  obtain evs s where s: "agg_run fi evs s" "updates_in evs = us" "as_phase s = AgLooping True True"
    using agg_takes_all by blast
  let ?s1 = "s\<lparr>as_phase := AgLooping False True\<rparr>" and ?s2 = "s\<lparr>as_phase := AgFinishing\<rparr>"
  have "agg_step s AgOther ?s1" using agg_step.metrics_closed[OF s(3)] by (simp add: agg_goes_on_def)
  from agg_run_one[OF s(1) this s(2)] obtain evs1 where s1: "agg_run fi evs1 ?s1" "updates_in evs1 = us" by blast
  have "agg_step ?s1 AgOther ?s2" using agg_step.correctness_closed[of ?s1 False] by (simp add: agg_goes_on_def)
  from agg_run_one[OF s1(1) this s1(2)] obtain evs2 where s2: "agg_run fi evs2 ?s2" "updates_in evs2 = us" by blast
  let ?r = "agg_Flush (\<lambda>_. False) 0 id (as_agg ?s2) (as_out ?s2)"
  have "agg_step ?s2 AgOther (agg_after ?s2 ?r (AgClosed None))" by (rule agg_step.final_flush) simp_all
  from agg_run_one[OF s2(1) this s2(2)] obtain evs3 where
    s3: "agg_run fi evs3 (agg_after ?s2 ?r (AgClosed None))" "updates_in evs3 = us" by blast
  have "as_phase (agg_after ?s2 ?r (AgClosed None)) = AgClosed None"
    using flush_loop_uncancelled by (auto simp: agg_after_def agg_Flush_def split: prod.split)
  with s3 show ?thesis by blast
qed

text \<open>
  The guard on the empty id in \<open>ApplyCorrectness\<close> is undone by \<open>emitVerdict\<close>: such an update is not applied,
  but a state and a score for the empty id come into being all the same.
\<close>

lemma empty_id_is_scored:
  "emitVerdict c now [] (ApplyCorrectness now \<lparr>cu_submissionID = [], cu_verdict = v, cu_reason = r\<rparr> (New_aggregator fi)) [] =
     (if c 0 then (\<lparr>ag_FlushInterval = ag_FlushInterval (New_aggregator fi), ag_states = [([], new_submission_state now)]\<rparr>, [], Some CtxErr)
      else (\<lparr>ag_FlushInterval = ag_FlushInterval (New_aggregator fi), ag_states = [([], new_submission_state now)]\<rparr>,
            [scoreFor [] (new_submission_state now)], None))"
  by (simp add: emitVerdict_def ApplyCorrectness_def agg_state_def agg_send_def chan_send_def Let_def
      New_aggregator_def gm_get_def gm_put_def)

section \<open>A short run\<close>

definition sample_correct :: correctness_update where
  "sample_correct = \<lparr>cu_submissionID = ''s'', cu_verdict = VerdictCorrect, cu_reason = []\<rparr>"

definition sample_scored :: agg_sys where
  "sample_scored = \<lparr>as_agg = \<lparr>ag_FlushInterval = 5, ag_states = [(''s'', (new_submission_state 7)\<lparr>ss_verdict := VerdictCorrect\<rparr>)]\<rparr>,
     as_out = [scoreFor ''s'' ((new_submission_state 7)\<lparr>ss_verdict := VerdictCorrect\<rparr>)],
     as_phase = AgLooping True True\<rparr>"

lemma sample_agg_step: "agg_step (agg_start 5) (AgUpdate sample_correct) sample_scored"
proof -
  have "sample_scored = agg_after (agg_start 5) (emitVerdict (\<lambda>_. False) 8 (cu_submissionID sample_correct)
      (ApplyCorrectness 7 sample_correct (as_agg (agg_start 5))) (as_out (agg_start 5))) (as_phase (agg_start 5))"
    by (simp add: sample_scored_def agg_after_def emitVerdict_def ApplyCorrectness_def agg_state_def agg_send_def
        chan_send_def Let_def New_aggregator_def gm_get_def gm_put_def sample_correct_def agg_start_def set_state_def)
  then show ?thesis
    using agg_step.update[of "agg_start 5" True sample_correct "\<lambda>_. False" 8 7] by (simp add: agg_start_def)
qed

lemma sample_agg_run: "agg_run 5 [AgUpdate sample_correct] sample_scored"
  using agg_run.step[OF agg_run.start sample_agg_step] by simp

theorem aggregator_verdict_prompt_witness:
  "\<exists>sc. as_out sample_scored = [sc] \<and> sc_submissionID sc = ''s'' \<and> sc_verdict sc = VerdictCorrect"
  using aggregator_verdict_prompt[OF agg_run.start sample_agg_step]
  by (simp add: sample_scored_def sample_correct_def agg_start_def)

definition sample_window :: aggregator where
  "sample_window = \<lparr>ag_FlushInterval = 5, ag_states = [(''s'', (new_submission_state 0)\<lparr>ss_http200Delta := 4\<rparr>),
     (''t'', new_submission_state 0)]\<rparr>"


end
