(* ===== verification/GoJson.thy ===== *)
theory GoJson
  imports Float64 "HOL-Library.Countable"
begin

text \<open>
  The part of Go's \<open>encoding/json\<close> that the services use between them: a struct is marshalled to an
  object whose fields are named by the tags, and unmarshalled by the names and types of the target's
  fields. The JSON text itself is a parameter: \<open>text\<close> renders an object, \<open>parse\<close> reads the fields that a
  target asks for. The law that ties them is what the package documents for objects it wrote itself.
\<close>

datatype json_value = JStr string | JInt int | JFloat f64 | JBool bool | JInts "int list option"

datatype json_type = TStr | TInt | TFloat | TBool | TInts

fun json_type_of :: "json_value \<Rightarrow> json_type" where
  "json_type_of (JStr s) = TStr"
| "json_type_of (JInt n) = TInt"
| "json_type_of (JFloat x) = TFloat"
| "json_type_of (JBool b) = TBool"
| "json_type_of (JInts ns) = TInts"

type_synonym json_fields = "(string \<times> json_value) list"
type_synonym json_target = "(string \<times> json_type) list"

text \<open>The zero values that \<open>omitempty\<close> leaves out.\<close>

fun json_empty :: "json_value \<Rightarrow> bool" where
  "json_empty (JStr s) \<longleftrightarrow> s = []"
| "json_empty (JInt n) \<longleftrightarrow> n = 0"
| "json_empty (JFloat x) \<longleftrightarrow> x = Fin 0"
| "json_empty (JBool b) \<longleftrightarrow> \<not> b"
| "json_empty (JInts ns) \<longleftrightarrow> ns = None \<or> ns = Some []"

definition omitempty :: "string \<Rightarrow> json_value \<Rightarrow> json_fields" where
  "omitempty k v = (if json_empty v then [] else [(k, v)])"

text \<open>\<open>json.Marshal\<close> fails on \<open>NaN\<close> and the infinities.\<close>

fun json_supported :: "json_value \<Rightarrow> bool" where
  "json_supported (JFloat (Fin x)) \<longleftrightarrow> True"
| "json_supported (JFloat x) \<longleftrightarrow> False"
| "json_supported v \<longleftrightarrow> True"

definition json_Marshal :: "(json_fields \<Rightarrow> string) \<Rightarrow> json_fields \<Rightarrow> string option" where
  "json_Marshal text fs = (if list_all (\<lambda>f. json_supported (snd f)) fs then Some (text fs) else None)"

text \<open>Reading the fields of a target: a field that does not occur keeps its zero value.\<close>

definition get_str :: "json_fields \<Rightarrow> string \<Rightarrow> string" where
  "get_str fs k = (case map_of fs k of Some (JStr s) \<Rightarrow> s | _ \<Rightarrow> [])"

definition get_int :: "json_fields \<Rightarrow> string \<Rightarrow> int" where
  "get_int fs k = (case map_of fs k of Some (JInt n) \<Rightarrow> n | _ \<Rightarrow> 0)"

definition get_float :: "json_fields \<Rightarrow> string \<Rightarrow> f64" where
  "get_float fs k = (case map_of fs k of Some (JFloat x) \<Rightarrow> x | _ \<Rightarrow> Fin 0)"

definition get_bool :: "json_fields \<Rightarrow> string \<Rightarrow> bool" where
  "get_bool fs k = (case map_of fs k of Some (JBool b) \<Rightarrow> b | _ \<Rightarrow> False)"

definition get_ints :: "json_fields \<Rightarrow> string \<Rightarrow> int list option" where
  "get_ints fs k = (case map_of fs k of Some (JInts ns) \<Rightarrow> ns | _ \<Rightarrow> None)"

text \<open>
  What the package documents: reading back what it wrote, a target gets the fields it has in common
  with the object, if their types agree, and no error.
\<close>

definition types_agree :: "json_fields \<Rightarrow> json_target \<Rightarrow> bool" where
  "types_agree fs ts \<longleftrightarrow> (\<forall>(k, t) \<in> set ts. \<forall>v. map_of fs k = Some v \<longrightarrow> json_type_of v = t)"

definition read_fields :: "json_target \<Rightarrow> json_fields \<Rightarrow> json_fields" where
  "read_fields ts fs = filter (\<lambda>f. fst f \<in> fst ` set ts) fs"

definition reads_back :: "(json_fields \<Rightarrow> string) \<Rightarrow> (json_target \<Rightarrow> string \<Rightarrow> json_fields option) \<Rightarrow> bool" where
  "reads_back text parse \<longleftrightarrow>
     (\<forall>fs ts. distinct (map fst fs) \<and> list_all (\<lambda>f. json_supported (snd f)) fs \<and> types_agree fs ts \<longrightarrow>
        parse ts (text fs) = Some (read_fields ts fs))"

lemma map_of_filter_keys: "map_of (filter (\<lambda>f. fst f \<in> K) fs) k = (if k \<in> K then map_of fs k else None)"
  by (induction fs) auto

section \<open>Fields that are left out\<close>

text \<open>
  An object written with \<open>omitempty\<close> is the full object without some of its zero values, and a reader
  cannot tell the two apart.
\<close>

definition drops_zeros :: "json_fields \<Rightarrow> json_fields \<Rightarrow> bool" where
  "drops_zeros full fs \<longleftrightarrow>
     (\<exists>keep. fs = filter keep full \<and>
        (\<forall>(k, v) \<in> set full. \<not> keep (k, v) \<longrightarrow> json_empty v \<and> json_type_of v \<noteq> TInts))"

lemma drops_zeros_Nil: "drops_zeros [] []"
  by (simp add: drops_zeros_def)

lemma drops_zeros_append:
  assumes "drops_zeros xs xs'" and "drops_zeros ys ys'" and "fst ` set xs \<inter> fst ` set ys = {}"
  shows "drops_zeros (xs @ ys) (xs' @ ys')"
proof -
  obtain P Q where P: "xs' = filter P xs" "\<forall>(k, v) \<in> set xs. \<not> P (k, v) \<longrightarrow> json_empty v \<and> json_type_of v \<noteq> TInts"
    and Q: "ys' = filter Q ys" "\<forall>(k, v) \<in> set ys. \<not> Q (k, v) \<longrightarrow> json_empty v \<and> json_type_of v \<noteq> TInts"
    using assms(1,2) by (auto simp: drops_zeros_def)
  define R where "R f \<longleftrightarrow> (if fst f \<in> fst ` set xs then P f else Q f)" for f
  have "filter R xs = xs'" unfolding P(1) by (rule filter_cong) (auto simp: R_def)
  moreover have "filter R ys = ys'" unfolding Q(1) by (rule filter_cong) (use assms(3) in \<open>auto simp: R_def\<close>)
  moreover have "\<not> R (k, v) \<Longrightarrow> (k, v) \<in> set (xs @ ys) \<Longrightarrow> json_empty v \<and> json_type_of v \<noteq> TInts" for k v
    using P(2) Q(2) assms(3) by (force simp: R_def split: if_splits)
  ultimately show ?thesis unfolding drops_zeros_def by (intro exI[of _ R]) auto
qed

lemma drops_zeros_refl: "drops_zeros fs fs"
  unfolding drops_zeros_def by (intro exI[of _ "\<lambda>f. True"]) simp

lemma drops_zeros_omitempty: "json_type_of v \<noteq> TInts \<Longrightarrow> drops_zeros [(k, v)] (omitempty k v)"
  unfolding drops_zeros_def by (intro exI[of _ "\<lambda>f. \<not> json_empty (snd f)"]) (simp add: omitempty_def)

lemma drops_zeros_lookup:
  assumes "drops_zeros full fs" and "distinct (map fst full)"
  shows "map_of fs k = map_of full k \<or>
    (\<exists>v. map_of fs k = None \<and> map_of full k = Some v \<and> json_empty v \<and> json_type_of v \<noteq> TInts)"
proof -
  obtain keep where keep: "fs = filter keep full"
    "\<forall>(k, v) \<in> set full. \<not> keep (k, v) \<longrightarrow> json_empty v \<and> json_type_of v \<noteq> TInts"
    using assms(1) by (auto simp: drops_zeros_def)
  have dist: "distinct (map fst fs)" using assms(2) unfolding keep(1) by (rule distinct_map_filter)
  show ?thesis
  proof (cases "map_of full k")
    case None
    then have "map_of fs k = None" unfolding keep(1) by (auto simp: map_of_eq_None_iff)
    with None show ?thesis by simp
  next
    case (Some v)
    then have v: "(k, v) \<in> set full" by (rule map_of_SomeD)
    show ?thesis
    proof (cases "keep (k, v)")
      case True
      with v have "(k, v) \<in> set fs" by (simp add: keep(1))
      with dist have "map_of fs k = Some v" by simp
      with Some show ?thesis by simp
    next
      case False
      have "map_of fs k = None"
        using False v assms(2) by (auto simp: keep(1) map_of_eq_None_iff dest: map_of_is_SomeI[OF assms(2)])
      with False v keep(2) Some show ?thesis by auto
    qed
  qed
qed

lemma drops_zeros_get:
  assumes "drops_zeros full fs" and "distinct (map fst full)"
  shows "get_str fs k = get_str full k" "get_int fs k = get_int full k" "get_float fs k = get_float full k"
    "get_bool fs k = get_bool full k" "get_ints fs k = get_ints full k"
  using drops_zeros_lookup[OF assms, of k]
  by (auto simp: get_str_def get_int_def get_float_def get_bool_def get_ints_def split: option.splits json_value.splits)

lemma drops_zeros_agree:
  assumes "drops_zeros full fs" and "distinct (map fst full)" and "types_agree full ts"
  shows "types_agree fs ts" "distinct (map fst fs)"
proof -
  have "map_of fs k = Some v \<Longrightarrow> map_of full k = Some v" for k v
    using drops_zeros_lookup[OF assms(1,2), of k] by auto
  with assms(3) show "types_agree fs ts" unfolding types_agree_def by fast
  show "distinct (map fst fs)" using assms(1,2) by (auto simp: drops_zeros_def intro: distinct_map_filter)
qed

text \<open>Whether types agree only depends on the names and types of the fields, and computes.\<close>

definition field_types :: "json_fields \<Rightarrow> json_target" where
  "field_types fs = map (\<lambda>(k, v). (k, json_type_of v)) fs"

definition targets_agree :: "json_target \<Rightarrow> json_target \<Rightarrow> bool" where
  "targets_agree us ts \<longleftrightarrow> list_all (\<lambda>(k, t). case map_of us k of None \<Rightarrow> True | Some u \<Rightarrow> u = t) ts"

lemma targets_agree_types: "targets_agree (field_types fs) ts \<Longrightarrow> types_agree fs ts"
proof -
  have "map_of (field_types fs) k = map_option json_type_of (map_of fs k)" for k
    by (induction fs) (auto simp: field_types_def)
  then show "targets_agree (field_types fs) ts \<Longrightarrow> types_agree fs ts"
    by (fastforce simp: targets_agree_def types_agree_def list_all_iff)
qed

lemma get_target:
  assumes "k \<in> fst ` set ts"
  shows "get_str (read_fields ts fs) k = get_str fs k"
    "get_int (read_fields ts fs) k = get_int fs k"
    "get_float (read_fields ts fs) k = get_float fs k"
    "get_bool (read_fields ts fs) k = get_bool fs k"
    "get_ints (read_fields ts fs) k = get_ints fs k"
  using assms by (simp_all add: get_str_def get_int_def get_float_def get_bool_def get_ints_def read_fields_def map_of_filter_keys)

section \<open>A codec with this law\<close>

instance f64 :: countable by countable_datatype
instance json_value :: countable by countable_datatype

text \<open>Objects are countable, so a text can be as long as the number of its object.\<close>

definition unary_text :: "json_fields \<Rightarrow> string" where
  "unary_text fs = replicate (to_nat fs) CHR ''x''"

definition unary_parse :: "json_target \<Rightarrow> string \<Rightarrow> json_fields option" where
  "unary_parse ts s = Some (read_fields ts (from_nat (length s)))"

lemma unary_reads_back: "reads_back unary_text unary_parse"
  by (simp add: reads_back_def unary_text_def unary_parse_def)

end
