(* ===== verification/Producer.thy ===== *)
theory Producer
  imports GoJson Models
begin

text \<open>
  The producer of the telemetry ingester (\<open>telemetry-ingester/internal/producer/producer.go\<close>) with the
  part of \<open>grpcserver/server.go\<close> that feeds it: the protobuf messages of a batch become JSON records on
  the order topic and the metrics topic. A record that \<open>json.Marshal\<close> refuses is dropped, as in the code.
  What the broker does with the records is outside; the model keeps what is handed to the client.
\<close>

section \<open>Messages\<close>

record pb_order =
  po_TimestampUs :: int
  po_SubmissionId :: string
  po_OrderId :: string
  po_Action :: string
  po_Side :: string
  po_Ticker :: string
  po_Price :: f64
  po_Quantity :: int
  po_CancelTargetId :: int
  po_Seq :: int
  po_ContestantOrderId :: int
  po_EndOfRun :: bool
  po_Outcome :: int

record pb_trade =
  pt_TimestampUs :: int
  pt_SubmissionId :: string
  pt_ContestantOrderId :: int
  pt_MatchedOrderId :: int
  pt_ExecutionPrice :: f64
  pt_ExecutionQuantity :: int
  pt_Ticker :: string
  pt_AggressorOrderId :: string
  pt_Seq :: int

record pb_metrics =
  pm_SubmissionId :: string
  pm_ThreadId :: int
  pm_Http200 :: int
  pm_Http4xx :: int
  pm_Http5xx :: int
  pm_Timeout :: int
  pm_Econnref :: int
  pm_OtherErr :: int
  pm_AvgLatencyMs :: f64
  pm_Samples :: int
  pm_Histogram :: "int list option"

record audit_batch =
  ab_Orders :: "pb_order list"
  ab_Trades :: "pb_trade list"
  ab_Metrics :: "pb_metrics option"

section \<open>JSON records\<close>

record out_event =
  oe_SubmissionID :: string
  oe_EventTimestamp :: int
  oe_OrderID :: string
  oe_Action :: string
  oe_OrderType :: string
  oe_Ticker :: string
  oe_Price :: f64
  oe_Volume :: int
  oe_Seq :: int
  oe_ContestantOrderID :: int
  oe_MatchedOrderID :: int
  oe_CancelTargetID :: int
  oe_ExecutionPrice :: f64
  oe_AggressorOrderID :: string
  oe_EndOfRun :: bool
  oe_Outcome :: string

definition zero_out_event :: out_event where
  "zero_out_event =
     \<lparr>oe_SubmissionID = [], oe_EventTimestamp = 0, oe_OrderID = [], oe_Action = [], oe_OrderType = [],
      oe_Ticker = [], oe_Price = Fin 0, oe_Volume = 0, oe_Seq = 0, oe_ContestantOrderID = 0,
      oe_MatchedOrderID = 0, oe_CancelTargetID = 0, oe_ExecutionPrice = Fin 0, oe_AggressorOrderID = [],
      oe_EndOfRun = False, oe_Outcome = []\<rparr>"

text \<open>The fields in the order of the struct, with its tags.\<close>

definition event_fields :: "out_event \<Rightarrow> json_fields" where
  "event_fields e =
     [(''submission_id'', JStr (oe_SubmissionID e)), (''event_timestamp'', JInt (oe_EventTimestamp e)),
      (''order_id'', JStr (oe_OrderID e)), (''action'', JStr (oe_Action e))] @
     omitempty ''order_type'' (JStr (oe_OrderType e)) @
     omitempty ''ticker'' (JStr (oe_Ticker e)) @
     [(''price'', JFloat (oe_Price e)), (''volume'', JInt (oe_Volume e))] @
     omitempty ''seq'' (JInt (oe_Seq e)) @
     omitempty ''contestant_order_id'' (JInt (oe_ContestantOrderID e)) @
     omitempty ''matched_order_id'' (JInt (oe_MatchedOrderID e)) @
     omitempty ''cancel_target_id'' (JInt (oe_CancelTargetID e)) @
     omitempty ''execution_price'' (JFloat (oe_ExecutionPrice e)) @
     omitempty ''aggressor_order_id'' (JStr (oe_AggressorOrderID e)) @
     omitempty ''end_of_run'' (JBool (oe_EndOfRun e)) @
     omitempty ''outcome'' (JStr (oe_Outcome e))"

record out_metrics =
  om_SubmissionID :: string
  om_ThreadID :: int
  om_TotalReqs :: int
  om_Http200 :: int
  om_Http4xx :: int
  om_Http5xx :: int
  om_Timeout :: int
  om_Econnref :: int
  om_OtherErr :: int
  om_AvgLatencyMs :: f64
  om_Samples :: int
  om_Hist :: "int list option"

definition metrics_fields :: "out_metrics \<Rightarrow> json_fields" where
  "metrics_fields m =
     [(''submission_id'', JStr (om_SubmissionID m)), (''thread_id'', JInt (om_ThreadID m)),
      (''total_reqs'', JInt (om_TotalReqs m)), (''http_200'', JInt (om_Http200 m)),
      (''http_4xx'', JInt (om_Http4xx m)), (''http_5xx'', JInt (om_Http5xx m)), (''timeout'', JInt (om_Timeout m)),
      (''econnref'', JInt (om_Econnref m)), (''other_err'', JInt (om_OtherErr m)),
      (''avg_latency_ms'', JFloat (om_AvgLatencyMs m)), (''samples'', JInt (om_Samples m)), (''hist'', JInts (om_Hist m))]"

section \<open>Publishing\<close>

record kgo_record =
  kr_Topic :: string
  kr_Key :: string
  kr_Value :: string

record producer =
  pr_orderTopic :: string
  pr_metricsTopic :: string
  pr_sent :: "kgo_record list"

record producer_config =
  pc_Brokers :: "string list"
  pc_OrderTopic :: string
  pc_MetricsTopic :: string

datatype producer_error = NoBrokers | ProducerClientFailed

text \<open>\<open>client_ok\<close> says whether \<open>kgo.NewClient\<close> succeeds.\<close>

definition New_producer :: "bool \<Rightarrow> producer_config \<Rightarrow> producer_error + producer" where
  "New_producer client_ok cfg =
     (if pc_Brokers cfg = [] then Inl NoBrokers
      else if \<not> client_ok then Inl ProducerClientFailed
      else Inr \<lparr>pr_orderTopic = pc_OrderTopic cfg, pr_metricsTopic = pc_MetricsTopic cfg, pr_sent = []\<rparr>)"

definition produce :: "string \<Rightarrow> string \<Rightarrow> string \<Rightarrow> producer \<Rightarrow> producer" where
  "produce topic key val p =
     p\<lparr>pr_sent := pr_sent p @ [\<lparr>kr_Topic = topic, kr_Key = key, kr_Value = val\<rparr>]\<rparr>"

definition outcomeString :: "int \<Rightarrow> string" where
  "outcomeString outcome = (if outcome = 1 then ''REJECTED'' else if outcome = 2 then ''UNKNOWN'' else [])"

definition order_out :: "pb_order \<Rightarrow> out_event" where
  "order_out order =
     (let orderType = po_Action order;
          action = (if orderType = ''CANCEL'' then ''CANCEL'' else po_Side order) in
      zero_out_event
        \<lparr>oe_SubmissionID := po_SubmissionId order, oe_EventTimestamp := po_TimestampUs order,
         oe_OrderID := po_OrderId order, oe_Action := action, oe_OrderType := orderType,
         oe_Ticker := po_Ticker order, oe_Price := po_Price order, oe_Volume := po_Quantity order,
         oe_Seq := po_Seq order, oe_ContestantOrderID := po_ContestantOrderId order,
         oe_CancelTargetID := po_CancelTargetId order, oe_EndOfRun := po_EndOfRun order,
         oe_Outcome := outcomeString (po_Outcome order)\<rparr>)"

fun PublishOrderEvents :: "(json_fields \<Rightarrow> string) \<Rightarrow> pb_order list \<Rightarrow> producer \<Rightarrow> producer" where
  "PublishOrderEvents text [] p = p"
| "PublishOrderEvents text (order # orders) p =
     (case json_Marshal text (event_fields (order_out order)) of
        None \<Rightarrow> PublishOrderEvents text orders p
      | Some data \<Rightarrow>
          PublishOrderEvents text orders (produce (pr_orderTopic p) (po_SubmissionId order) data p))"

definition trade_out :: "pb_trade \<Rightarrow> out_event" where
  "trade_out trade =
     zero_out_event
       \<lparr>oe_SubmissionID := pt_SubmissionId trade, oe_EventTimestamp := pt_TimestampUs trade,
        oe_OrderID := fmt_d (pt_ContestantOrderId trade), oe_Action := ''FILL'', oe_Ticker := pt_Ticker trade,
        oe_ContestantOrderID := pt_ContestantOrderId trade, oe_MatchedOrderID := pt_MatchedOrderId trade,
        oe_ExecutionPrice := pt_ExecutionPrice trade, oe_Volume := pt_ExecutionQuantity trade,
        oe_AggressorOrderID := pt_AggressorOrderId trade, oe_Seq := pt_Seq trade\<rparr>"

fun PublishTradeEvents :: "(json_fields \<Rightarrow> string) \<Rightarrow> pb_trade list \<Rightarrow> producer \<Rightarrow> producer" where
  "PublishTradeEvents text [] p = p"
| "PublishTradeEvents text (trade # trades) p =
     (case json_Marshal text (event_fields (trade_out trade)) of
        None \<Rightarrow> PublishTradeEvents text trades p
      | Some data \<Rightarrow>
          PublishTradeEvents text trades (produce (pr_orderTopic p) (pt_SubmissionId trade) data p))"

definition metrics_out :: "pb_metrics \<Rightarrow> out_metrics" where
  "metrics_out m =
     \<lparr>om_SubmissionID = pm_SubmissionId m, om_ThreadID = pm_ThreadId m, om_TotalReqs = pm_Samples m,
      om_Http200 = pm_Http200 m, om_Http4xx = pm_Http4xx m, om_Http5xx = pm_Http5xx m,
      om_Timeout = pm_Timeout m, om_Econnref = pm_Econnref m, om_OtherErr = pm_OtherErr m,
      om_AvgLatencyMs = pm_AvgLatencyMs m, om_Samples = pm_Samples m, om_Hist = pm_Histogram m\<rparr>"

definition PublishMetrics :: "(json_fields \<Rightarrow> string) \<Rightarrow> pb_metrics option \<Rightarrow> producer \<Rightarrow> producer" where
  "PublishMetrics text metrics p =
     (case metrics of
        None \<Rightarrow> p
      | Some m \<Rightarrow>
          (case json_Marshal text (metrics_fields (metrics_out m)) of
             None \<Rightarrow> p
           | Some data \<Rightarrow> produce (pr_metricsTopic p) (pm_SubmissionId m) data p))"

section \<open>The stream of batches\<close>

text \<open>
  \<open>StreamTelemetry\<close> on the results of \<open>stream.Recv\<close>: a batch, the end of the stream, or an error. The
  server keeps the latest metrics and counts batches, those of this stream and those of all streams.
\<close>

datatype stream_recv = RecvBatch audit_batch | RecvEOF | RecvError

datatype stream_end = Acked int | StreamFailed | StreamOpen

record telemetry_server =
  ts_producer :: producer
  ts_latest :: "out_metrics option"
  ts_batchesTotal :: int

definition storeLatestMetrics :: "pb_metrics \<Rightarrow> telemetry_server \<Rightarrow> telemetry_server" where
  "storeLatestMetrics m s = s\<lparr>ts_latest := Some (metrics_out m)\<rparr>"

definition publish_batch :: "(json_fields \<Rightarrow> string) \<Rightarrow> audit_batch \<Rightarrow> telemetry_server \<Rightarrow> telemetry_server" where
  "publish_batch text b s =
     (let s0 = s\<lparr>ts_batchesTotal := i64 (ts_batchesTotal s + 1)\<rparr>;
          s1 = s0\<lparr>ts_producer := PublishOrderEvents text (ab_Orders b) (ts_producer s0)\<rparr>;
          s2 = s1\<lparr>ts_producer := PublishTradeEvents text (ab_Trades b) (ts_producer s1)\<rparr> in
      case ab_Metrics b of
        None \<Rightarrow> s2
      | Some m \<Rightarrow> storeLatestMetrics m (s2\<lparr>ts_producer := PublishMetrics text (Some m) (ts_producer s2)\<rparr>))"

fun StreamTelemetry ::
  "(json_fields \<Rightarrow> string) \<Rightarrow> stream_recv list \<Rightarrow> int \<Rightarrow> telemetry_server \<Rightarrow> telemetry_server \<times> stream_end" where
  "StreamTelemetry text [] batchCount s = (s, StreamOpen)"
| "StreamTelemetry text (RecvEOF # rs) batchCount s = (s, Acked batchCount)"
| "StreamTelemetry text (RecvError # rs) batchCount s = (s, StreamFailed)"
| "StreamTelemetry text (RecvBatch b # rs) batchCount s =
     StreamTelemetry text rs (i64 (batchCount + 1)) (publish_batch text b s)"

section \<open>What is published\<close>

definition record_of :: "(json_fields \<Rightarrow> string) \<Rightarrow> string \<Rightarrow> out_event \<Rightarrow> kgo_record" where
  "record_of text topic e = \<lparr>kr_Topic = topic, kr_Key = oe_SubmissionID e, kr_Value = text (event_fields e)\<rparr>"

definition finite_event :: "out_event \<Rightarrow> bool" where
  "finite_event e \<longleftrightarrow> json_supported (JFloat (oe_Price e)) \<and> json_supported (JFloat (oe_ExecutionPrice e))"

lemma omitempty_supported:
  "json_supported (JFloat (Fin 0)) \<Longrightarrow>
     list_all (\<lambda>f. json_supported (snd f)) (omitempty k v) \<longleftrightarrow> json_supported v \<or> json_empty v"
  by (simp add: omitempty_def)

lemma event_supported: "list_all (\<lambda>f. json_supported (snd f)) (event_fields e) \<longleftrightarrow> finite_event e"
proof -
  have "json_empty (JFloat x) \<Longrightarrow> json_supported (JFloat x)" for x by simp
  then show ?thesis by (auto simp: event_fields_def finite_event_def omitempty_supported)
qed

lemma PublishOrderEvents_sent:
  "PublishOrderEvents text orders p =
     p\<lparr>pr_sent := pr_sent p @ map (record_of text (pr_orderTopic p)) (filter finite_event (map order_out orders))\<rparr>"
proof (induction orders arbitrary: p)
  case (Cons order orders)
  have "oe_SubmissionID (order_out order) = po_SubmissionId order" by (simp add: order_out_def Let_def)
  with Cons show ?case
    by (simp add: json_Marshal_def event_supported produce_def record_of_def)
qed simp

lemma PublishTradeEvents_sent:
  "PublishTradeEvents text trades p =
     p\<lparr>pr_sent := pr_sent p @ map (record_of text (pr_orderTopic p)) (filter finite_event (map trade_out trades))\<rparr>"
proof (induction trades arbitrary: p)
  case (Cons trade trades)
  have "oe_SubmissionID (trade_out trade) = pt_SubmissionId trade" by (simp add: trade_out_def)
  with Cons show ?case
    by (simp add: json_Marshal_def event_supported produce_def record_of_def)
qed simp

end
