(* ===== verification/Consumer.thy ===== *)
theory Consumer
  imports Producer
begin

text \<open>
  The Redpanda consumer of the artifact checker (\<open>artifact-checker/internal/consumer/consumer.go\<close>):
  the validation of its configuration, the classification and decoding of records, and the loop that
  hands events and metrics to the pipeline. The client, its polls and their errors are inputs. With the
  producer it gives the transport theorem: what the load generator reports is what the checker sees.
\<close>

section \<open>Configuration\<close>

definition defaultEventBuffer :: int where
  "defaultEventBuffer = 65536"

definition defaultMetricsBuffer :: int where
  "defaultMetricsBuffer = 65536"

record consumer_config =
  cc_Brokers :: "string list"
  cc_ConsumerGroup :: string
  cc_OrderTopic :: string
  cc_MetricsTopic :: string
  cc_EventBuffer :: int
  cc_MetricsBuffer :: int

text \<open>Channels are what has been sent on them; \<open>cs_topics\<close> are the topics the client consumes.\<close>

record consumer_service =
  cs_topics :: "string list"
  cs_orderTopic :: string
  cs_metricsTopic :: string
  cs_events :: "order_event list"
  cs_metrics :: "metrics_batch list"
  cs_eventCap :: int
  cs_metricsCap :: int
  cs_isClosed :: bool

datatype consumer_error = NoBroker | NoGroup | NoTopic | KgoClientFailed

fun unique_loop :: "string list \<Rightarrow> string list \<Rightarrow> string list" where
  "unique_loop [] unique = unique"
| "unique_loop (topic # topics) unique =
     (if topic = [] \<or> topic \<in> set unique then unique_loop topics unique
      else unique_loop topics (unique @ [topic]))"

definition uniqueTopics :: "string list \<Rightarrow> string list" where
  "uniqueTopics topics = unique_loop topics []"

definition New_consumer :: "bool \<Rightarrow> consumer_config \<Rightarrow> consumer_error + consumer_service" where
  "New_consumer client_ok config =
     (if cc_Brokers config = [] then Inl NoBroker
      else if cc_ConsumerGroup config = [] then Inl NoGroup
      else if cc_OrderTopic config = [] \<and> cc_MetricsTopic config = [] then Inl NoTopic
      else
        let eventBuffer = (if cc_EventBuffer config \<le> 0 then defaultEventBuffer else cc_EventBuffer config);
            metricsBuffer = (if cc_MetricsBuffer config \<le> 0 then defaultMetricsBuffer else cc_MetricsBuffer config);
            topics = uniqueTopics [cc_OrderTopic config, cc_MetricsTopic config] in
        if \<not> client_ok then Inl KgoClientFailed
        else Inr \<lparr>cs_topics = topics, cs_orderTopic = cc_OrderTopic config, cs_metricsTopic = cc_MetricsTopic config,
                  cs_events = [], cs_metrics = [], cs_eventCap = eventBuffer, cs_metricsCap = metricsBuffer,
                  cs_isClosed = False\<rparr>)"

section \<open>Records\<close>

datatype record_kind = KindUnknown | KindOrder | KindMetrics

definition quoted :: "string \<Rightarrow> string" where
  "quoted s = CHR 0x22 # s @ [CHR 0x22]"

definition classify :: "consumer_service \<Rightarrow> kgo_record \<Rightarrow> record_kind" where
  "classify service r =
     (if kr_Topic r = cs_orderTopic service \<and> kr_Topic r \<noteq> cs_metricsTopic service then KindOrder
      else if kr_Topic r = cs_metricsTopic service \<and> kr_Topic r \<noteq> cs_orderTopic service then KindMetrics
      else
        let payload = kr_Value r in
        if str_contains payload (quoted ''hist'') \<or> str_contains payload (quoted ''histogram'') \<or>
           str_contains payload (quoted ''http_200'')
        then KindMetrics
        else if str_contains payload (quoted ''action'') \<or> str_contains payload (quoted ''event_timestamp'')
        then KindOrder
        else KindUnknown)"

text \<open>The fields that the two \<open>UnmarshalJSON\<close> methods ask for, and the structs filled from them.\<close>

definition order_target :: json_target where
  "order_target =
     [(''submission_id'', TStr), (''event_timestamp'', TInt), (''timestamp'', TInt), (''order_id'', TStr),
      (''action'', TStr), (''price'', TFloat), (''volume'', TInt), (''quantity'', TInt), (''ticker'', TStr),
      (''order_type'', TStr), (''seq'', TInt), (''contestant_order_id'', TInt), (''matched_order_id'', TInt),
      (''cancel_target_id'', TInt), (''execution_price'', TFloat), (''aggressor_order_id'', TStr),
      (''end_of_run'', TBool), (''outcome'', TStr)]"

definition order_of_fields :: "json_fields \<Rightarrow> order_event_json" where
  "order_of_fields fs =
     \<lparr>oj_submissionID = get_str fs ''submission_id'', oj_eventTimestamp = get_int fs ''event_timestamp'',
      oj_timestamp = get_int fs ''timestamp'', oj_orderID = get_str fs ''order_id'',
      oj_action = get_str fs ''action'', oj_price = get_float fs ''price'', oj_volume = get_int fs ''volume'',
      oj_quantity = get_int fs ''quantity'', oj_ticker = get_str fs ''ticker'',
      oj_orderType = get_str fs ''order_type'', oj_seq = get_int fs ''seq'',
      oj_contestantOrderID = get_int fs ''contestant_order_id'', oj_matchedOrderID = get_int fs ''matched_order_id'',
      oj_cancelTargetID = get_int fs ''cancel_target_id'', oj_executionPrice = get_float fs ''execution_price'',
      oj_aggressorOrderID = get_str fs ''aggressor_order_id'', oj_endOfRun = get_bool fs ''end_of_run'',
      oj_outcome = get_str fs ''outcome''\<rparr>"

definition metrics_target :: json_target where
  "metrics_target =
     [(''submission_id'', TStr), (''thread_id'', TInt), (''total_reqs'', TInt), (''samples'', TInt),
      (''http_200'', TInt), (''histogram'', TInts), (''hist'', TInts)]"

definition metrics_of_fields :: "json_fields \<Rightarrow> metrics_batch_json" where
  "metrics_of_fields fs =
     \<lparr>mj_submissionID = get_str fs ''submission_id'', mj_threadID = get_int fs ''thread_id'',
      mj_totalReqs = get_int fs ''total_reqs'', mj_samples = get_int fs ''samples'',
      mj_http200 = get_int fs ''http_200'', mj_histogram = get_ints fs ''histogram'', mj_hist = get_ints fs ''hist''\<rparr>"

type_synonym json_parser = "json_target \<Rightarrow> string \<Rightarrow> json_fields option"

text \<open>
  \<open>handleRecord\<close>; \<open>cancelled\<close> says that the \<open>select\<close> of \<open>send\<close> takes the context's branch. A record
  that cannot be decoded, or has no submission id, is dropped without an error.
\<close>

definition handleRecord ::
  "json_parser \<Rightarrow> bool \<Rightarrow> kgo_record \<Rightarrow> consumer_service \<Rightarrow> consumer_service \<times> ctx_err option" where
  "handleRecord parse cancelled r service =
     (case classify service r of
        KindOrder \<Rightarrow>
          (case parse order_target (kr_Value r) of
             None \<Rightarrow> (service, None)
           | Some fs \<Rightarrow>
               let event = event_of_json (order_of_fields fs) in
               if ev_submissionID event = [] then (service, None)
               else if cancelled then (service, Some CtxErr)
               else (service\<lparr>cs_events := cs_events service @ [event]\<rparr>, None))
      | KindMetrics \<Rightarrow>
          (case parse metrics_target (kr_Value r) of
             None \<Rightarrow> (service, None)
           | Some fs \<Rightarrow>
               let batch = batch_of_json (metrics_of_fields fs) in
               if mb_submissionID batch = [] then (service, None)
               else if cancelled then (service, Some CtxErr)
               else (service\<lparr>cs_metrics := cs_metrics service @ [batch]\<rparr>, None))
      | KindUnknown \<Rightarrow> (service, None))"

text \<open>
  \<open>EachRecord\<close> visits the remaining records of a poll after an error too, but does nothing with them.
  Each record comes with the choice of its \<open>send\<close>.
\<close>

fun each_record ::
  "json_parser \<Rightarrow> (bool \<times> kgo_record) list \<Rightarrow> ctx_err option \<Rightarrow> consumer_service \<Rightarrow>
     consumer_service \<times> ctx_err option" where
  "each_record parse [] runErr service = (service, runErr)"
| "each_record parse ((cancelled, r) # rs) runErr service =
     (if runErr \<noteq> None then each_record parse rs runErr service
      else case handleRecord parse cancelled r service of
        (service', runErr') \<Rightarrow> each_record parse rs runErr' service')"

text \<open>
  \<open>Run\<close> on the polls of the client: whether the context is done after the poll, and its records. The
  deferred calls close both channels when it returns; \<open>None\<close> means that it is still running.
\<close>

definition close_channels :: "consumer_service \<Rightarrow> consumer_service" where
  "close_channels service = service\<lparr>cs_isClosed := True\<rparr>"

fun consumer_Run ::
  "json_parser \<Rightarrow> (bool \<times> (bool \<times> kgo_record) list) list \<Rightarrow> consumer_service \<Rightarrow> consumer_service \<times> ctx_err option" where
  "consumer_Run parse [] service = (service, None)"
| "consumer_Run parse ((ctxDone, records) # polls) service =
     (if ctxDone then (close_channels service, Some CtxErr)
      else case each_record parse records None service of
        (service', Some e) \<Rightarrow> (close_channels service', Some e)
      | (service', None) \<Rightarrow> consumer_Run parse polls service')"

section \<open>Reading what the producer wrote\<close>

text \<open>The event that an intent or a fill of the load generator stands for.\<close>

definition event_meant :: "out_event \<Rightarrow> order_event" where
  "event_meant e =
     \<lparr>ev_submissionID = oe_SubmissionID e, ev_eventTimestamp = normalizeEpochMicros (oe_EventTimestamp e) 0,
      ev_orderID = oe_OrderID e, ev_action = oe_Action e, ev_price = oe_Price e, ev_volume = oe_Volume e,
      ev_ticker = oe_Ticker e, ev_orderType = oe_OrderType e, ev_seq = oe_Seq e,
      ev_contestantOrderID = oe_ContestantOrderID e, ev_matchedOrderID = oe_MatchedOrderID e,
      ev_cancelTargetID = oe_CancelTargetID e, ev_executionPrice = oe_ExecutionPrice e,
      ev_aggressorOrderID = oe_AggressorOrderID e, ev_endOfRun = oe_EndOfRun e, ev_outcome = oe_Outcome e\<rparr>"

definition batch_meant :: "pb_metrics \<Rightarrow> metrics_batch" where
  "batch_meant m =
     \<lparr>mb_submissionID = pm_SubmissionId m, mb_threadID = pm_ThreadId m, mb_totalReqs = pm_Samples m,
      mb_http200 = pm_Http200 m, mb_histogram = pm_Histogram m\<rparr>"

definition full_event_fields :: "out_event \<Rightarrow> json_fields" where
  "full_event_fields e =
     [(''submission_id'', JStr (oe_SubmissionID e)), (''event_timestamp'', JInt (oe_EventTimestamp e)),
      (''order_id'', JStr (oe_OrderID e)), (''action'', JStr (oe_Action e))] @
     [(''order_type'', JStr (oe_OrderType e))] @ [(''ticker'', JStr (oe_Ticker e))] @
     [(''price'', JFloat (oe_Price e)), (''volume'', JInt (oe_Volume e))] @
     [(''seq'', JInt (oe_Seq e))] @ [(''contestant_order_id'', JInt (oe_ContestantOrderID e))] @
     [(''matched_order_id'', JInt (oe_MatchedOrderID e))] @ [(''cancel_target_id'', JInt (oe_CancelTargetID e))] @
     [(''execution_price'', JFloat (oe_ExecutionPrice e))] @ [(''aggressor_order_id'', JStr (oe_AggressorOrderID e))] @
     [(''end_of_run'', JBool (oe_EndOfRun e))] @ [(''outcome'', JStr (oe_Outcome e))]"

lemma event_keys_distinct: "distinct (map fst (full_event_fields e))"
  by (simp add: full_event_fields_def)

lemma event_drops_zeros: "drops_zeros (full_event_fields e) (event_fields e)"
  unfolding full_event_fields_def event_fields_def
  by (intro drops_zeros_append drops_zeros_refl drops_zeros_omitempty) simp_all

definition event_types :: json_target where
  "event_types =
     [(''submission_id'', TStr), (''event_timestamp'', TInt), (''order_id'', TStr), (''action'', TStr),
      (''order_type'', TStr), (''ticker'', TStr), (''price'', TFloat), (''volume'', TInt), (''seq'', TInt),
      (''contestant_order_id'', TInt), (''matched_order_id'', TInt), (''cancel_target_id'', TInt),
      (''execution_price'', TFloat), (''aggressor_order_id'', TStr), (''end_of_run'', TBool), (''outcome'', TStr)]"

definition metrics_types :: json_target where
  "metrics_types =
     [(''submission_id'', TStr), (''thread_id'', TInt), (''total_reqs'', TInt), (''http_200'', TInt),
      (''http_4xx'', TInt), (''http_5xx'', TInt), (''timeout'', TInt), (''econnref'', TInt), (''other_err'', TInt),
      (''avg_latency_ms'', TFloat), (''samples'', TInt), (''hist'', TInts)]"

lemma wire_types_agree: "targets_agree event_types order_target" "targets_agree metrics_types metrics_target"
  by code_simp+

lemma event_types_agree: "types_agree (full_event_fields e) order_target"
proof (rule targets_agree_types)
  have "field_types (full_event_fields e) = event_types"
    by (simp add: field_types_def full_event_fields_def event_types_def)
  then show "targets_agree (field_types (full_event_fields e)) order_target" by (simp add: wire_types_agree)
qed

lemma order_tags:
  "''submission_id'' \<in> fst ` set order_target" "''event_timestamp'' \<in> fst ` set order_target"
  "''timestamp'' \<in> fst ` set order_target" "''order_id'' \<in> fst ` set order_target"
  "''action'' \<in> fst ` set order_target" "''price'' \<in> fst ` set order_target" "''volume'' \<in> fst ` set order_target"
  "''quantity'' \<in> fst ` set order_target" "''ticker'' \<in> fst ` set order_target"
  "''order_type'' \<in> fst ` set order_target" "''seq'' \<in> fst ` set order_target"
  "''contestant_order_id'' \<in> fst ` set order_target" "''matched_order_id'' \<in> fst ` set order_target"
  "''cancel_target_id'' \<in> fst ` set order_target" "''execution_price'' \<in> fst ` set order_target"
  "''aggressor_order_id'' \<in> fst ` set order_target" "''end_of_run'' \<in> fst ` set order_target"
  "''outcome'' \<in> fst ` set order_target"
  by code_simp+

lemma metrics_tags:
  "''submission_id'' \<in> fst ` set metrics_target" "''thread_id'' \<in> fst ` set metrics_target"
  "''total_reqs'' \<in> fst ` set metrics_target" "''samples'' \<in> fst ` set metrics_target"
  "''http_200'' \<in> fst ` set metrics_target" "''histogram'' \<in> fst ` set metrics_target"
  "''hist'' \<in> fst ` set metrics_target"
  by code_simp+

lemma order_reads_back:
  assumes "reads_back text parse" and "finite_event e"
  shows "\<exists>fs. parse order_target (text (event_fields e)) = Some fs \<and> event_of_json (order_of_fields fs) = event_meant e"
proof -
  let ?fs = "read_fields order_target (event_fields e)"
  note full = event_drops_zeros[of e] event_keys_distinct[of e]
  note ok = drops_zeros_agree[OF full event_types_agree]
  have "parse order_target (text (event_fields e)) = Some ?fs"
    using assms ok event_supported by (simp add: reads_back_def)
  moreover have "order_of_fields ?fs = order_of_fields (full_event_fields e)"
    by (simp only: order_of_fields_def get_target order_tags drops_zeros_get[OF full])
  moreover have "event_of_json (order_of_fields (full_event_fields e)) = event_meant e"
    by (simp add: order_of_fields_def full_event_fields_def event_of_json_def event_meant_def
        get_str_def get_int_def get_float_def get_bool_def)
  ultimately show ?thesis by simp
qed

lemma metrics_keys: "distinct (map fst (metrics_fields m))"
  by (simp add: metrics_fields_def)

lemma metrics_types_agree: "types_agree (metrics_fields m) metrics_target"
proof (rule targets_agree_types)
  have "field_types (metrics_fields m) = metrics_types"
    by (simp add: field_types_def metrics_fields_def metrics_types_def)
  then show "targets_agree (field_types (metrics_fields m)) metrics_target" by (simp add: wire_types_agree)
qed

lemma metrics_reads_back:
  assumes "reads_back text parse" and "json_supported (JFloat (pm_AvgLatencyMs m))"
  shows "\<exists>fs. parse metrics_target (text (metrics_fields (metrics_out m))) = Some fs \<and>
    batch_of_json (metrics_of_fields fs) = batch_meant m"
proof -
  let ?all = "metrics_fields (metrics_out m)"
  let ?fs = "read_fields metrics_target ?all"
  have "list_all (\<lambda>f. json_supported (snd f)) ?all"
    using assms(2) by (simp add: metrics_fields_def metrics_out_def)
  then have "parse metrics_target (text ?all) = Some ?fs"
    using assms(1) metrics_keys metrics_types_agree by (simp add: reads_back_def)
  moreover have "metrics_of_fields ?fs = metrics_of_fields ?all"
    by (simp only: metrics_of_fields_def get_target metrics_tags)
  moreover have "batch_of_json (metrics_of_fields ?all) = batch_meant m"
    by (simp add: metrics_of_fields_def metrics_fields_def metrics_out_def batch_of_json_def
        batch_meant_def get_str_def get_int_def get_ints_def)
  ultimately show ?thesis by (intro exI[of _ ?fs]) simp
qed

section \<open>From the load generator to the checker\<close>

text \<open>The messages of a stream that are published: what is in its batches, up to its end, less what JSON cannot say.\<close>

datatype wire_msg = WireEvent out_event | WireMetrics pb_metrics

definition wire_record :: "(json_fields \<Rightarrow> string) \<Rightarrow> string \<Rightarrow> string \<Rightarrow> wire_msg \<Rightarrow> kgo_record" where
  "wire_record text ot mt msg =
     (case msg of
        WireEvent e \<Rightarrow> record_of text ot e
      | WireMetrics m \<Rightarrow> \<lparr>kr_Topic = mt, kr_Key = pm_SubmissionId m, kr_Value = text (metrics_fields (metrics_out m))\<rparr>)"

definition batch_messages :: "audit_batch \<Rightarrow> wire_msg list" where
  "batch_messages b =
     map WireEvent (filter finite_event (map order_out (ab_Orders b) @ map trade_out (ab_Trades b))) @
     (case ab_Metrics b of
        None \<Rightarrow> []
      | Some m \<Rightarrow> if json_supported (JFloat (pm_AvgLatencyMs m)) then [WireMetrics m] else [])"

fun stream_messages :: "stream_recv list \<Rightarrow> wire_msg list" where
  "stream_messages (RecvBatch b # rs) = batch_messages b @ stream_messages rs"
| "stream_messages _ = []"

lemma PublishMetrics_sent:
  "PublishMetrics text (Some m) p =
     p\<lparr>pr_sent := pr_sent p @ (if json_supported (JFloat (pm_AvgLatencyMs m))
        then [wire_record text ot (pr_metricsTopic p) (WireMetrics m)] else [])\<rparr>"
  by (simp add: PublishMetrics_def json_Marshal_def metrics_fields_def metrics_out_def produce_def wire_record_def)

lemma publish_batch_sent:
  "ts_producer (publish_batch text b s) = (ts_producer s)\<lparr>pr_sent := pr_sent (ts_producer s) @
     map (wire_record text (pr_orderTopic (ts_producer s)) (pr_metricsTopic (ts_producer s))) (batch_messages b)\<rparr>"
  by (cases "ab_Metrics b")
    (simp_all add: publish_batch_def Let_def batch_messages_def PublishOrderEvents_sent PublishTradeEvents_sent
      PublishMetrics_sent[where ot = "pr_orderTopic (ts_producer s)"] storeLatestMetrics_def wire_record_def comp_def)

lemma StreamTelemetry_sent:
  "ts_producer (fst (StreamTelemetry text recvs n s)) = (ts_producer s)\<lparr>pr_sent := pr_sent (ts_producer s) @
     map (wire_record text (pr_orderTopic (ts_producer s)) (pr_metricsTopic (ts_producer s))) (stream_messages recvs)\<rparr>"
  by (induction "text" recvs n s rule: StreamTelemetry.induct) (simp_all add: publish_batch_sent)

lemma stream_messages_finite:
  "WireEvent e \<in> set (stream_messages recvs) \<Longrightarrow> finite_event e"
  "WireMetrics m \<in> set (stream_messages recvs) \<Longrightarrow> json_supported (JFloat (pm_AvgLatencyMs m))"
  by (induction recvs rule: stream_messages.induct) (auto simp: batch_messages_def split: option.splits if_splits)

text \<open>What the checker gets to see of a list of messages.\<close>

definition events_meant :: "wire_msg list \<Rightarrow> order_event list" where
  "events_meant ms = concat (map (\<lambda>msg. case msg of
     WireEvent e \<Rightarrow> if oe_SubmissionID e = [] then [] else [event_meant e] | WireMetrics m \<Rightarrow> []) ms)"

definition batches_meant :: "wire_msg list \<Rightarrow> metrics_batch list" where
  "batches_meant ms = concat (map (\<lambda>msg. case msg of
     WireEvent e \<Rightarrow> [] | WireMetrics m \<Rightarrow> if pm_SubmissionId m = [] then [] else [batch_meant m]) ms)"

lemma handle_wire:
  assumes "reads_back text parse" and "ot \<noteq> mt" and "cs_orderTopic service = ot" and "cs_metricsTopic service = mt"
    and "\<And>e. msg = WireEvent e \<Longrightarrow> finite_event e"
    and "\<And>m. msg = WireMetrics m \<Longrightarrow> json_supported (JFloat (pm_AvgLatencyMs m))"
  shows "handleRecord parse False (wire_record text ot mt msg) service =
    (service\<lparr>cs_events := cs_events service @ events_meant [msg], cs_metrics := cs_metrics service @ batches_meant [msg]\<rparr>, None)"
proof (cases msg)
  case (WireEvent e)
  from order_reads_back[OF assms(1) assms(5)[OF WireEvent]] obtain fs where
    fs: "parse order_target (text (event_fields e)) = Some fs" "event_of_json (order_of_fields fs) = event_meant e" by blast
  have "classify service (wire_record text ot mt msg) = KindOrder"
    using assms(2-4) WireEvent by (simp add: classify_def wire_record_def record_of_def)
  with fs WireEvent show ?thesis
    by (simp add: handleRecord_def wire_record_def record_of_def events_meant_def batches_meant_def Let_def)
      (simp add: event_meant_def)
next
  case (WireMetrics m)
  from metrics_reads_back[OF assms(1) assms(6)[OF WireMetrics]] obtain fs where
    fs: "parse metrics_target (text (metrics_fields (metrics_out m))) = Some fs"
      "batch_of_json (metrics_of_fields fs) = batch_meant m" by blast
  have "classify service (wire_record text ot mt msg) = KindMetrics"
    using assms(2-4) WireMetrics by (simp add: classify_def wire_record_def)
  with fs WireMetrics show ?thesis
    by (simp add: handleRecord_def wire_record_def events_meant_def batches_meant_def Let_def)
      (simp add: batch_meant_def)
qed

lemma handle_wires:
  assumes "reads_back text parse" and "ot \<noteq> mt" and "cs_orderTopic service = ot" and "cs_metricsTopic service = mt"
    and "\<And>e. WireEvent e \<in> set ms \<Longrightarrow> finite_event e"
    and "\<And>m. WireMetrics m \<in> set ms \<Longrightarrow> json_supported (JFloat (pm_AvgLatencyMs m))"
  shows "each_record parse (map (\<lambda>msg. (False, wire_record text ot mt msg)) ms) None service =
    (service\<lparr>cs_events := cs_events service @ events_meant ms, cs_metrics := cs_metrics service @ batches_meant ms\<rparr>, None)"
  using assms(3-)
proof (induction ms arbitrary: service)
  case Nil
  then show ?case by (simp add: events_meant_def batches_meant_def)
next
  case (Cons msg ms)
  have "handleRecord parse False (wire_record text ot mt msg) service =
    (service\<lparr>cs_events := cs_events service @ events_meant [msg], cs_metrics := cs_metrics service @ batches_meant [msg]\<rparr>, None)"
    by (rule handle_wire[OF assms(1,2)]) (use Cons.prems in auto)
  then show ?case using Cons by (simp add: events_meant_def batches_meant_def)
qed

lemma map_lists_subset: "set ys \<subseteq> f ` A \<Longrightarrow> \<exists>xs. set xs \<subseteq> A \<and> ys = map f xs"
proof (induction ys)
  case (Cons y ys)
  then obtain x xs where "x \<in> A" "y = f x" "set xs \<subseteq> A" "ys = map f xs" by auto
  then show ?case by (intro exI[of _ "x # xs"]) simp
qed simp


definition sample_intent :: pb_order where
  "sample_intent =
     \<lparr>po_TimestampUs = 1700000000000000, po_SubmissionId = ''s'', po_OrderId = ''x'', po_Action = ''CANCEL'',
      po_Side = ''BUY'', po_Ticker = ''T'', po_Price = Fin 0, po_Quantity = 0, po_CancelTargetId = 7, po_Seq = 3,
      po_ContestantOrderId = 0, po_EndOfRun = False, po_Outcome = 2\<rparr>"

definition sample_batch :: audit_batch where
  "sample_batch = \<lparr>ab_Orders = [sample_intent, sample_intent\<lparr>po_Price := NaN\<rparr>], ab_Trades = [],
     ab_Metrics = Some \<lparr>pm_SubmissionId = ''s'', pm_ThreadId = 1, pm_Http200 = 4, pm_Http4xx = 0, pm_Http5xx = 0,
       pm_Timeout = 0, pm_Econnref = 0, pm_OtherErr = 0, pm_AvgLatencyMs = Fin (1 / 2), pm_Samples = 4,
       pm_Histogram = Some [4, 0]\<rparr>\<rparr>"

definition sample_server :: telemetry_server where
  "sample_server = \<lparr>ts_producer = \<lparr>pr_orderTopic = ''order_events'', pr_metricsTopic = ''order_metrics'', pr_sent = []\<rparr>,
     ts_latest = None, ts_batchesTotal = 0\<rparr>"

definition sample_service :: consumer_service where
  "sample_service = \<lparr>cs_topics = [''order_events'', ''order_metrics''], cs_orderTopic = ''order_events'',
     cs_metricsTopic = ''order_metrics'', cs_events = [], cs_metrics = [], cs_eventCap = 65536, cs_metricsCap = 65536,
     cs_isClosed = False\<rparr>"

lemma sample_messages:
  "length (stream_messages [RecvBatch sample_batch, RecvEOF]) = 2"
  by (simp add: sample_batch_def sample_intent_def batch_messages_def order_out_def zero_out_event_def finite_event_def Let_def)


section \<open>One topic for both\<close>

text \<open>
  When both kinds of records share a topic the consumer looks for field names in the raw payload. A
  value can look like a field name: this order event, of a submission called hist, is taken for metrics.
\<close>

definition hist_order :: string where
  "hist_order = [CHR 0x7B] @ quoted ''submission_id'' @ '':'' @ quoted ''hist'' @ '','' @ quoted ''action'' @ '':'' @
     quoted ''BUY'' @ [CHR 0x7D]"

lemma sniffing_misreads:
  "classify (sample_service\<lparr>cs_metricsTopic := ''order_events''\<rparr>)
     \<lparr>kr_Topic = ''order_events'', kr_Key = ''hist'', kr_Value = hist_order\<rparr> = KindMetrics"
  by code_simp

end
