(* ===== verification/Publisher.thy ===== *)
theory Publisher
  imports GoJson Aggregator
begin

text \<open>
  The publisher of the artifact checker (\<open>artifact-checker/internal/storage/publisher.go\<close>): the payload
  of the leaderboard, the write to Redis, the asynchronous insert into TimescaleDB, and the loop of
  \<open>Run\<close>. Whether Redis and the database carry out a command is decided by the environment. The last
  section composes it with the aggregator: what the leaderboard is told about a submission.
\<close>

section \<open>Configuration\<close>

definition defaultTimeout :: int where
  "defaultTimeout = 2 * 10 ^ 9"

record publisher_config =
  pf_PostgresURL :: string
  pf_RedisAddr :: string
  pf_RedisDB :: int
  pf_DBTimeout :: int
  pf_RedisTimeout :: int

datatype publisher_error = NoPostgresURL | NoRedisAddr | DBConnectFailed | RedisPingFailed

text \<open>The two flags are the answers of \<open>pgxpool.New\<close> and of the \<open>Ping\<close>.\<close>

definition NewPublisher :: "bool \<Rightarrow> bool \<Rightarrow> publisher_config \<Rightarrow> publisher_error + publisher_config" where
  "NewPublisher db_ok ping_ok config =
     (if pf_PostgresURL config = [] then Inl NoPostgresURL
      else if pf_RedisAddr config = [] then Inl NoRedisAddr
      else
        let config1 = config\<lparr>pf_DBTimeout := (if pf_DBTimeout config \<le> 0 then defaultTimeout else pf_DBTimeout config)\<rparr>;
            config2 = config1\<lparr>pf_RedisTimeout := (if pf_RedisTimeout config1 \<le> 0 then defaultTimeout else pf_RedisTimeout config1)\<rparr> in
        if \<not> db_ok then Inl DBConnectFailed
        else if \<not> ping_ok then Inl RedisPingFailed
        else Inr config2)"

section \<open>Payload\<close>

record leaderboard_payload =
  lp_SubmissionID :: string
  lp_TeamName :: string
  lp_TPS :: int
  lp_P50Ms :: f64
  lp_P90Ms :: f64
  lp_P99Ms :: f64
  lp_P99Bucket :: int
  lp_Status :: string
  lp_Correct :: bool
  lp_IsCorrect :: bool

definition toPayload :: "score \<Rightarrow> leaderboard_payload" where
  "toPayload sc =
     (let teamName = (if sc_teamName sc = [] then sc_submissionID sc else sc_teamName sc);
          status = (if sc_verdict sc = VerdictZero then VerdictUnverified else sc_verdict sc);
          is_correct = (status = VerdictCorrect) in
      \<lparr>lp_SubmissionID = sc_submissionID sc, lp_TeamName = teamName, lp_TPS = sc_tps sc,
       lp_P50Ms = sc_p50Ms sc, lp_P90Ms = sc_p90Ms sc, lp_P99Ms = sc_p99Ms sc, lp_P99Bucket = sc_p99Bucket sc,
       lp_Status = verdict_str status, lp_Correct = is_correct, lp_IsCorrect = is_correct\<rparr>)"

definition payload_fields :: "leaderboard_payload \<Rightarrow> json_fields" where
  "payload_fields p =
     [(''submission_id'', JStr (lp_SubmissionID p)), (''team_name'', JStr (lp_TeamName p)), (''tps'', JInt (lp_TPS p)),
      (''p50_ms'', JFloat (lp_P50Ms p)), (''p90_ms'', JFloat (lp_P90Ms p)), (''p99_ms'', JFloat (lp_P99Ms p)),
      (''p99_bucket'', JInt (lp_P99Bucket p)), (''status'', JStr (lp_Status p)), (''correct'', JBool (lp_Correct p)),
      (''is_correct'', JBool (lp_IsCorrect p))]"

section \<open>Publishing\<close>

record metrics_row =
  row_team_id :: string
  row_tps :: int
  row_p50 :: f64
  row_p90 :: f64
  row_p99 :: f64
  row_is_correct :: bool

text \<open>
  The stores: the hash \<open>leaderboard_state\<close>, the messages on \<open>leaderboard_updates\<close>, and the rows, which
  goroutines insert in no particular order.
\<close>

record publisher =
  pub_state :: "(string, string) gomap"
  pub_updates :: "string list"
  pub_rows :: "metrics_row multiset"

text \<open>
  The pipeline is not a transaction: when \<open>Exec\<close> reports an error, each of its two commands may have
  been carried out or not.
\<close>

datatype pipe_answer = PipeDone | PipeError bool bool

datatype publish_error = PayloadMarshal | PipelineFailed

definition insertTimescale :: "bool \<Rightarrow> score \<Rightarrow> publisher \<Rightarrow> publisher" where
  "insertTimescale db_ok sc pub =
     (if db_ok then pub\<lparr>pub_rows := add_mset
        \<lparr>row_team_id = sc_submissionID sc, row_tps = sc_tps sc, row_p50 = sc_p50Ms sc, row_p90 = sc_p90Ms sc,
         row_p99 = sc_p99Ms sc, row_is_correct = (sc_verdict sc = VerdictCorrect)\<rparr> (pub_rows pub)\<rparr>
      else pub)"

definition pipe_exec :: "bool \<Rightarrow> bool \<Rightarrow> string \<Rightarrow> string \<Rightarrow> publisher \<Rightarrow> publisher" where
  "pipe_exec hset pubd sid payload pub =
     (let pub1 = (if hset then pub\<lparr>pub_state := gm_put sid payload (pub_state pub)\<rparr> else pub) in
      if pubd then pub1\<lparr>pub_updates := pub_updates pub1 @ [payload]\<rparr> else pub1)"

definition Publish ::
  "(json_fields \<Rightarrow> string) \<Rightarrow> bool \<Rightarrow> pipe_answer \<Rightarrow> score \<Rightarrow> publisher \<Rightarrow> publisher \<times> publish_error option" where
  "Publish text db_ok ans sc pub =
     (let pub1 = insertTimescale db_ok sc pub in
      case json_Marshal text (payload_fields (toPayload sc)) of
        None \<Rightarrow> (pub1, Some PayloadMarshal)
      | Some payload \<Rightarrow>
          (case ans of
             PipeDone \<Rightarrow> (pipe_exec True True (sc_submissionID sc) payload pub1, None)
           | PipeError hset pubd \<Rightarrow> (pipe_exec hset pubd (sc_submissionID sc) payload pub1, Some PipelineFailed)))"

datatype publisher_input = PubScore bool pipe_answer score | PubCtxDone | PubClosed

datatype publisher_end = PubRunning | PubReturned | PubCancelled | PubFailed publish_error

fun publisher_Run ::
  "(json_fields \<Rightarrow> string) \<Rightarrow> publisher_input list \<Rightarrow> publisher \<Rightarrow> publisher \<times> publisher_end" where
  "publisher_Run text [] pub = (pub, PubRunning)"
| "publisher_Run text (PubCtxDone # ins) pub = (pub, PubCancelled)"
| "publisher_Run text (PubClosed # ins) pub = (pub, PubReturned)"
| "publisher_Run text (PubScore db_ok ans sc # ins) pub =
     (case Publish text db_ok ans sc pub of
        (pub', Some e) \<Rightarrow> (pub', PubFailed e)
      | (pub', None) \<Rightarrow> publisher_Run text ins pub')"

definition publisher_start :: publisher where
  "publisher_start = \<lparr>pub_state = [], pub_updates = [], pub_rows = {#}\<rparr>"

section \<open>The aggregator's scores can be marshalled\<close>

definition finite_f64 :: "f64 \<Rightarrow> bool" where
  "finite_f64 x \<longleftrightarrow> json_supported (JFloat x)"

definition finite_score :: "score \<Rightarrow> bool" where
  "finite_score sc \<longleftrightarrow> finite_f64 (sc_p50Ms sc) \<and> finite_f64 (sc_p90Ms sc) \<and> finite_f64 (sc_p99Ms sc)"

definition finite_state :: "submission_state \<Rightarrow> bool" where
  "finite_state st \<longleftrightarrow> finite_f64 (ss_lastP50 st) \<and> finite_f64 (ss_lastP90 st) \<and> finite_f64 (ss_lastP99 st)"

definition finite_table :: "aggregator \<Rightarrow> bool" where
  "finite_table ag \<longleftrightarrow> (\<forall>sid st. gm_get (ag_states ag) sid = Some st \<longrightarrow> finite_state st)"

lemma rnd_finite:
  assumes "1 / 100 \<le> x" and "x \<le> 1000"
  shows "finite_f64 (rnd x)"
proof -
  have small: "pow2 (- 1022) \<le> 1 / 100" "(1000 :: rat) \<le> pow2 1000" by (simp_all add: pow2_def)
  have "\<bar>x\<bar> = x" using assms by simp
  with small assms have "pow2 (- 1022) \<le> \<bar>x\<bar>" "\<bar>x\<bar> \<le> pow2 1000" by linarith+
  then show ?thesis by (rule rnd_error) (simp add: finite_f64_def)
qed

lemma PercentileMs_finite: "finite_f64 (PercentileMs h p)"
proof -
  have all: "\<forall>x \<in> set BucketUpperBoundsMs. finite_f64 x"
    unfolding BucketUpperBoundsMs_def by (simp add: rnd_finite)
  have nth: "i < length BucketUpperBoundsMs \<Longrightarrow> finite_f64 (BucketUpperBoundsMs ! i)" for i using all nth_mem by blast
  have "0 < length BucketUpperBoundsMs" by (simp add: BucketUpperBoundsMs_def)
  with nth show ?thesis by (auto simp: PercentileMs_def Let_def finite_f64_def)
qed

lemma finite_table_set: "finite_table ag \<Longrightarrow> finite_state st \<Longrightarrow> finite_table (set_state sid st ag)"
  by (simp add: finite_table_def set_state_def)

lemma agg_state_finite:
  assumes "finite_table ag" and "agg_state now sid ag = (st, ag')"
  shows "finite_table ag' \<and> finite_state st"
proof (cases "gm_get (ag_states ag) sid")
  case None
  have "finite_state (new_submission_state now)" by (simp add: finite_state_def new_submission_state_def finite_f64_def)
  with None assms show ?thesis by (auto simp: agg_state_def Let_def finite_table_def split: if_splits)
next
  case (Some st')
  with assms show ?thesis by (auto simp: agg_state_def finite_table_def)
qed

lemma finite_state_update [simp]:
  "finite_state (st\<lparr>ss_http200Delta := x, ss_histogram := h\<rparr>) \<longleftrightarrow> finite_state st"
  "finite_state (st\<lparr>ss_verdict := v\<rparr>) \<longleftrightarrow> finite_state st"
  by (simp_all add: finite_state_def)

lemma AddBatch_finite: "finite_table ag \<Longrightarrow> finite_table (AddBatch now b ag)"
  using agg_state_finite[of ag now "mb_submissionID b"]
  by (cases "agg_state now (mb_submissionID b) ag") (simp add: AddBatch_def finite_table_set)

lemma ApplyCorrectness_finite: "finite_table ag \<Longrightarrow> finite_table (ApplyCorrectness now u ag)"
  using agg_state_finite[of ag now "cu_submissionID u"]
  by (cases "agg_state now (cu_submissionID u) ag") (simp add: ApplyCorrectness_def finite_table_set)

lemma scoreFor_finite: "finite_state st \<Longrightarrow> finite_score (scoreFor sid st)"
  by (simp add: finite_state_def finite_score_def scoreFor_def)

lemma emitVerdict_finite:
  assumes "emitVerdict c now sid ag out = (ag', out', e)" and "finite_table ag" and "\<forall>sc \<in> set out. finite_score sc"
  shows "finite_table ag' \<and> (\<forall>sc \<in> set out'. finite_score sc)"
proof -
  obtain st ag1 where st: "agg_state now sid ag = (st, ag1)" by (cases "agg_state now sid ag")
  then show ?thesis using agg_state_finite[OF assms(2) st] assms
    by (auto simp: emitVerdict_def agg_send_def chan_send_def scoreFor_finite split: if_splits)
qed

lemma flush_measure_finite: "finite_state (flush_measure now st)" "finite_state (flush_reset now (flush_measure now st))"
  by (simp_all add: finite_state_def flush_measure_def flush_reset_def PercentileMs_finite)

lemma flush_loop_finite:
  assumes "flush_loop c now ks ag out = (ag', out', e)" and "finite_table ag" and "\<forall>sc \<in> set out. finite_score sc"
  shows "finite_table ag' \<and> (\<forall>sc \<in> set out'. finite_score sc)"
  using assms
proof (induction ks arbitrary: ag out)
  case (Cons k ks)
  note run = Cons.prems(1) and fin = Cons.prems(2,3)
  show ?case
  proof (cases "gm_get (ag_states ag) k")
    case None
    with run have "flush_loop c now ks ag out = (ag', out', e)" by simp
    then show ?thesis by (rule Cons.IH[OF _ fin])
  next
    case st: (Some st)
    let ?st1 = "flush_measure now st"
    show ?thesis
    proof (cases "flush_idle st")
      case True
      with run st have "flush_loop c now ks ag out = (ag', out', e)" by simp
      then show ?thesis by (rule Cons.IH[OF _ fin])
    next
      case False
      show ?thesis
      proof (cases "agg_send c out (scoreFor k ?st1)")
        case None
        with run st False have "ag' = set_state k ?st1 ag" "out' = out" by (simp_all add: Let_def)
        with fin show ?thesis by (simp add: finite_table_set flush_measure_finite)
      next
        case (Some out1)
        then have "out1 = out @ [scoreFor k ?st1]" by (simp add: agg_send_def chan_send_def split: if_splits)
        with fin have "\<forall>sc \<in> set out1. finite_score sc" by (auto simp: flush_measure_finite scoreFor_finite)
        moreover have "flush_loop c now ks (set_state k (flush_reset now ?st1) ag) out1 = (ag', out', e)"
          using run st False Some by (simp add: Let_def)
        ultimately show ?thesis using Cons.IH finite_table_set[OF fin(1) flush_measure_finite(2)] by blast
      qed
    qed
  qed
qed simp

lemma agg_run_finite: "agg_run fi evs s \<Longrightarrow> finite_table (as_agg s) \<and> (\<forall>sc \<in> set (as_out s). finite_score sc)"
proof (induction rule: agg_run.induct)
  case start
  show ?case by (simp add: agg_start_def New_aggregator_def finite_table_def)
next
  case (step evs s ev s')
  from step(2) show ?case
  proof (cases rule: agg_step.cases)
    case (update m u cancel now' now)
    obtain ag' out' err where e: "emitVerdict cancel now' (cu_submissionID u) (ApplyCorrectness now u (as_agg s)) (as_out s) = (ag', out', err)"
      by (cases "emitVerdict cancel now' (cu_submissionID u) (ApplyCorrectness now u (as_agg s)) (as_out s)")
    with emitVerdict_finite[OF e] ApplyCorrectness_finite step.IH update show ?thesis by (simp add: agg_after_def)
  next
    case (tick m c rng cancel now)
    obtain ag' out' err where e: "flush_loop cancel now (rng (gm_keys (ag_states (as_agg s)))) (as_agg s) (as_out s) = (ag', out', err)"
      by (cases "flush_loop cancel now (rng (gm_keys (ag_states (as_agg s)))) (as_agg s) (as_out s)")
    with flush_loop_finite[OF e] step.IH tick show ?thesis by (simp add: agg_after_def agg_Flush_def)
  next
    case (final_flush rng cancel now)
    obtain ag' out' err where e: "flush_loop cancel now (rng (gm_keys (ag_states (as_agg s)))) (as_agg s) (as_out s) = (ag', out', err)"
      by (cases "flush_loop cancel now (rng (gm_keys (ag_states (as_agg s)))) (as_agg s) (as_out s)")
    with flush_loop_finite[OF e] step.IH final_flush show ?thesis by (simp add: agg_after_def agg_Flush_def)
  qed (use step.IH AddBatch_finite in simp_all)
qed

section \<open>What the leaderboard is told\<close>

definition payload_text :: "(json_fields \<Rightarrow> string) \<Rightarrow> score \<Rightarrow> string" where
  "payload_text text sc = text (payload_fields (toPayload sc))"

fun scores_of :: "publisher_input list \<Rightarrow> score list" where
  "scores_of (PubScore db_ok ans sc # ins) = sc # scores_of ins"
| "scores_of (_ # ins) = scores_of ins"
| "scores_of [] = []"

fun redis_works :: "publisher_input \<Rightarrow> bool" where
  "redis_works (PubScore db_ok ans sc) \<longleftrightarrow> ans = PipeDone"
| "redis_works _ \<longleftrightarrow> False"

lemma payload_marshals:
  "finite_score sc \<Longrightarrow> json_Marshal text (payload_fields (toPayload sc)) = Some (payload_text text sc)"
  by (simp add: json_Marshal_def payload_fields_def toPayload_def payload_text_def finite_score_def finite_f64_def Let_def)

lemma insertTimescale_fields [simp]:
  "pub_state (insertTimescale db_ok sc pub) = pub_state pub" "pub_updates (insertTimescale db_ok sc pub) = pub_updates pub"
  by (simp_all add: insertTimescale_def)

text \<open>The texts in Redis all are payloads of scores, each under the id of its submission.\<close>

definition told :: "(json_fields \<Rightarrow> string) \<Rightarrow> score set \<Rightarrow> publisher \<Rightarrow> bool" where
  "told text scs pub \<longleftrightarrow> set (pub_updates pub) \<subseteq> payload_text text ` scs \<and>
     (\<forall>sid x. gm_get (pub_state pub) sid = Some x \<longrightarrow> (\<exists>sc \<in> scs. sc_submissionID sc = sid \<and> x = payload_text text sc))"

lemma Publish_told:
  assumes "Publish text db_ok ans sc pub = (pub', e)" and "finite_score sc" and "sc \<in> scs" and "told text scs pub"
  shows "told text scs pub' \<and> e \<noteq> Some PayloadMarshal"
  using assms by (cases ans)
    (auto simp: Publish_def payload_marshals Let_def pipe_exec_def told_def split: if_splits)

lemma publisher_Run_told:
  assumes "publisher_Run text ins pub = (pub', e)" and "\<forall>sc \<in> set (scores_of ins). finite_score sc"
    and "set (scores_of ins) \<subseteq> scs" and "told text scs pub"
  shows "told text scs pub' \<and> e \<noteq> PubFailed PayloadMarshal"
  using assms
proof (induction ins arbitrary: pub)
  case (Cons i ins)
  show ?case
  proof (cases i)
    case (PubScore db_ok ans sc)
    obtain pub1 x where p: "Publish text db_ok ans sc pub = (pub1, x)" by (cases "Publish text db_ok ans sc pub")
    have "told text scs pub1 \<and> x \<noteq> Some PayloadMarshal"
      by (rule Publish_told[OF p]) (use Cons.prems PubScore in simp_all)
    with Cons p PubScore show ?thesis by (cases x) auto
  qed (use Cons.prems in auto)
qed simp

lemma publisher_Run_works:
  assumes "list_all redis_works ins" and "\<forall>sc \<in> set (scores_of ins). finite_score sc"
  shows "\<exists>pub'. publisher_Run text ins pub = (pub', PubRunning) \<and>
    pub_updates pub' = pub_updates pub @ map (payload_text text) (scores_of ins) \<and>
    (\<forall>sid. gm_get (pub_state pub') sid =
       (if filter (\<lambda>sc. sc_submissionID sc = sid) (scores_of ins) = [] then gm_get (pub_state pub) sid
        else Some (payload_text text (last (filter (\<lambda>sc. sc_submissionID sc = sid) (scores_of ins))))))"
  using assms
proof (induction ins arbitrary: pub)
  case (Cons i ins)
  then obtain db_ok sc where i: "i = PubScore db_ok PipeDone sc" by (cases i) auto
  let ?pub1 = "pipe_exec True True (sc_submissionID sc) (payload_text text sc) (insertTimescale db_ok sc pub)"
  have "Publish text db_ok PipeDone sc pub = (?pub1, None)"
    using Cons.prems(2) i by (simp add: Publish_def payload_marshals Let_def)
  moreover obtain pub' where "publisher_Run text ins ?pub1 = (pub', PubRunning)"
    "pub_updates pub' = pub_updates ?pub1 @ map (payload_text text) (scores_of ins)"
    "\<forall>sid. gm_get (pub_state pub') sid =
       (if filter (\<lambda>sc. sc_submissionID sc = sid) (scores_of ins) = [] then gm_get (pub_state ?pub1) sid
        else Some (payload_text text (last (filter (\<lambda>sc. sc_submissionID sc = sid) (scores_of ins)))))"
    using Cons.IH[of ?pub1] Cons.prems i by auto
  ultimately show ?case using i by (intro exI[of _ pub']) (auto simp: pipe_exec_def Let_def)
qed simp

lemma payload_verdict:
  "lp_Status (toPayload sc) = verdict_str (if sc_verdict sc = VerdictZero then VerdictUnverified else sc_verdict sc)"
  "lp_Correct (toPayload sc) \<longleftrightarrow> sc_verdict sc = VerdictCorrect" "lp_IsCorrect (toPayload sc) \<longleftrightarrow> sc_verdict sc = VerdictCorrect"
  "lp_SubmissionID (toPayload sc) = sc_submissionID sc"
  by (simp_all add: toPayload_def Let_def)

text \<open>
  C18. No false green on the leaderboard: for every run of the aggregator and any behaviour of Redis and
  the database, each text that the publisher stores or broadcasts is the payload of one of the
  aggregator's scores, stored under its submission; it is never refused by \<open>json.Marshal\<close>; its status is
  correct, incorrect or unverified, never empty; and when it says correct, in the status or in either of
  the legacy booleans, the replay engine has judged that very submission Correct.
\<close>

theorem no_false_green:
  assumes "agg_run flushInterval evs s" and "publisher_Run text ins publisher_start = (pub, e)"
    and "set (scores_of ins) \<subseteq> set (as_out s)"
  shows "told text (set (as_out s)) pub \<and> e \<noteq> PubFailed PayloadMarshal \<and>
    (\<forall>sc \<in> set (as_out s). let p = toPayload sc in
       lp_Status p \<in> {''correct'', ''incorrect'', ''unverified''} \<and>
       (lp_Correct p \<longleftrightarrow> lp_Status p = ''correct'') \<and> (lp_IsCorrect p \<longleftrightarrow> lp_Correct p) \<and>
       (lp_Correct p \<longrightarrow> (\<exists>u. AgUpdate u \<in> set evs \<and> cu_submissionID u = lp_SubmissionID p \<and> cu_verdict u = VerdictCorrect)))"
proof -
  have fin: "\<forall>sc \<in> set (as_out s). finite_score sc" using agg_run_finite[OF assms(1)] by blast
  have "told text (set (as_out s)) publisher_start" by (simp add: told_def publisher_start_def)
  with publisher_Run_told[OF assms(2) _ assms(3)] fin assms(3)
  have "told text (set (as_out s)) pub \<and> e \<noteq> PubFailed PayloadMarshal" by blast
  moreover have "\<exists>u. AgUpdate u \<in> set evs \<and> cu_submissionID u = sc_submissionID sc \<and> cu_verdict u = VerdictCorrect"
    if "sc \<in> set (as_out s)" "sc_verdict sc = VerdictCorrect" for sc
    using agg_verdict_known[OF assms(1) that(1)] that(2) by auto
  ultimately show ?thesis
    by (auto simp: payload_verdict verdict_str_def Let_def split: verdict.splits)
qed

text \<open>
  The leaderboard shows the latest score: while Redis works, publishing goes on, every score is
  broadcast once and in order, and the stored entry of a submission is the payload of its last score,
  whatever happens to the inserts into the database.
\<close>

theorem leaderboard_latest:
  assumes "agg_run flushInterval evs s" and "scores_of ins = as_out s" and "list_all redis_works ins"
  shows "\<exists>pub. publisher_Run text ins publisher_start = (pub, PubRunning) \<and>
    pub_updates pub = map (payload_text text) (as_out s) \<and>
    (\<forall>sid. gm_get (pub_state pub) sid =
       (if filter (\<lambda>sc. sc_submissionID sc = sid) (as_out s) = [] then None
        else Some (payload_text text (last (filter (\<lambda>sc. sc_submissionID sc = sid) (as_out s))))))"
proof -
  have start: "gm_get (pub_state publisher_start) sid = None" "pub_updates publisher_start = []" for sid
    by (simp_all add: publisher_start_def)
  have "\<forall>sc \<in> set (scores_of ins). finite_score sc" using agg_run_finite[OF assms(1)] assms(2) by simp
  from publisher_Run_works[OF assms(3) this, of "text" publisher_start] show ?thesis
    unfolding start assms(2) append_Nil .
qed

definition sample_publish :: "publisher_input list" where
  "sample_publish = [PubScore False PipeDone (as_out sample_scored ! 0)]"

theorem no_false_green_witness:
  "\<exists>pub e. publisher_Run unary_text sample_publish publisher_start = (pub, e) \<and> told unary_text {as_out sample_scored ! 0} pub"
proof -
  obtain pub e where p: "publisher_Run unary_text sample_publish publisher_start = (pub, e)"
    by (cases "publisher_Run unary_text sample_publish publisher_start")
  have out: "set (as_out sample_scored) = {as_out sample_scored ! 0}" by (simp add: sample_scored_def)
  have "set (scores_of sample_publish) \<subseteq> set (as_out sample_scored)" unfolding out by (simp add: sample_publish_def)
  from no_false_green[OF sample_agg_run p this] have "told unary_text (set (as_out sample_scored)) pub" by simp
  with p show ?thesis unfolding out by blast
qed

theorem leaderboard_latest_witness:
  "\<exists>pub. publisher_Run unary_text sample_publish publisher_start = (pub, PubRunning) \<and> length (pub_updates pub) = 1"
proof -
  have out: "as_out sample_scored = [as_out sample_scored ! 0]" by (simp add: sample_scored_def)
  then have "scores_of sample_publish = as_out sample_scored" unfolding sample_publish_def by simp
  from leaderboard_latest[OF sample_agg_run this, of unary_text] show ?thesis
    by (auto simp: sample_publish_def sample_scored_def)
qed

end
