(* ===== verification/Archive.thy ===== *)
theory Archive
  imports GoStrings "HOL-Library.Sublist"
begin

text \<open>
  The archive extraction of the sandbox manager (\<open>sandbox-manager/internal/archive/archive.go\<close>): the
  checks on names, sizes and counts, the loops over zip and tar entries, and the files they leave on
  disk, also when they stop with an error. \<open>path/filepath\<close> is modelled as it is on Unix. What the
  packages \<open>archive/zip\<close>, \<open>archive/tar\<close> and \<open>compress/gzip\<close> read from a file, and whether the operating
  system can create and write a file, are parameters. The theorems say that no file is ever placed
  outside the extraction directory and that count and sizes of the files are bounded.
\<close>

section \<open>Paths\<close>

abbreviation slash :: char where
  "slash \<equiv> CHR ''/''"

fun path_join :: "string list \<Rightarrow> string" where
  "path_join [] = []"
| "path_join [w] = w"
| "path_join (w # ws) = w @ slash # path_join ws"

definition filepath_IsAbs :: "string \<Rightarrow> bool" where
  "filepath_IsAbs s \<longleftrightarrow> has_prefix s [slash]"

text \<open>
  \<open>filepath.Clean\<close>: empty components and \<open>.\<close> disappear, \<open>..\<close> removes the component before it, and
  disappears itself at the root. The components kept so far are a stack, the last one on top.
\<close>

definition clean_step :: "bool \<Rightarrow> string \<Rightarrow> string list \<Rightarrow> string list" where
  "clean_step rooted c stack =
     (if c = [] \<or> c = ''.'' then stack
      else if c = ''..'' then
        (case stack of
           [] \<Rightarrow> if rooted then [] else [c]
         | t # rest \<Rightarrow> if t = ''..'' then c # stack else rest)
      else c # stack)"

definition clean_comps :: "string \<Rightarrow> string list" where
  "clean_comps s = rev (fold (clean_step (filepath_IsAbs s)) (str_split slash s) [])"

definition path_string :: "bool \<Rightarrow> string list \<Rightarrow> string" where
  "path_string rooted cs =
     (if rooted then slash # path_join cs else if cs = [] then ''.'' else path_join cs)"

definition filepath_Clean :: "string \<Rightarrow> string" where
  "filepath_Clean s = path_string (filepath_IsAbs s) (clean_comps s)"

definition filepath_Join :: "string \<Rightarrow> string \<Rightarrow> string" where
  "filepath_Join a b =
     (if a \<noteq> [] then filepath_Clean (a @ slash # b) else if b \<noteq> [] then filepath_Clean b else [])"

text \<open>\<open>filepath.Abs\<close>; \<open>cwd\<close> is the result of \<open>os.Getwd\<close>, \<open>None\<close> when it fails.\<close>

definition filepath_Abs :: "string option \<Rightarrow> string \<Rightarrow> string option" where
  "filepath_Abs cwd s =
     (if filepath_IsAbs s then Some (filepath_Clean s)
      else case cwd of None \<Rightarrow> None | Some d \<Rightarrow> Some (filepath_Join d s))"

section \<open>Extraction\<close>

record limits =
  lim_MaxTotalBytes :: int
  lim_MaxFileSizeBytes :: int
  lim_MaxFileCount :: int

datatype archive_error =
    AbsolutePath string | PathTraversal string | PathEscapes string | GetwdFailed
  | SymlinkEntry string | FileTooLarge string | TotalTooLarge | TooManyFiles
  | MkdirFailed string | CreateFailed string | WriteFailed string | EntryOpenFailed string
  | OpenFailed | SeekFailed | TarInvalid | TarUnsupported string

text \<open>What the operating system answers when a file is placed at a path.\<close>

datatype os_answer = NoDirectory | NoFile | DiskFullAfter nat | PathUsable

record extract_env =
  env_cwd :: "string option"
  env_os :: "string \<Rightarrow> os_answer"

text \<open>
  The reader of an entry yields \<open>rd_bytes\<close> and then ends, or fails when \<open>rd_fails\<close>. \<open>FileInfo\<close> and
  \<open>Mode\<close> of a zip entry, which the library derives from the entry's external attributes, are two flags.
\<close>

record entry_reader =
  rd_bytes :: string
  rd_fails :: bool

record zip_entry =
  ze_Name :: string
  ze_IsDir :: bool
  ze_symlink :: bool
  ze_UncompressedSize64 :: int
  ze_reader :: "entry_reader option"

record tar_header =
  th_Typeflag :: char
  th_Name :: string
  th_Size :: int
  th_reader :: entry_reader

datatype tar_item = TarEntry tar_header | TarError

text \<open>The files on disk, with the local variables \<open>totalBytes\<close> and \<open>fileCount\<close>.\<close>

record extraction =
  ex_files :: "(string, string) gomap"
  ex_totalBytes :: int
  ex_fileCount :: int

definition validatePath :: "string \<Rightarrow> archive_error option" where
  "validatePath name =
     (if filepath_IsAbs name then Some (AbsolutePath name)
      else if has_prefix (filepath_Clean name) ''..'' then Some (PathTraversal name)
      else None)"

definition safeJoin :: "string option \<Rightarrow> string \<Rightarrow> string \<Rightarrow> archive_error + string" where
  "safeJoin cwd base name =
     (let dest = filepath_Join base (filepath_Clean name) in
      case filepath_Abs cwd base of
        None \<Rightarrow> Inl GetwdFailed
      | Some absBase \<Rightarrow>
          (case filepath_Abs cwd dest of
             None \<Rightarrow> Inl GetwdFailed
           | Some absDest \<Rightarrow>
               if \<not> has_prefix absDest (absBase @ [slash]) then Inl (PathEscapes name) else Inr dest))"

text \<open>
  \<open>writeFile\<close>: \<open>os.Create\<close> truncates; \<open>io.Copy\<close> from a \<open>LimitReader\<close> of \<open>maxBytes + 1\<close> bytes. A reader
  that fails is only noticed when the limit has not been reached before.
\<close>

definition writeFile ::
  "os_answer \<Rightarrow> string \<Rightarrow> entry_reader \<Rightarrow> int \<Rightarrow> (string, string) gomap \<Rightarrow>
     (string, string) gomap \<times> archive_error option" where
  "writeFile os destPath r maxBytes files =
     (let n = nat (i64 (maxBytes + 1)); data = take n (rd_bytes r);
          failed = (if rd_fails r \<and> length (rd_bytes r) < n then Some (WriteFailed destPath) else None) in
      case os of
        DiskFullAfter k \<Rightarrow>
          if k < length data then (gm_put destPath (take k data) files, Some (WriteFailed destPath))
          else (gm_put destPath data files, failed)
      | PathUsable \<Rightarrow> (gm_put destPath data files, failed)
      | _ \<Rightarrow> (files, Some (CreateFailed destPath)))"

text \<open>\<open>MkdirAll\<close> of the parent, then \<open>writeFile\<close>; an entry that cannot be opened is never written.\<close>

definition place_file ::
  "extract_env \<Rightarrow> limits \<Rightarrow> string \<Rightarrow> string \<Rightarrow> entry_reader option \<Rightarrow> extraction \<Rightarrow>
     extraction \<times> archive_error option" where
  "place_file env l name destPath rd st =
     (if env_os env destPath = NoDirectory then (st, Some (MkdirFailed destPath))
      else case rd of
        None \<Rightarrow> (st, Some (EntryOpenFailed name))
      | Some r \<Rightarrow>
          (case writeFile (env_os env destPath) destPath r (lim_MaxFileSizeBytes l) (ex_files st) of
             (files, e) \<Rightarrow> (st\<lparr>ex_files := files\<rparr>, e)))"

text \<open>
  What both loops do with an entry that has passed its own checks: add to the total, count, find the
  place, write. \<open>declared\<close> is the increment of \<open>totalBytes\<close>.
\<close>

definition admit_entry ::
  "extract_env \<Rightarrow> string \<Rightarrow> limits \<Rightarrow> string \<Rightarrow> int \<Rightarrow> entry_reader option \<Rightarrow> extraction \<Rightarrow>
     extraction \<times> archive_error option" where
  "admit_entry env destDir l name declared rd st =
     (let st1 = st\<lparr>ex_totalBytes := i64 (ex_totalBytes st + declared)\<rparr> in
      if ex_totalBytes st1 > lim_MaxTotalBytes l then (st1, Some TotalTooLarge)
      else
        let st2 = st1\<lparr>ex_fileCount := i64 (ex_fileCount st1 + 1)\<rparr> in
        if ex_fileCount st2 > lim_MaxFileCount l then (st2, Some TooManyFiles)
        else case safeJoin (env_cwd env) destDir name of
          Inl e \<Rightarrow> (st2, Some e)
        | Inr destPath \<Rightarrow> place_file env l name destPath rd st2)"

definition zip_entry_step ::
  "extract_env \<Rightarrow> string \<Rightarrow> limits \<Rightarrow> zip_entry \<Rightarrow> extraction \<Rightarrow> extraction \<times> archive_error option" where
  "zip_entry_step env destDir l f st =
     (if ze_IsDir f then (st, None)
      else case validatePath (ze_Name f) of
        Some e \<Rightarrow> (st, Some e)
      | None \<Rightarrow>
        if ze_symlink f then (st, Some (SymlinkEntry (ze_Name f)))
        else if ze_UncompressedSize64 f > u64 (lim_MaxFileSizeBytes l) then (st, Some (FileTooLarge (ze_Name f)))
        else admit_entry env destDir l (ze_Name f) (i64 (ze_UncompressedSize64 f)) (ze_reader f) st)"

definition tar_header_step ::
  "extract_env \<Rightarrow> string \<Rightarrow> limits \<Rightarrow> tar_header \<Rightarrow> extraction \<Rightarrow> extraction \<times> archive_error option" where
  "tar_header_step env destDir l hdr st =
     (if th_Typeflag hdr = CHR ''5'' then (st, None)
      else if th_Typeflag hdr \<noteq> CHR ''0'' \<and> th_Typeflag hdr \<noteq> CHR 0x00
      then (st, Some (TarUnsupported (th_Name hdr)))
      else case validatePath (th_Name hdr) of
        Some e \<Rightarrow> (st, Some e)
      | None \<Rightarrow>
        if th_Size hdr > lim_MaxFileSizeBytes l then (st, Some (FileTooLarge (th_Name hdr)))
        else admit_entry env destDir l (th_Name hdr) (th_Size hdr) (Some (th_reader hdr)) st)"

definition tar_item_step ::
  "extract_env \<Rightarrow> string \<Rightarrow> limits \<Rightarrow> tar_item \<Rightarrow> extraction \<Rightarrow> extraction \<times> archive_error option" where
  "tar_item_step env destDir l item st =
     (case item of TarError \<Rightarrow> (st, Some TarInvalid) | TarEntry hdr \<Rightarrow> tar_header_step env destDir l hdr st)"

text \<open>Both loops stop at the first error and leave on disk what they have written before.\<close>

fun entries_loop :: "('e \<Rightarrow> 's \<Rightarrow> 's \<times> 'x option) \<Rightarrow> 'e list \<Rightarrow> 's \<Rightarrow> 's \<times> 'x option" where
  "entries_loop step [] st = (st, None)"
| "entries_loop step (e # es) st =
     (case step e st of (st', None) \<Rightarrow> entries_loop step es st' | (st', Some x) \<Rightarrow> (st', Some x))"

definition extraction_start :: extraction where
  "extraction_start = \<lparr>ex_files = [], ex_totalBytes = 0, ex_fileCount = 0\<rparr>"

definition extractZip ::
  "extract_env \<Rightarrow> zip_entry list option \<Rightarrow> string \<Rightarrow> limits \<Rightarrow> extraction \<times> archive_error option" where
  "extractZip env zr destDir l =
     (case zr of
        None \<Rightarrow> (extraction_start, Some OpenFailed)
      | Some entries \<Rightarrow> entries_loop (zip_entry_step env destDir l) entries extraction_start)"

text \<open>What the libraries read from the bytes of an archive; \<open>lib_tar True\<close> reads through gzip.\<close>

record archive_libs =
  lib_zip :: "string \<Rightarrow> zip_entry list option"
  lib_gzip :: "string \<Rightarrow> bool"
  lib_tar :: "bool \<Rightarrow> string \<Rightarrow> tar_item list"
  lib_seeks :: bool

definition extractTar ::
  "extract_env \<Rightarrow> archive_libs \<Rightarrow> string option \<Rightarrow> string \<Rightarrow> limits \<Rightarrow> extraction \<times> archive_error option" where
  "extractTar env libs archive destDir l =
     (case archive of
        None \<Rightarrow> (extraction_start, Some OpenFailed)
      | Some bytes \<Rightarrow>
          if \<not> lib_gzip libs bytes \<and> \<not> lib_seeks libs then (extraction_start, Some SeekFailed)
          else entries_loop (tar_item_step env destDir l) (lib_tar libs (lib_gzip libs bytes) bytes) extraction_start)"

definition isZip :: "string option \<Rightarrow> bool" where
  "isZip archive = (case archive of None \<Rightarrow> False | Some bytes \<Rightarrow> has_prefix bytes [CHR 0x50, CHR 0x4B, CHR 0x03, CHR 0x04])"

definition Extract ::
  "extract_env \<Rightarrow> archive_libs \<Rightarrow> string option \<Rightarrow> string \<Rightarrow> limits \<Rightarrow> extraction \<times> archive_error option" where
  "Extract env libs archive destDir l =
     (if isZip archive then extractZip env (Option.bind archive (lib_zip libs)) destDir l
      else extractTar env libs archive destDir l)"

section \<open>Clean paths\<close>

definition plain :: "string \<Rightarrow> bool" where
  "plain c \<longleftrightarrow> c \<noteq> [] \<and> c \<noteq> ''.'' \<and> slash \<notin> set c"

lemma clean_step_set: "set (clean_step rooted c stack) \<subseteq> insert c (set stack)"
  by (cases stack) (auto simp: clean_step_def)

lemma clean_step_plain:
  assumes "slash \<notin> set c" and "\<forall>x \<in> set stack. plain x"
  shows "\<forall>x \<in> set (clean_step rooted c stack). plain x"
proof (cases "plain c")
  case True
  with assms(2) clean_step_set show ?thesis by blast
next
  case False
  with assms have "clean_step rooted c stack = stack" unfolding plain_def clean_step_def by argo
  with assms(2) show ?thesis by simp
qed

lemma clean_step_rooted: "''..'' \<notin> set stack \<Longrightarrow> ''..'' \<notin> set (clean_step True c stack)"
  by (cases "c = ''..''"; cases stack) (simp_all add: clean_step_def eq_commute[of "''..''"])

lemma clean_comps_plain: "c \<in> set (clean_comps s) \<Longrightarrow> plain c"
proof -
  have "\<forall>x \<in> set (fold (clean_step r) ws stack). plain x"
    if "\<forall>w \<in> set ws. slash \<notin> set w" "\<forall>x \<in> set stack. plain x" for r ws stack
    using that
  proof (induction ws arbitrary: stack)
    case (Cons w ws)
    show ?case unfolding fold_simps by (rule Cons.IH) (use Cons.prems clean_step_plain in auto)
  qed simp
  then show "c \<in> set (clean_comps s) \<Longrightarrow> plain c"
    using str_split_free unfolding clean_comps_def set_rev by (metis empty_iff list.set(1))
qed

lemma clean_comps_rooted: "filepath_IsAbs s \<Longrightarrow> ''..'' \<notin> set (clean_comps s)"
proof -
  have "''..'' \<notin> set (fold (clean_step True) ws stack)" if "''..'' \<notin> set stack" for ws stack
    using that by (induction ws arbitrary: stack) (simp_all add: clean_step_rooted)
  then show "filepath_IsAbs s \<Longrightarrow> ''..'' \<notin> set (clean_comps s)" by (simp add: clean_comps_def)
qed

section \<open>One path below another\<close>

abbreviation rooted_path :: "string list \<Rightarrow> string" where
  "rooted_path cs \<equiv> concat (map ((#) slash) cs)"

lemma rooted_path_string: "cs \<noteq> [] \<Longrightarrow> path_string True cs = rooted_path cs"
proof -
  have "cs \<noteq> [] \<Longrightarrow> slash # path_join cs = rooted_path cs" by (induction cs rule: path_join.induct) simp_all
  then show "cs \<noteq> [] \<Longrightarrow> path_string True cs = rooted_path cs" by (simp add: path_string_def)
qed

lemma has_prefix_iff: "has_prefix s p \<longleftrightarrow> prefix p s"
  by (auto simp: has_prefix_def prefix_def) (metis append_take_drop_id)

lemma first_component:
  assumes "slash \<notin> set d" and "xs = [] \<or> hd xs = slash"
  shows "takeWhile (\<lambda>c. c \<noteq> slash) (d @ xs) = d"
  using assms by (cases xs) (auto simp: takeWhile_append)

lemma rooted_prefix:
  assumes "prefix (rooted_path bs @ [slash]) (rooted_path ds)"
    and "\<forall>b \<in> set bs. plain b" and "\<forall>d \<in> set ds. plain d"
  shows "\<exists>rest. ds = bs @ rest \<and> rest \<noteq> []"
  using assms
proof (induction bs arbitrary: ds)
  case Nil
  then show ?case by (cases ds) auto
next
  case (Cons b bs)
  from Cons.prems(1) obtain d ds' where ds: "ds = d # ds'" by (cases ds) auto
  obtain tl where tl: "d @ rooted_path ds' = b @ (rooted_path bs @ [slash] @ tl)"
    using Cons.prems(1) by (auto simp: ds prefix_def)
  have starts: "rooted_path xs = [] \<or> hd (rooted_path xs) = slash" for xs by (cases xs) auto
  have "takeWhile (\<lambda>c. c \<noteq> slash) (d @ rooted_path ds') = d"
    by (rule first_component) (use Cons.prems(3) ds starts in \<open>auto simp: plain_def\<close>)
  moreover have "takeWhile (\<lambda>c. c \<noteq> slash) (b @ (rooted_path bs @ [slash] @ tl)) = b"
    by (rule first_component) (use Cons.prems(2) starts[of bs] in \<open>auto simp: plain_def hd_append\<close>)
  ultimately have bd: "d = b" using tl by simp
  with tl have "prefix (rooted_path bs @ [slash]) (rooted_path ds')" by (auto simp: prefix_def)
  then obtain rest where "ds' = bs @ rest \<and> rest \<noteq> []" using Cons.IH Cons.prems(2,3) ds by auto
  with ds bd show ?case by simp
qed

lemma path_string_prefix:
  assumes "has_prefix (path_string True ds) (path_string True bs @ [slash])"
    and "\<forall>b \<in> set bs. plain b" and "\<forall>d \<in> set ds. plain d"
  shows "\<exists>rest. ds = bs @ rest \<and> rest \<noteq> []"
proof (cases "bs = []")
  case True
  with assms(1) have "prefix [slash] (path_join ds)" by (simp add: has_prefix_iff path_string_def)
  then obtain d ds' where "ds = d # ds'" "hd (path_join ds) = slash" by (cases ds) (auto simp: prefix_def)
  then have False using assms(3) by (cases ds'; cases d) (auto simp: plain_def)
  then show ?thesis ..
next
  case bs: False
  show ?thesis
  proof (cases "ds = []")
    case True
    with assms(1) bs have "length (rooted_path bs @ [slash]) \<le> 1"
      by (auto simp: has_prefix_iff rooted_path_string path_string_def dest: prefix_length_le)
    with bs show ?thesis by (cases bs) simp_all
  next
    case False
    with bs assms show ?thesis by (intro rooted_prefix) (simp_all add: has_prefix_iff rooted_path_string)
  qed
qed

text \<open>The absolute position of a path: the components below the root.\<close>

definition location :: "string option \<Rightarrow> string \<Rightarrow> string list" where
  "location cwd s = clean_comps (if filepath_IsAbs s then s else the cwd @ slash # s)"

lemma filepath_Abs_location:
  assumes "filepath_Abs cwd s = Some a" and "\<forall>d. cwd = Some d \<longrightarrow> filepath_IsAbs d"
  shows "a = path_string True (location cwd s)" and "''..'' \<notin> set (location cwd s)"
proof -
  have "a = path_string True (location cwd s) \<and> ''..'' \<notin> set (location cwd s)"
  proof (cases "filepath_IsAbs s")
    case True
    with assms(1) show ?thesis
      by (simp add: filepath_Abs_def filepath_Clean_def location_def clean_comps_rooted)
  next
    case False
    with assms obtain d where d: "cwd = Some d" "filepath_IsAbs d" "a = filepath_Join d s"
      by (auto simp: filepath_Abs_def split: option.splits)
    then have "d \<noteq> []" "filepath_IsAbs (d @ slash # s)" by (auto simp: filepath_IsAbs_def has_prefix_iff prefix_def)
    with d False show ?thesis
      by (simp add: location_def filepath_Join_def filepath_Clean_def clean_comps_rooted)
  qed
  then show "a = path_string True (location cwd s)" and "''..'' \<notin> set (location cwd s)" by auto
qed

definition strictly_below :: "string option \<Rightarrow> string \<Rightarrow> string \<Rightarrow> bool" where
  "strictly_below cwd base p \<longleftrightarrow>
     (\<exists>rest. location cwd p = location cwd base @ rest \<and> rest \<noteq> [] \<and> ''..'' \<notin> set rest)"

lemma safeJoin_below:
  assumes "safeJoin cwd base name = Inr dest" and "\<forall>d. cwd = Some d \<longrightarrow> filepath_IsAbs d"
  shows "strictly_below cwd base dest"
proof -
  obtain absBase absDest where abs: "filepath_Abs cwd base = Some absBase" "filepath_Abs cwd dest = Some absDest"
    "has_prefix absDest (absBase @ [slash])"
    using assms(1) by (auto simp: safeJoin_def Let_def split: option.splits if_splits)
  note base = filepath_Abs_location[OF abs(1) assms(2)] and dest = filepath_Abs_location[OF abs(2) assms(2)]
  have "plain c" if "c \<in> set (location cwd p)" for c p
    using that clean_comps_plain unfolding location_def by blast
  with abs(3) base(1) dest(1) obtain rest where "location cwd dest = location cwd base @ rest" "rest \<noteq> []"
    using path_string_prefix by blast
  with dest(2) show ?thesis by (auto simp: strictly_below_def)
qed

section \<open>What an extraction leaves on disk\<close>

text \<open>
  The invariant of both loops: the files are below the destination, there are at most \<open>fileCount\<close> of
  them, and \<open>fileCount\<close> only exceeds its limit by the increment that the guard after it reports.
\<close>

definition files_ok :: "string option \<Rightarrow> string \<Rightarrow> limits \<Rightarrow> (string, string) gomap \<Rightarrow> bool" where
  "files_ok cwd destDir l files \<longleftrightarrow>
     (\<forall>(p, content) \<in> set files.
        strictly_below cwd destDir p \<and> int (length content) \<le> lim_MaxFileSizeBytes l + 1)"

definition extract_inv :: "string option \<Rightarrow> string \<Rightarrow> limits \<Rightarrow> extraction \<Rightarrow> bool" where
  "extract_inv cwd destDir l st \<longleftrightarrow>
     files_ok cwd destDir l (ex_files st) \<and> gm_wf (ex_files st) \<and>
     int (length (ex_files st)) \<le> ex_fileCount st \<and> ex_fileCount st \<le> lim_MaxFileCount l"

definition sane_limits :: "limits \<Rightarrow> bool" where
  "sane_limits l \<longleftrightarrow> 0 \<le> lim_MaxFileSizeBytes l \<and> lim_MaxFileSizeBytes l < 2 ^ 63 - 1 \<and>
     0 \<le> lim_MaxFileCount l \<and> lim_MaxFileCount l < 2 ^ 63 - 1"

definition sane_cwd :: "string option \<Rightarrow> bool" where
  "sane_cwd cwd \<longleftrightarrow> (\<forall>d. cwd = Some d \<longrightarrow> filepath_IsAbs d)"

text \<open>What a loop may end with: an error may come after the increment.\<close>

definition extract_result :: "string option \<Rightarrow> string \<Rightarrow> limits \<Rightarrow> extraction \<Rightarrow> bool" where
  "extract_result cwd destDir l st \<longleftrightarrow>
     files_ok cwd destDir l (ex_files st) \<and> gm_wf (ex_files st) \<and> int (length (ex_files st)) \<le> lim_MaxFileCount l"

lemma extract_inv_result: "extract_inv cwd destDir l st \<Longrightarrow> extract_result cwd destDir l st"
  by (auto simp: extract_inv_def extract_result_def)

lemma gm_put_set: "gm_wf m \<Longrightarrow> set (gm_put k v m) \<subseteq> insert (k, v) (set m)"
  by (induction m) (auto simp: gm_put_def gm_wf_def)

lemma gm_put_length: "length (gm_put k v m) \<le> Suc (length m)"
  by (induction m) (auto simp: gm_put_def)

lemma writeFile_cases:
  assumes "writeFile os destPath r maxBytes files = (files', e)" and "0 \<le> maxBytes" and "maxBytes < 2 ^ 63 - 1"
  obtains "files' = files"
  | content where "files' = gm_put destPath content files" "int (length content) \<le> maxBytes + 1"
proof -
  let ?data = "take (nat (i64 (maxBytes + 1))) (rd_bytes r)"
  have "i64 (maxBytes + 1) = maxBytes + 1" by (rule i64_id) (use assms in \<open>simp add: in_i64_def\<close>)
  then have short: "int (length ?data) \<le> maxBytes + 1" "int (length (take k ?data)) \<le> maxBytes + 1" for k
    using assms(2) by simp_all
  have "files' = files \<or> files' = gm_put destPath ?data files \<or> (\<exists>k. files' = gm_put destPath (take k ?data) files)"
  proof (cases os)
    case (DiskFullAfter k)
    with assms(1) have "files' = (if k < length ?data then gm_put destPath (take k ?data) files else gm_put destPath ?data files)"
      by (simp only: writeFile_def Let_def os_answer.case split: if_splits) (metis prod.inject)+
    then show ?thesis by metis
  qed (use assms(1) in \<open>simp_all add: writeFile_def Let_def\<close>)
  with short that show ?thesis by blast
qed

lemma place_file_inv:
  assumes "place_file env l name destPath rd st = (st', e)" and "sane_limits l"
    and "files_ok cwd destDir l (ex_files st)" and "gm_wf (ex_files st)"
    and "int (length (ex_files st)) < ex_fileCount st" and "ex_fileCount st \<le> lim_MaxFileCount l"
    and "strictly_below cwd destDir destPath"
  shows "extract_inv cwd destDir l st'"
proof -
  have kept: "extract_inv cwd destDir l st" using assms(3-6) by (simp add: extract_inv_def)
  consider "st' = st"
    | files r where "writeFile (env_os env destPath) destPath r (lim_MaxFileSizeBytes l) (ex_files st) = (files, e)"
        "st' = st\<lparr>ex_files := files\<rparr>"
  proof (cases "env_os env destPath = NoDirectory \<or> rd = None")
    case True
    with assms(1) have "st' = st" by (cases "env_os env destPath = NoDirectory") (simp_all add: place_file_def)
    then show ?thesis by (rule that(1))
  next
    case False
    then obtain r where r: "env_os env destPath \<noteq> NoDirectory" "rd = Some r" by blast
    obtain files e' where w: "writeFile (env_os env destPath) destPath r (lim_MaxFileSizeBytes l) (ex_files st) = (files, e')"
      by (cases "writeFile (env_os env destPath) destPath r (lim_MaxFileSizeBytes l) (ex_files st)")
    with r assms(1) have "st' = st\<lparr>ex_files := files\<rparr>" "e' = e" by (simp_all add: place_file_def)
    with w show ?thesis by (intro that(2)) simp_all
  qed
  then show ?thesis
  proof cases
    case 1
    with kept show ?thesis by simp
  next
    case 2
    have "0 \<le> lim_MaxFileSizeBytes l" "lim_MaxFileSizeBytes l < 2 ^ 63 - 1"
      using assms(2) unfolding sane_limits_def by blast+
    from 2(1) this show ?thesis
    proof (cases rule: writeFile_cases)
      case 1
      with kept 2 show ?thesis by simp
    next
      case put: (2 content)
      have "files_ok cwd destDir l files"
        using gm_put_set[OF assms(4), of destPath content] assms(3,7) put by (fastforce simp: files_ok_def)
      moreover have "length files \<le> Suc (length (ex_files st))" using gm_put_length put(1) by simp
      ultimately show ?thesis using 2 put assms(4-6) by (simp add: extract_inv_def)
    qed
  qed
qed

section \<open>Loops that stop at the first error\<close>

text \<open>
  What the two extraction loops share: a step that keeps an invariant as long as it reports no error,
  and that leaves an acceptable state when it reports one.
\<close>

locale stopping_loop =
  fixes step :: "'e \<Rightarrow> 's \<Rightarrow> 's \<times> 'x option"
    and keeps :: "'s \<Rightarrow> bool"
    and acceptable :: "'s \<Rightarrow> bool"
  assumes kept: "keeps st \<Longrightarrow> step e st = (st', None) \<Longrightarrow> keeps st'"
    and stops: "keeps st \<Longrightarrow> step e st = (st', Some x) \<Longrightarrow> acceptable st'"
    and keeps_acceptable: "keeps st \<Longrightarrow> acceptable st"
begin

lemma loop_acceptable: "keeps st \<Longrightarrow> acceptable (fst (entries_loop step es st))"
proof (induction es arbitrary: st)
  case (Cons e es)
  obtain st' x where x: "step e st = (st', x)" by (cases "step e st")
  show ?case
  proof (cases x)
    case None
    with x Cons.IH[OF kept] Cons.prems show ?thesis by simp
  next
    case (Some y)
    with x stops Cons.prems show ?thesis by simp
  qed
qed (simp add: keeps_acceptable)

end

definition extract_keeps :: "extract_env \<Rightarrow> string \<Rightarrow> limits \<Rightarrow> extraction \<Rightarrow> bool" where
  "extract_keeps env destDir l st \<longleftrightarrow>
     (sane_limits l \<and> sane_cwd (env_cwd env) \<longrightarrow> extract_inv (env_cwd env) destDir l st)"

definition extract_leaves :: "extract_env \<Rightarrow> string \<Rightarrow> limits \<Rightarrow> extraction \<Rightarrow> bool" where
  "extract_leaves env destDir l st \<longleftrightarrow>
     (sane_limits l \<and> sane_cwd (env_cwd env) \<longrightarrow> extract_result (env_cwd env) destDir l st)"

text \<open>
  What every step guarantees: it keeps the invariant, or it stops without having touched a file.
\<close>

definition entry_outcome :: "extract_env \<Rightarrow> string \<Rightarrow> limits \<Rightarrow> extraction \<Rightarrow> extraction \<times> archive_error option \<Rightarrow> bool" where
  "entry_outcome env destDir l st r \<longleftrightarrow>
     extract_inv (env_cwd env) destDir l (fst r) \<or> ex_files (fst r) = ex_files st \<and> snd r \<noteq> None"

lemma entry_outcome_simps [simp]:
  "extract_inv (env_cwd env) destDir l st \<Longrightarrow> entry_outcome env destDir l st (st, x)"
  "ex_files st' = ex_files st \<Longrightarrow> entry_outcome env destDir l st (st', Some e)"
  by (simp_all add: entry_outcome_def)

lemma admit_entry_outcome:
  assumes "extract_inv (env_cwd env) destDir l st" and "sane_limits l" and "sane_cwd (env_cwd env)"
  shows "entry_outcome env destDir l st (admit_entry env destDir l name declared rd st)"
proof -
  have "in_i64 (ex_fileCount st + 1)"
    using assms(1,2) by (simp add: extract_inv_def sane_limits_def in_i64_def)
  then have n: "i64 (ex_fileCount st + 1) = ex_fileCount st + 1" by (rule i64_id)
  let ?st1 = "st\<lparr>ex_totalBytes := i64 (ex_totalBytes st + declared)\<rparr>"
  let ?st2 = "?st1\<lparr>ex_fileCount := ex_fileCount st + 1\<rparr>"
  show ?thesis
  proof (cases "safeJoin (env_cwd env) destDir name")
    case (Inl e)
    then show ?thesis by (simp add: admit_entry_def Let_def)
  next
    case (Inr destPath)
    obtain st' x where place: "place_file env l name destPath rd ?st2 = (st', x)"
      by (cases "place_file env l name destPath rd ?st2")
    have "extract_inv (env_cwd env) destDir l st'" if "ex_fileCount st + 1 \<le> lim_MaxFileCount l"
      by (rule place_file_inv[OF place])
        (use that assms safeJoin_below[OF Inr] in \<open>simp_all add: extract_inv_def sane_cwd_def\<close>)
    with Inr place n show ?thesis by (simp add: admit_entry_def Let_def entry_outcome_def)
  qed
qed

lemma zip_entry_outcome:
  assumes "extract_inv (env_cwd env) destDir l st" and "sane_limits l" and "sane_cwd (env_cwd env)"
  shows "entry_outcome env destDir l st (zip_entry_step env destDir l f st)"
  using assms admit_entry_outcome[OF assms] by (simp add: zip_entry_step_def split: option.splits)

lemma tar_item_outcome:
  assumes "extract_inv (env_cwd env) destDir l st" and "sane_limits l" and "sane_cwd (env_cwd env)"
  shows "entry_outcome env destDir l st (tar_item_step env destDir l item st)"
  using assms admit_entry_outcome[OF assms]
  by (simp add: tar_item_step_def tar_header_step_def split: option.splits tar_item.splits)

lemma outcome_kept:
  assumes "extract_keeps env destDir l st"
    and "sane_limits l \<Longrightarrow> sane_cwd (env_cwd env) \<Longrightarrow> entry_outcome env destDir l st (st', x)"
  shows "x = None \<Longrightarrow> extract_keeps env destDir l st'" and "extract_leaves env destDir l st'"
  using assms extract_inv_result[of "env_cwd env" destDir l] unfolding extract_keeps_def extract_leaves_def
  by (auto simp: entry_outcome_def extract_result_def)

interpretation zip_extraction: stopping_loop "zip_entry_step env destDir l" "extract_keeps env destDir l" "extract_leaves env destDir l"
  for env destDir l
proof
  fix st :: extraction and e :: zip_entry and st' x
  assume k: "extract_keeps env destDir l st"
  then have o: "entry_outcome env destDir l st (zip_entry_step env destDir l e st)" if "sane_limits l" "sane_cwd (env_cwd env)"
    using that by (simp add: zip_entry_outcome extract_keeps_def)
  show "zip_entry_step env destDir l e st = (st', None) \<Longrightarrow> extract_keeps env destDir l st'"
    using outcome_kept(1)[OF k] o by metis
  show "zip_entry_step env destDir l e st = (st', Some x) \<Longrightarrow> extract_leaves env destDir l st'"
    using outcome_kept(2)[OF k] o by metis
  show "extract_leaves env destDir l st" using k extract_inv_result by (auto simp: extract_keeps_def extract_leaves_def)
qed

interpretation tar_extraction: stopping_loop "tar_item_step env destDir l" "extract_keeps env destDir l" "extract_leaves env destDir l"
  for env destDir l
proof
  fix st :: extraction and e :: tar_item and st' x
  assume k: "extract_keeps env destDir l st"
  then have o: "entry_outcome env destDir l st (tar_item_step env destDir l e st)" if "sane_limits l" "sane_cwd (env_cwd env)"
    using that by (simp add: tar_item_outcome extract_keeps_def)
  show "tar_item_step env destDir l e st = (st', None) \<Longrightarrow> extract_keeps env destDir l st'"
    using outcome_kept(1)[OF k] o by metis
  show "tar_item_step env destDir l e st = (st', Some x) \<Longrightarrow> extract_leaves env destDir l st'"
    using outcome_kept(2)[OF k] o by metis
  show "extract_leaves env destDir l st" using k extract_inv_result by (auto simp: extract_keeps_def extract_leaves_def)
qed

lemma Extract_leaves:
  assumes "Extract env libs archive destDir l = (st, e)" and "sane_limits l" and "sane_cwd (env_cwd env)"
  shows "extract_result (env_cwd env) destDir l st"
proof -
  have "extract_keeps env destDir l extraction_start"
    by (simp add: extract_keeps_def extract_inv_def extraction_start_def files_ok_def sane_limits_def)
  then have "extract_leaves env destDir l (fst (Extract env libs archive destDir l))"
    using zip_extraction.loop_acceptable tar_extraction.loop_acceptable zip_extraction.keeps_acceptable
    by (auto simp: Extract_def extractZip_def extractTar_def split: option.splits)
  with assms show ?thesis by (simp add: extract_leaves_def)
qed

text \<open>
  C20. Containment and bounds: whatever archive a contestant uploads, whatever its libraries make of it
  and whatever errors occur, extraction leaves only files strictly below the destination directory (no
  \<open>..\<close>, absolute name or prefix trick escapes it), at most \<open>MaxFileCount\<close> of them, at different paths,
  none longer than \<open>MaxFileSizeBytes + 1\<close>, so that at most \<open>MaxFileCount * (MaxFileSizeBytes + 1)\<close> bytes
  are on disk, also when the sizes the archive declares are lies.
\<close>

theorem archive_contained:
  assumes "Extract env libs archive destDir l = (st, e)" and "sane_limits l" and "sane_cwd (env_cwd env)"
  shows "(\<forall>(p, content) \<in> set (ex_files st).
      strictly_below (env_cwd env) destDir p \<and> int (length content) \<le> lim_MaxFileSizeBytes l + 1) \<and>
    distinct (gm_keys (ex_files st)) \<and> int (length (ex_files st)) \<le> lim_MaxFileCount l \<and>
    (\<Sum>(p, content) \<leftarrow> ex_files st. int (length content)) \<le> lim_MaxFileCount l * (lim_MaxFileSizeBytes l + 1)"
proof -
  have r: "extract_result (env_cwd env) destDir l st" by (rule Extract_leaves[OF assms])
  let ?m = "lim_MaxFileSizeBytes l + 1"
  have "(\<Sum>(p, content) \<leftarrow> files. int (length content)) \<le> int (length files) * ?m"
    if "\<forall>(p, content) \<in> set files. int (length content) \<le> ?m" for files :: "(string, string) gomap"
    using that by (induction files) (auto simp: algebra_simps)
  moreover have "\<forall>(p, content) \<in> set (ex_files st). int (length content) \<le> ?m"
    using r by (auto simp: extract_result_def files_ok_def)
  ultimately have "(\<Sum>(p, content) \<leftarrow> ex_files st. int (length content)) \<le> int (length (ex_files st)) * ?m" by blast
  also have "\<dots> \<le> lim_MaxFileCount l * ?m"
    using r assms(2) by (intro mult_right_mono) (auto simp: extract_result_def sane_limits_def)
  finally show ?thesis using r by (simp add: extract_result_def files_ok_def gm_wf_def)
qed

text \<open>A zip file whose second entry tries to leave the directory, after an honest first one.\<close>

definition sample_env :: extract_env where
  "sample_env = \<lparr>env_cwd = Some ''/srv'', env_os = (\<lambda>p. PathUsable)\<rparr>"

definition sample_zip :: "zip_entry list" where
  "sample_zip =
     [\<lparr>ze_Name = ''./bin//run'', ze_IsDir = False, ze_symlink = False, ze_UncompressedSize64 = 3,
       ze_reader = Some \<lparr>rd_bytes = ''abcdef'', rd_fails = False\<rparr>\<rparr>,
      \<lparr>ze_Name = ''a/../../x'', ze_IsDir = False, ze_symlink = False, ze_UncompressedSize64 = 1,
       ze_reader = Some \<lparr>rd_bytes = ''z'', rd_fails = False\<rparr>\<rparr>]"

definition sample_libs :: archive_libs where
  "sample_libs = \<lparr>lib_zip = (\<lambda>b. Some sample_zip), lib_gzip = (\<lambda>b. False), lib_tar = (\<lambda>g b. []), lib_seeks = True\<rparr>"

definition sample_limits :: limits where
  "sample_limits = \<lparr>lim_MaxTotalBytes = 100, lim_MaxFileSizeBytes = 3, lim_MaxFileCount = 2\<rparr>"

definition sample_zip_file :: string where
  "sample_zip_file = [CHR ''P'', CHR ''K'', CHR 0x03, CHR 0x04]"

lemma sample_extraction:
  "Extract sample_env sample_libs (Some sample_zip_file) ''out'' sample_limits =
     (\<lparr>ex_files = [(''out/bin/run'', ''abcd'')], ex_totalBytes = 3, ex_fileCount = 1\<rparr>, Some (PathTraversal ''a/../../x''))"
  by code_simp

theorem archive_contained_witness:
  "\<exists>st e. Extract sample_env sample_libs (Some sample_zip_file) ''out'' sample_limits = (st, e) \<and>
     gm_keys (ex_files st) = [''out/bin/run''] \<and> strictly_below (Some ''/srv'') ''out'' ''out/bin/run''"
proof -
  have "sane_limits sample_limits" "sane_cwd (env_cwd sample_env)"
    by (simp_all add: sample_limits_def sample_env_def sane_limits_def sane_cwd_def filepath_IsAbs_def has_prefix_def)
  from archive_contained[OF sample_extraction this] show ?thesis
    by (simp add: sample_extraction) (simp add: sample_env_def)
qed

end
