(* ===== verification/FleetPool.thy ===== *)
theory FleetPool
  imports Ticks
begin

text \<open>
  The fleet pool of the sandbox manager (\<open>sandbox-manager/internal/fleet/pool.go\<close>): several workers
  dispatch benchmarks to bot-fleet instances while a poller refreshes the load of the instances. The
  choice of the least loaded instance is a function; \<open>Dispatch\<close>, \<open>post\<close> and the poller are a step
  relation, because the mutex covers the choice and not the reservation that follows it. HTTP answers,
  timeouts and the context are decided by the environment.
\<close>

section \<open>Instances\<close>

text \<open>\<open>atomic.Int32\<close> wraps around.\<close>

definition i32 :: "int \<Rightarrow> int" where
  "i32 x = (x + 2 ^ 31) mod 2 ^ 32 - 2 ^ 31"

lemma i32_id [go_int]: "- (2 ^ 31) \<le> x \<Longrightarrow> x < 2 ^ 31 \<Longrightarrow> i32 x = x"
  by (simp add: i32_def)

record fleet_instance =
  fi_URL :: string
  fi_active :: int
  fi_max :: int

definition effective_max :: "fleet_instance \<Rightarrow> int" where
  "effective_max inst = (if fi_max inst \<le> 0 then 1 else fi_max inst)"

definition hasCapacity :: "fleet_instance \<Rightarrow> bool" where
  "hasCapacity inst \<longleftrightarrow> fi_active inst < effective_max inst"

definition NewPool :: "string list \<Rightarrow> fleet_instance list" where
  "NewPool urls = map (\<lambda>u. \<lparr>fi_URL = u, fi_active = 0, fi_max = 4\<rparr>) urls"

section \<open>The least loaded instance\<close>

text \<open>The local variables \<open>best\<close> (an index instead of a pointer) and \<open>bestLoad\<close>.\<close>

type_synonym candidate = "nat option \<times> f64"

definition no_candidate :: candidate where
  "no_candidate = (None, Fin 2)"

definition instance_load :: "fleet_instance \<Rightarrow> f64" where
  "instance_load inst = f64_div (f64_of_int (fi_active inst)) (f64_of_int (effective_max inst))"

definition pick_consider :: "nat \<Rightarrow> fleet_instance \<Rightarrow> candidate \<Rightarrow> candidate" where
  "pick_consider i inst best =
     (if fi_active inst \<ge> effective_max inst then best
      else if fst best = None \<or> f64_less (instance_load inst) (snd best) then (Some i, instance_load inst)
      else best)"

fun pick_loop :: "fleet_instance list \<Rightarrow> nat \<Rightarrow> candidate \<Rightarrow> candidate" where
  "pick_loop [] i best = best"
| "pick_loop (inst # insts) i best = pick_loop insts (Suc i) (pick_consider i inst best)"

definition pickLeastLoaded :: "fleet_instance list \<Rightarrow> nat option" where
  "pickLeastLoaded insts = fst (pick_loop insts 0 no_candidate)"

section \<open>Dispatching\<close>

datatype dispatch_error = DispatchCancelled | MarshalFailed

datatype dispatch_phase =
    Idle
  | AtLoop
  | Scanning nat candidate
  | Picked nat
  | Posting nat
  | BackingOff
  | Finished "dispatch_error option"

text \<open>
  One worker that calls \<open>Dispatch\<close>: where the call stands, its local variables, and the instances that
  have answered its request with 200 or 202. Durations are in nanoseconds.
\<close>

record dispatcher =
  dp_phase :: dispatch_phase
  dp_attempt :: int
  dp_backoff :: int
  dp_accepted :: "nat list"

definition dispatch_call :: "bool \<Rightarrow> dispatcher" where
  "dispatch_call marshal_ok =
     \<lparr>dp_phase = (if marshal_ok then AtLoop else Finished (Some MarshalFailed)), dp_attempt = 1,
      dp_backoff = 2 * go_second, dp_accepted = []\<rparr>"

definition next_attempt :: "dispatcher \<Rightarrow> dispatcher" where
  "next_attempt d = d\<lparr>dp_phase := AtLoop, dp_attempt := i64 (dp_attempt d + 1)\<rparr>"

definition backoff_over :: "dispatcher \<Rightarrow> dispatcher" where
  "backoff_over d =
     next_attempt (d\<lparr>dp_backoff := (if dp_backoff d < 30 * go_second then i64 (dp_backoff d * 2) else dp_backoff d)\<rparr>)"

definition scan_result :: "candidate \<Rightarrow> dispatch_phase" where
  "scan_result best = (case fst best of None \<Rightarrow> BackingOff | Some k \<Rightarrow> Picked k)"

definition active_add :: "int \<Rightarrow> fleet_instance \<Rightarrow> fleet_instance" where
  "active_add delta inst = inst\<lparr>fi_active := i32 (fi_active inst + delta)\<rparr>"

definition pollHealth :: "int \<Rightarrow> int \<Rightarrow> fleet_instance \<Rightarrow> fleet_instance" where
  "pollHealth reported_active reported_max inst =
     (let inst1 = inst\<lparr>fi_active := i32 reported_active\<rparr> in
      if reported_max > 0 then inst1\<lparr>fi_max := i32 reported_max\<rparr> else inst1)"

text \<open>\<open>fl_mu\<close> is the worker that holds the mutex.\<close>

record fleet =
  fl_instances :: "fleet_instance list"
  fl_dispatchers :: "dispatcher list"
  fl_mu :: "nat option"

definition fleet_start :: "string list \<Rightarrow> nat \<Rightarrow> fleet" where
  "fleet_start urls workers =
     \<lparr>fl_instances = NewPool urls,
      fl_dispatchers = replicate workers \<lparr>dp_phase = Idle, dp_attempt = 0, dp_backoff = 0, dp_accepted = []\<rparr>,
      fl_mu = None\<rparr>"

definition put_dispatcher :: "nat \<Rightarrow> dispatcher \<Rightarrow> fleet \<Rightarrow> fleet" where
  "put_dispatcher w d s = s\<lparr>fl_dispatchers := (fl_dispatchers s)[w := d]\<rparr>"

definition map_instance :: "nat \<Rightarrow> (fleet_instance \<Rightarrow> fleet_instance) \<Rightarrow> fleet \<Rightarrow> fleet" where
  "map_instance k f s = s\<lparr>fl_instances := (fl_instances s)[k := f (fl_instances s ! k)]\<rparr>"

definition worker_at :: "fleet \<Rightarrow> nat \<Rightarrow> dispatcher \<Rightarrow> bool" where
  "worker_at s w d \<longleftrightarrow> w < length (fl_dispatchers s) \<and> fl_dispatchers s ! w = d"

text \<open>
  The steps of the workers and of the poller. The two loads of one instance in the loop of
  \<open>pickLeastLoaded\<close> are one step, and so are the two stores of \<open>pollHealth\<close>; \<open>reports k a m\<close> says which
  answers of \<open>/health\<close> instance \<open>k\<close> may give. A poll without a valid answer changes nothing and is no
  step. Whether the context is done, a request fails or is accepted is open.
\<close>

inductive fleet_step :: "(nat \<Rightarrow> int \<Rightarrow> int \<Rightarrow> bool) \<Rightarrow> fleet \<Rightarrow> fleet \<Rightarrow> bool" for reports where
  call: "worker_at s w d \<Longrightarrow> (dp_phase d = Idle \<or> (\<exists>r. dp_phase d = Finished r)) \<Longrightarrow>
    fleet_step reports s (put_dispatcher w (dispatch_call marshal_ok) s)"
| loop_cancelled: "worker_at s w d \<Longrightarrow> dp_phase d = AtLoop \<Longrightarrow>
    fleet_step reports s (put_dispatcher w (d\<lparr>dp_phase := Finished (Some DispatchCancelled)\<rparr>) s)"
| lock: "worker_at s w d \<Longrightarrow> dp_phase d = AtLoop \<Longrightarrow> fl_mu s = None \<Longrightarrow>
    fleet_step reports s ((put_dispatcher w (d\<lparr>dp_phase := Scanning 0 no_candidate\<rparr>) s)\<lparr>fl_mu := Some w\<rparr>)"
| read: "worker_at s w d \<Longrightarrow> dp_phase d = Scanning i best \<Longrightarrow> i < length (fl_instances s) \<Longrightarrow>
    fleet_step reports s
      (put_dispatcher w (d\<lparr>dp_phase := Scanning (Suc i) (pick_consider i (fl_instances s ! i) best)\<rparr>) s)"
| unlock: "worker_at s w d \<Longrightarrow> dp_phase d = Scanning i best \<Longrightarrow> i = length (fl_instances s) \<Longrightarrow>
    fleet_step reports s ((put_dispatcher w (d\<lparr>dp_phase := scan_result best\<rparr>) s)\<lparr>fl_mu := None\<rparr>)"
| wait_cancelled: "worker_at s w d \<Longrightarrow> dp_phase d = BackingOff \<Longrightarrow>
    fleet_step reports s (put_dispatcher w (d\<lparr>dp_phase := Finished (Some DispatchCancelled)\<rparr>) s)"
| wait_over: "worker_at s w d \<Longrightarrow> dp_phase d = BackingOff \<Longrightarrow>
    fleet_step reports s (put_dispatcher w (backoff_over d) s)"
| post_begins: "worker_at s w d \<Longrightarrow> dp_phase d = Picked k \<Longrightarrow>
    fleet_step reports s (map_instance k (active_add 1) (put_dispatcher w (d\<lparr>dp_phase := Posting k\<rparr>) s))"
| post_fails: "worker_at s w d \<Longrightarrow> dp_phase d = Posting k \<Longrightarrow>
    fleet_step reports s (map_instance k (active_add (- 1)) (put_dispatcher w (next_attempt d) s))"
| post_accepted: "worker_at s w d \<Longrightarrow> dp_phase d = Posting k \<Longrightarrow>
    fleet_step reports s (put_dispatcher w (d\<lparr>dp_phase := Finished None, dp_accepted := dp_accepted d @ [k]\<rparr>) s)"
| poll: "k < length (fl_instances s) \<Longrightarrow> reports k a m \<Longrightarrow>
    fleet_step reports s (map_instance k (pollHealth a m) s)"

inductive fleet_reach :: "(nat \<Rightarrow> int \<Rightarrow> int \<Rightarrow> bool) \<Rightarrow> string list \<Rightarrow> nat \<Rightarrow> fleet \<Rightarrow> bool" for reports urls workers where
  start: "fleet_reach reports urls workers (fleet_start urls workers)"
| step: "fleet_reach reports urls workers s \<Longrightarrow> fleet_step reports s s' \<Longrightarrow> fleet_reach reports urls workers s'"

inductive_cases fleet_stepE: "fleet_step reports s s'"

section \<open>The choice is the least loaded instance\<close>

text \<open>
  Loads are compared after rounding. Below \<open>2 ^ 25\<close> slots the rounded quotients are in the order of the
  exact ones, so a comparison of loads is a comparison of products.
\<close>

definition small_instance :: "fleet_instance \<Rightarrow> bool" where
  "small_instance inst \<longleftrightarrow> 0 \<le> fi_active inst \<and> fi_active inst < 2 ^ 25 \<and> fi_max inst < 2 ^ 25"

lemma fraction_order:
  fixes x y x' y' :: rat
  assumes "\<bar>x' - x\<bar> \<le> x / 2 ^ 53" and "\<bar>y' - y\<bar> \<le> y / 2 ^ 53" and "x \<le> 1" and "y \<le> 1" and "x + 1 / 2 ^ 50 \<le> y"
  shows "x' < y'"
proof -
  have "x / 2 ^ 53 \<le> 1 / 2 ^ 53" "y / 2 ^ 53 \<le> 1 / 2 ^ 53" using assms(3,4) by (simp_all add: divide_right_mono)
  then have "x' \<le> x + 1 / 2 ^ 53" "y - 1 / 2 ^ 53 \<le> y'"
    using assms(1,2) abs_ge_self[of "x' - x"] abs_ge_minus_self[of "y' - y"] by linarith+
  moreover have "(1 :: rat) / 2 ^ 53 + 1 / 2 ^ 53 < 1 / 2 ^ 50" by simp
  ultimately show ?thesis using assms(5) by linarith
qed

lemma fraction_gap:
  assumes "0 < m" "m < 2 ^ 25" "0 < k" "k < 2 ^ 25" and "a * k < b * m"
  shows "of_int a / of_int m + 1 / 2 ^ 50 \<le> (of_int b / of_int k :: rat)"
proof -
  have "m * k \<le> 2 ^ 25 * 2 ^ 25" using assms(1-4) by (intro mult_mono) auto
  then have "m * k \<le> 2 ^ 50" by simp
  then have "of_int (m * k) \<le> (of_int (2 ^ 50) :: rat)" unfolding of_int_le_iff .
  then have "of_int (m * k) \<le> (2 ^ 50 :: rat)" by simp
  moreover have pos: "0 < (of_int (m * k) :: rat)" using assms(1,3) by simp
  ultimately have "1 / 2 ^ 50 \<le> 1 / (of_int (m * k) :: rat)" by (intro divide_left_mono) auto
  also have "(1 :: rat) \<le> of_int (b * m - a * k)" using assms(5) by (simp only: of_int_1_le_iff)
  then have "1 / of_int (m * k) \<le> (of_int (b * m - a * k) / of_int (m * k) :: rat)"
    using pos by (intro divide_right_mono) simp_all
  also have "\<dots> = of_int b / of_int k - of_int a / of_int m"
    using assms(1,3) by (simp add: field_simps)
  finally show ?thesis by (simp only: le_diff_eq add.commute)
qed

lemma load_less_iff:
  assumes "small_instance x" "hasCapacity x" and "small_instance y" "hasCapacity y"
  shows "f64_less (instance_load x) (instance_load y) \<longleftrightarrow>
    fi_active x * effective_max y < fi_active y * effective_max x"
proof -
  let ?a = "fi_active x" and ?m = "effective_max x" and ?b = "fi_active y" and ?k = "effective_max y"
  have x: "0 \<le> ?a" "?a < ?m" "0 < ?m" "?m < 2 ^ 25" and y: "0 \<le> ?b" "?b < ?k" "0 < ?k" "?k < 2 ^ 25"
    using assms by (auto simp: small_instance_def hasCapacity_def effective_max_def)
  obtain x' where x': "instance_load x = Fin x'" "\<bar>x' - of_int ?a / of_int ?m\<bar> \<le> (of_int ?a / of_int ?m) / 2 ^ 53"
    using rnd_frac_cases[of ?a ?m] x by (auto simp: instance_load_def frac_of_def)
  obtain y' where y': "instance_load y = Fin y'" "\<bar>y' - of_int ?b / of_int ?k\<bar> \<le> (of_int ?b / of_int ?k) / 2 ^ 53"
    using rnd_frac_cases[of ?b ?k] y by (auto simp: instance_load_def frac_of_def)
  have one: "of_int ?a / of_int ?m \<le> (1 :: rat)" "of_int ?b / of_int ?k \<le> (1 :: rat)" using x y by simp_all
  consider "?a * ?k < ?b * ?m" | "?b * ?m < ?a * ?k" | "?a * ?k = ?b * ?m" by linarith
  then show ?thesis
  proof cases
    case 1
    then have "x' < y'" using fraction_order[OF x'(2) y'(2) one fraction_gap] x y by simp
    with 1 x' y' show ?thesis by simp
  next
    case 2
    then have "y' < x'" using fraction_order[OF y'(2) x'(2) one(2,1) fraction_gap] x y by simp
    with 2 x' y' show ?thesis by simp
  next
    case 3
    have "?a < 2 ^ 50" "?m < 2 ^ 53" "?b < 2 ^ 50" "?k < 2 ^ 53" using x y by simp_all
    moreover have "of_int ?a / of_int ?m = (of_int ?b / of_int ?k :: rat)"
      using 3 x y by (simp add: field_simps flip: of_int_mult)
    ultimately have "instance_load x = instance_load y"
      using x y by (simp add: instance_load_def f64_of_int_exact)
    with 3 x' show ?thesis by simp
  qed
qed

lemma pick_loop_snoc: "pick_loop (insts @ [inst]) i best = pick_consider (i + length insts) inst (pick_loop insts i best)"
  by (induction insts arbitrary: i best) simp_all

definition least_loaded :: "fleet_instance list \<Rightarrow> nat \<Rightarrow> bool" where
  "least_loaded insts k \<longleftrightarrow> k < length insts \<and> hasCapacity (insts ! k) \<and>
     (\<forall>j < length insts. hasCapacity (insts ! j) \<longrightarrow>
        fi_active (insts ! k) * effective_max (insts ! j) \<le> fi_active (insts ! j) * effective_max (insts ! k))"

lemma pick_loop_spec:
  assumes "\<forall>inst \<in> set insts. small_instance inst"
  shows "case pick_loop insts 0 no_candidate of
     (None, l) \<Rightarrow> \<forall>inst \<in> set insts. \<not> hasCapacity inst
   | (Some k, l) \<Rightarrow> least_loaded insts k \<and> l = instance_load (insts ! k)"
  using assms
proof (induction insts rule: rev_induct)
  case Nil
  then show ?case by (simp add: no_candidate_def)
next
  case (snoc x xs)
  note small = snoc.prems
  obtain c l where cl: "pick_loop xs 0 no_candidate = (c, l)" by (cases "pick_loop xs 0 no_candidate")
  have IH: "case (c, l) of (None, l) \<Rightarrow> \<forall>inst \<in> set xs. \<not> hasCapacity inst
     | (Some k, l) \<Rightarrow> least_loaded xs k \<and> l = instance_load (xs ! k)"
    using snoc by (simp add: cl)
  have step: "pick_loop (xs @ [x]) 0 no_candidate = pick_consider (length xs) x (c, l)"
    by (simp add: pick_loop_snoc cl)
  show ?case
  proof (cases c)
    case None
    then show ?thesis using IH unfolding step
      by (auto simp: pick_consider_def least_loaded_def hasCapacity_def nth_append less_Suc_eq dest: nth_mem)
  next
    case (Some k)
    then have k: "k < length xs" "hasCapacity (xs ! k)" "l = instance_load (xs ! k)"
      and least: "j < length xs \<Longrightarrow> hasCapacity (xs ! j) \<Longrightarrow>
        fi_active (xs ! k) * effective_max (xs ! j) \<le> fi_active (xs ! j) * effective_max (xs ! k)" for j
      using IH by (auto simp: least_loaded_def)
    show ?thesis
    proof (cases "hasCapacity x")
      case False
      then show ?thesis using k least Some unfolding step
        by (auto simp: pick_consider_def least_loaded_def hasCapacity_def nth_append less_Suc_eq)
    next
      case cap: True
      have iff: "f64_less (instance_load x) l \<longleftrightarrow>
          fi_active x * effective_max (xs ! k) < fi_active (xs ! k) * effective_max x"
        using load_less_iff[of x "xs ! k"] small cap k by simp
      show ?thesis
      proof (cases "f64_less (instance_load x) l")
        case False
        then show ?thesis using k least Some cap iff unfolding step
          by (auto simp: pick_consider_def least_loaded_def hasCapacity_def nth_append less_Suc_eq)
      next
        case True
        have "fi_active x * effective_max (xs ! j) \<le> fi_active (xs ! j) * effective_max x"
          if "j < length xs" "hasCapacity (xs ! j)" for j
        proof -
          let ?A = "fi_active (xs ! k)" and ?M = "effective_max (xs ! k)"
          have M: "0 < ?M" "0 < effective_max x" "0 < effective_max (xs ! j)" by (auto simp: effective_max_def)
          have 1: "fi_active x * ?M \<le> ?A * effective_max x" using True iff by simp
          have 2: "?A * effective_max (xs ! j) \<le> fi_active (xs ! j) * ?M" using least that by simp
          have "(fi_active x * effective_max (xs ! j)) * ?M \<le> (?A * effective_max x) * effective_max (xs ! j)"
            using mult_right_mono[OF 1, of "effective_max (xs ! j)"] M by (simp add: ac_simps)
          also have "\<dots> \<le> (fi_active (xs ! j) * effective_max x) * ?M"
            using mult_right_mono[OF 2, of "effective_max x"] M by (simp add: ac_simps)
          finally show ?thesis using M by simp
        qed
        then show ?thesis using True cap Some unfolding step
          by (auto simp: pick_consider_def least_loaded_def hasCapacity_def nth_append less_Suc_eq)
      qed
    qed
  qed
qed

text \<open>
  The dispatcher picks the least loaded instance: for instances with a plausible load, the choice is
  \<open>nil\<close> exactly when no instance has a free slot, and otherwise it is an instance with a free slot whose
  exact ratio of active to maximal benchmarks is the smallest of all instances with a free slot,
  although the code compares ratios rounded to \<open>float64\<close>.
\<close>

theorem pickLeastLoaded_least:
  assumes "\<forall>inst \<in> set insts. small_instance inst"
  shows "case pickLeastLoaded insts of
     None \<Rightarrow> \<not> (\<exists>inst \<in> set insts. hasCapacity inst)
   | Some k \<Rightarrow> least_loaded insts k"
  using pick_loop_spec[OF assms] by (auto simp: pickLeastLoaded_def split: prod.splits option.splits)

definition sample_fleet :: "fleet_instance list" where
  "sample_fleet =
     [\<lparr>fi_URL = ''http://a'', fi_active = 2, fi_max = 2\<rparr>, \<lparr>fi_URL = ''http://b'', fi_active = 2, fi_max = 3\<rparr>,
      \<lparr>fi_URL = ''http://c'', fi_active = 1, fi_max = 2\<rparr>]"

theorem pickLeastLoaded_least_witness:
  "pickLeastLoaded sample_fleet = Some 2 \<and> least_loaded sample_fleet 2"
proof -
  have small: "\<forall>inst \<in> set sample_fleet. small_instance inst" by (simp add: sample_fleet_def small_instance_def)
  have "hasCapacity (sample_fleet ! 2)" "2 < length sample_fleet" by (simp_all add: sample_fleet_def hasCapacity_def effective_max_def)
  then have "\<exists>inst \<in> set sample_fleet. hasCapacity inst" using nth_mem by blast
  with pickLeastLoaded_least[OF small] obtain k where k: "pickLeastLoaded sample_fleet = Some k" "least_loaded sample_fleet k"
    by (cases "pickLeastLoaded sample_fleet") auto
  then have "k = 2"
    by (auto simp: least_loaded_def sample_fleet_def hasCapacity_def effective_max_def less_Suc_eq numeral_eq_Suc)
  with k show ?thesis by simp
qed

section \<open>How far the load can be off\<close>

text \<open>
  A worker claims an instance from the moment it has seen the free slot until it adds itself to
  \<open>active\<close>. Claims are not covered by the mutex, so several workers may claim the last slot.
\<close>

fun phase_claims :: "nat \<Rightarrow> dispatch_phase \<Rightarrow> bool" where
  "phase_claims k (Scanning i best) \<longleftrightarrow> fst best = Some k"
| "phase_claims k (Picked j) \<longleftrightarrow> j = k"
| "phase_claims k _ \<longleftrightarrow> False"

definition tally :: "('a \<Rightarrow> bool) \<Rightarrow> 'a list \<Rightarrow> int" where
  "tally P xs = int (length (filter P xs))"

definition claimed :: "nat \<Rightarrow> dispatcher list \<Rightarrow> int" where
  "claimed k ds = tally (\<lambda>d. phase_claims k (dp_phase d)) ds"

definition in_flight :: "nat \<Rightarrow> dispatcher list \<Rightarrow> int" where
  "in_flight k ds = tally (\<lambda>d. dp_phase d = Posting k) ds"

lemma tally_update:
  "w < length xs \<Longrightarrow> tally P (xs[w := y]) = tally P xs - of_bool (P (xs ! w)) + of_bool (P y)"
proof (induction xs arbitrary: w)
  case (Cons x xs)
  then show ?case by (cases w) (auto simp: tally_def)
qed simp

lemma tally_bounds: "0 \<le> tally P xs" "tally P xs \<le> int (length xs)"
  by (simp_all add: tally_def)

definition instance_ok :: "int \<Rightarrow> dispatcher list \<Rightarrow> nat \<Rightarrow> fleet_instance \<Rightarrow> bool" where
  "instance_ok n ds k inst \<longleftrightarrow>
     effective_max inst + n < 2 ^ 31 \<and>
     fi_active inst + claimed k ds \<le> effective_max inst + n \<and>
     in_flight k ds - n \<le> fi_active inst"

lemma active_add_fields [simp]:
  "effective_max (active_add delta inst) = effective_max inst"
  "fi_active (active_add delta inst) = i32 (fi_active inst + delta)"
  by (simp_all add: active_add_def effective_max_def)

definition dispatcher_ok :: "dispatcher \<Rightarrow> bool" where
  "dispatcher_ok d \<longleftrightarrow>
     (dp_phase d \<noteq> Idle \<longrightarrow> dp_backoff d \<in> (\<lambda>i. i * go_second) ` {2, 4, 8, 16, 32}) \<and>
     length (dp_accepted d) = (if dp_phase d = Finished None then 1 else 0)"

definition fleet_inv :: "nat \<Rightarrow> fleet \<Rightarrow> bool" where
  "fleet_inv workers s \<longleftrightarrow>
     length (fl_dispatchers s) = workers \<and> (\<forall>d \<in> set (fl_dispatchers s). dispatcher_ok d) \<and>
     (\<forall>k < length (fl_instances s). instance_ok (int workers) (fl_dispatchers s) k (fl_instances s ! k))"

lemma fleet_inv_at:
  assumes "fleet_inv workers s" and "worker_at s w d"
  shows "w < length (fl_dispatchers s)" "fl_dispatchers s ! w = d" "dispatcher_ok d" "length (fl_dispatchers s) = workers"
  using assms nth_mem by (fastforce simp: fleet_inv_def worker_at_def)+

lemma fleet_inv_put:
  assumes "fleet_inv workers s" and "worker_at s w d" and "dispatcher_ok d'"
    and "\<And>k. k < length (fl_instances s) \<Longrightarrow> phase_claims k (dp_phase d') \<Longrightarrow> \<not> phase_claims k (dp_phase d) \<Longrightarrow>
      hasCapacity (fl_instances s ! k)"
    and "\<And>k. dp_phase d' = Posting k \<Longrightarrow> dp_phase d = Posting k"
  shows "fleet_inv workers (put_dispatcher w d' s)"
proof -
  note at = fleet_inv_at[OF assms(1,2)]
  let ?ds = "(fl_dispatchers s)[w := d']"
  have "instance_ok (int workers) ?ds k (fl_instances s ! k)" if k: "k < length (fl_instances s)" for k
  proof -
    let ?I = "fl_instances s ! k"
    have ok: "instance_ok (int workers) (fl_dispatchers s) k ?I" using assms(1) k by (simp add: fleet_inv_def)
    have c: "claimed k ?ds = claimed k (fl_dispatchers s) - of_bool (phase_claims k (dp_phase d)) + of_bool (phase_claims k (dp_phase d'))"
      using at by (simp add: claimed_def tally_update)
    have f: "in_flight k ?ds \<le> in_flight k (fl_dispatchers s)"
      using at assms(5)[of k] by (simp add: in_flight_def tally_update)
    have le: "claimed k ?ds \<le> int workers" using tally_bounds(2)[of _ ?ds] at by (simp add: claimed_def)
    show ?thesis
    proof (cases "phase_claims k (dp_phase d') \<and> \<not> phase_claims k (dp_phase d)")
      case True
      with assms(4) k have "fi_active ?I < effective_max ?I" by (simp add: hasCapacity_def)
      with ok f le show ?thesis by (simp add: instance_ok_def)
    next
      case False
      with c have "claimed k ?ds \<le> claimed k (fl_dispatchers s)" by auto
      with ok f show ?thesis by (simp add: instance_ok_def)
    qed
  qed
  moreover have "\<forall>x \<in> set ?ds. dispatcher_ok x"
    using assms(1,3) set_update_subset_insert[of "fl_dispatchers s" w d'] by (auto simp: fleet_inv_def)
  ultimately show ?thesis using at by (simp add: fleet_inv_def put_dispatcher_def)
qed

text \<open>A worker that moves to or from an instance together with the load of that instance.\<close>

lemma fleet_inv_move:
  assumes "fleet_inv workers s" and "worker_at s w d" and "dispatcher_ok d'"
    and "\<And>j. j \<noteq> k \<Longrightarrow> \<not> phase_claims j (dp_phase d') \<and> dp_phase d' \<noteq> Posting j"
    and "k < length (fl_instances s) \<Longrightarrow>
      instance_ok (int workers) ((fl_dispatchers s)[w := d']) k (f (fl_instances s ! k))"
  shows "fleet_inv workers (map_instance k f (put_dispatcher w d' s))"
proof -
  note at = fleet_inv_at[OF assms(1,2)]
  let ?ds = "(fl_dispatchers s)[w := d']"
  have "instance_ok (int workers) ?ds j (fl_instances s ! j)" if "j < length (fl_instances s)" "j \<noteq> k" for j
  proof -
    have "claimed j ?ds \<le> claimed j (fl_dispatchers s)" "in_flight j ?ds \<le> in_flight j (fl_dispatchers s)"
      using at assms(4)[OF that(2)] by (simp_all add: claimed_def in_flight_def tally_update)
    with assms(1) that show ?thesis by (fastforce simp: fleet_inv_def instance_ok_def)
  qed
  moreover have "\<forall>x \<in> set ?ds. dispatcher_ok x"
    using assms(1,3) set_update_subset_insert[of "fl_dispatchers s" w d'] by (auto simp: fleet_inv_def)
  moreover have "instance_ok (int workers) ?ds j ((fl_instances s)[k := f (fl_instances s ! k)] ! j)"
    if "j < length (fl_instances s)" for j
    using calculation(1)[OF that] assms(5) that by (cases "j = k") simp_all
  ultimately show ?thesis using at by (simp add: fleet_inv_def put_dispatcher_def map_instance_def)
qed

lemma dispatcher_ok_backoff:
  assumes "dispatcher_ok d" and "dp_phase d = BackingOff"
  shows "dispatcher_ok (backoff_over d)"
proof -
  obtain i where i: "i \<in> {2, 4, 8, 16, 32}" "dp_backoff d = i * go_second"
    using assms by (auto simp: dispatcher_ok_def)
  then have "dp_backoff (backoff_over d) \<in> (\<lambda>i. i * go_second) ` {2, 4, 8, 16, 32}"
    by (elim insertE emptyE) (simp_all add: backoff_over_def next_attempt_def go_second_def i64_def)
  then show ?thesis using assms by (simp add: dispatcher_ok_def) (simp add: backoff_over_def next_attempt_def)
qed

lemma dispatch_call_ok: "dispatcher_ok (dispatch_call marshal_ok)"
  by (simp add: dispatcher_ok_def dispatch_call_def)

definition truthful :: "nat \<Rightarrow> (nat \<Rightarrow> int \<Rightarrow> int \<Rightarrow> bool) \<Rightarrow> bool" where
  "truthful workers reports \<longleftrightarrow>
     (\<forall>k a m. reports k a m \<longrightarrow> 0 \<le> a \<and> a \<le> m \<and> 0 < m \<and> m + int workers < 2 ^ 31)"

lemma fleet_inv_step:
  assumes "fleet_step reports s s'" and "fleet_inv workers s" and "truthful workers reports"
  shows "fleet_inv workers s'"
  using assms
proof (induction rule: fleet_step.induct)
  case (call s w d marshal_ok)
  show ?case
    by (rule fleet_inv_put[OF call(3,1) dispatch_call_ok]) (auto simp: dispatch_call_def split: if_splits)
next
  case (loop_cancelled s w d)
  show ?case
    by (rule fleet_inv_put[OF loop_cancelled(3,1)])
      (use fleet_inv_at(3)[OF loop_cancelled(3,1)] loop_cancelled(2) in \<open>simp_all add: dispatcher_ok_def\<close>)
next
  case (lock s w d)
  have "fleet_inv workers (put_dispatcher w (d\<lparr>dp_phase := Scanning 0 no_candidate\<rparr>) s)"
    by (rule fleet_inv_put[OF lock(4,1)])
      (use fleet_inv_at(3)[OF lock(4,1)] lock(2) in \<open>simp_all add: dispatcher_ok_def no_candidate_def\<close>)
  then show ?case by (simp add: fleet_inv_def)
next
  case (read s w d i best)
  show ?case
    by (rule fleet_inv_put[OF read(4,1)])
      (use fleet_inv_at(3)[OF read(4,1)] read(2) in
        \<open>auto simp: dispatcher_ok_def pick_consider_def hasCapacity_def split: if_splits\<close>)
next
  case (unlock s w d i best)
  have "fleet_inv workers (put_dispatcher w (d\<lparr>dp_phase := scan_result best\<rparr>) s)"
    by (rule fleet_inv_put[OF unlock(4,1)])
      (use fleet_inv_at(3)[OF unlock(4,1)] unlock(2) in
        \<open>auto simp: dispatcher_ok_def scan_result_def split: option.splits\<close>)
  then show ?case by (simp add: fleet_inv_def)
next
  case (wait_cancelled s w d)
  show ?case
    by (rule fleet_inv_put[OF wait_cancelled(3,1)])
      (use fleet_inv_at(3)[OF wait_cancelled(3,1)] wait_cancelled(2) in \<open>simp_all add: dispatcher_ok_def\<close>)
next
  case (wait_over s w d)
  show ?case
    by (rule fleet_inv_put[OF wait_over(3,1) dispatcher_ok_backoff])
      (use fleet_inv_at(3)[OF wait_over(3,1)] wait_over(2) in \<open>simp_all add: backoff_over_def next_attempt_def\<close>)
next
  case (post_accepted s w d k)
  show ?case
    by (rule fleet_inv_put[OF post_accepted(3,1)])
      (use fleet_inv_at(3)[OF post_accepted(3,1)] post_accepted(2) in \<open>simp_all add: dispatcher_ok_def\<close>)
next
  case (post_begins s w d k)
  note at = fleet_inv_at[OF post_begins(3,1)]
  let ?d = "d\<lparr>dp_phase := Posting k\<rparr>"
  have "instance_ok (int workers) ((fl_dispatchers s)[w := ?d]) k (active_add 1 (fl_instances s ! k))"
    if k: "k < length (fl_instances s)"
  proof -
    let ?I = "fl_instances s ! k"
    have ok: "instance_ok (int workers) (fl_dispatchers s) k ?I" using post_begins(3) k by (simp add: fleet_inv_def)
    have c: "claimed k ((fl_dispatchers s)[w := ?d]) = claimed k (fl_dispatchers s) - 1"
      and f: "in_flight k ((fl_dispatchers s)[w := ?d]) = in_flight k (fl_dispatchers s) + 1"
      using at post_begins(2) by (simp_all add: claimed_def in_flight_def tally_update)
    have "0 \<le> claimed k ((fl_dispatchers s)[w := ?d])" "0 \<le> in_flight k (fl_dispatchers s)" "0 < effective_max ?I"
      by (auto simp: claimed_def in_flight_def tally_bounds effective_max_def)
    with ok c have "i32 (fi_active ?I + 1) = fi_active ?I + 1"
      by (intro i32_id) (auto simp: instance_ok_def)
    with ok c f show ?thesis by (simp add: instance_ok_def)
  qed
  with post_begins show ?case
    by (intro fleet_inv_move) (use at post_begins(2) in \<open>auto simp: dispatcher_ok_def\<close>)
next
  case (post_fails s w d k)
  note at = fleet_inv_at[OF post_fails(3,1)]
  let ?d = "next_attempt d"
  have "instance_ok (int workers) ((fl_dispatchers s)[w := ?d]) k (active_add (- 1) (fl_instances s ! k))"
    if k: "k < length (fl_instances s)"
  proof -
    let ?I = "fl_instances s ! k"
    have ok: "instance_ok (int workers) (fl_dispatchers s) k ?I" using post_fails(3) k by (simp add: fleet_inv_def)
    have c: "claimed k ((fl_dispatchers s)[w := ?d]) = claimed k (fl_dispatchers s)"
      and f: "in_flight k ((fl_dispatchers s)[w := ?d]) = in_flight k (fl_dispatchers s) - 1"
      using at post_fails(2) by (simp_all add: claimed_def in_flight_def tally_update next_attempt_def)
    have "0 \<le> claimed k (fl_dispatchers s)" "0 \<le> in_flight k ((fl_dispatchers s)[w := ?d])" "0 < effective_max ?I"
      by (auto simp: claimed_def in_flight_def tally_bounds effective_max_def)
    with ok f have "i32 (fi_active ?I + - 1) = fi_active ?I - 1"
      by (subst i32_id) (auto simp: instance_ok_def)
    with ok c f show ?thesis by (simp add: instance_ok_def)
  qed
  with post_fails show ?case
    by (intro fleet_inv_move) (use at post_fails(2) in \<open>auto simp: dispatcher_ok_def next_attempt_def\<close>)
next
  case (poll k s a m)
  let ?I = "pollHealth a m (fl_instances s ! k)" and ?ds = "fl_dispatchers s"
  have r: "0 \<le> a" "a \<le> m" "0 < m" "m + int workers < 2 ^ 31" using poll(2,4) by (auto simp: truthful_def)
  then have "i32 a = a" "i32 m = m" by (simp_all add: i32_id)
  moreover have "claimed k ?ds \<le> int workers" "in_flight k ?ds \<le> int workers"
    using poll(3) tally_bounds(2)[of _ ?ds] by (auto simp: claimed_def in_flight_def fleet_inv_def)
  ultimately have "instance_ok (int workers) ?ds k ?I"
    using r by (simp add: instance_ok_def pollHealth_def effective_max_def)
  then have "instance_ok (int workers) ?ds j ((fl_instances s)[k := ?I] ! j)" if "j < length (fl_instances s)" for j
    using poll(3) that by (cases "j = k") (simp_all add: fleet_inv_def)
  with poll(3) show ?case by (simp add: fleet_inv_def map_instance_def)
qed

lemma tally_replicate: "\<not> P x \<Longrightarrow> tally P (replicate n x) = 0"
  by (simp add: tally_def)

lemma fleet_reach_inv:
  assumes "fleet_reach reports urls workers s" and "truthful workers reports" and "4 + int workers < 2 ^ 31"
  shows "fleet_inv workers s"
  using assms
proof (induction rule: fleet_reach.induct)
  case start
  then show ?case
    by (simp add: fleet_inv_def fleet_start_def NewPool_def instance_ok_def claimed_def in_flight_def
        tally_replicate effective_max_def dispatcher_ok_def)
qed (simp add: fleet_inv_step)


section \<open>The bound is not the capacity\<close>

text \<open>
  Two workers dispatch to one instance with one slot. Both see the free slot before either takes it,
  and the pool sends a second benchmark to a full instance.
\<close>

definition one_slot :: "nat \<Rightarrow> int \<Rightarrow> int \<Rightarrow> bool" where
  "one_slot k a m \<longleftrightarrow> a = 0 \<and> m = 1"

definition race :: "dispatcher list \<Rightarrow> int \<Rightarrow> nat option \<Rightarrow> fleet" where
  "race ds a mu =
     \<lparr>fl_instances = [\<lparr>fi_URL = ''u'', fi_active = a, fi_max = 1\<rparr>], fl_dispatchers = ds, fl_mu = mu\<rparr>"

lemma race_simps:
  "put_dispatcher w d (race ds a mu) = race (ds[w := d]) a mu"
  "(race ds a mu)\<lparr>fl_mu := mu'\<rparr> = race ds a mu'" "fl_mu (race ds a mu) = mu"
  "fl_instances (race ds a mu) = [\<lparr>fi_URL = ''u'', fi_active = a, fi_max = 1\<rparr>]"
  "worker_at (race ds a mu) w d \<longleftrightarrow> w < length ds \<and> ds ! w = d"
  "map_instance 0 f (race ds a mu) = (race ds a mu)\<lparr>fl_instances := [f \<lparr>fi_URL = ''u'', fi_active = a, fi_max = 1\<rparr>]\<rparr>"
  by (auto simp: race_def put_dispatcher_def worker_at_def map_instance_def)

lemma race_begins: "\<exists>d. fleet_reach one_slot [''u''] 2 (race [d, d] 0 None) \<and> dp_phase d = Idle"
proof -
  let ?s = "fleet_start [''u''] 2"
  have "fleet_step one_slot ?s (map_instance 0 (pollHealth 0 1) ?s)"
    by (rule fleet_step.poll) (simp_all add: fleet_start_def NewPool_def one_slot_def)
  from fleet_reach.step[OF fleet_reach.start this] show ?thesis
    by (intro exI conjI) (auto simp: race_def map_instance_def fleet_start_def NewPool_def pollHealth_def i32_def numeral_2_eq_2)
qed

lemma race_picks:
  assumes "fleet_reach one_slot [''u''] 2 (race ds 0 None)" and "w < length ds" and "dp_phase (ds ! w) = Idle"
  shows "\<exists>d. fleet_reach one_slot [''u''] 2 (race (ds[w := d]) 0 None) \<and> dp_phase d = Picked 0"
proof -
  let ?load = "(Some 0, instance_load \<lparr>fi_URL = ''u'', fi_active = 0, fi_max = 1\<rparr>)"
  let ?d1 = "dispatch_call True" and ?d2 = "(dispatch_call True)\<lparr>dp_phase := Scanning 0 no_candidate\<rparr>"
    and ?d3 = "(dispatch_call True)\<lparr>dp_phase := Scanning 1 ?load\<rparr>" and ?d4 = "(dispatch_call True)\<lparr>dp_phase := Picked 0\<rparr>"
  have "fleet_step one_slot (race ds 0 None) (race (ds[w := ?d1]) 0 None)"
    using fleet_step.call[of "race ds 0 None" w "ds ! w" one_slot True] assms by (simp add: race_simps)
  note r1 = fleet_reach.step[OF assms(1) this]
  have "fleet_step one_slot (race (ds[w := ?d1]) 0 None) (race (ds[w := ?d2]) 0 (Some w))"
    using fleet_step.lock[of "race (ds[w := ?d1]) 0 None" w ?d1 one_slot] assms by (simp add: race_simps dispatch_call_def)
  note r2 = fleet_reach.step[OF r1 this]
  have "fleet_step one_slot (race (ds[w := ?d2]) 0 (Some w)) (race (ds[w := ?d3]) 0 (Some w))"
    using fleet_step.read[of "race (ds[w := ?d2]) 0 (Some w)" w ?d2 0 no_candidate one_slot] assms
    by (simp add: race_simps pick_consider_def no_candidate_def effective_max_def)
  note r3 = fleet_reach.step[OF r2 this]
  have "fleet_step one_slot (race (ds[w := ?d3]) 0 (Some w)) (race (ds[w := ?d4]) 0 None)"
    using fleet_step.unlock[of "race (ds[w := ?d3]) 0 (Some w)" w ?d3 1 ?load one_slot] assms
    by (simp add: race_simps scan_result_def)
  from fleet_reach.step[OF r3 this] show ?thesis by (intro exI[of _ ?d4]) simp
qed

lemma race_posts:
  assumes "fleet_reach one_slot [''u''] 2 (race ds a None)" and "w < length ds" and "dp_phase (ds ! w) = Picked 0"
    and "0 \<le> a" and "a < 10"
  shows "\<exists>d. fleet_reach one_slot [''u''] 2 (race (ds[w := d]) (a + 1) None)"
proof -
  let ?d = "(ds ! w)\<lparr>dp_phase := Posting 0\<rparr>"
  have "fleet_step one_slot (race ds a None) (race (ds[w := ?d]) (a + 1) None)"
    using fleet_step.post_begins[of "race ds a None" w "ds ! w" 0 one_slot] assms
    by (simp add: race_simps) (simp add: race_def active_add_def i32_id)
  from fleet_reach.step[OF assms(1) this] show ?thesis by blast
qed

lemma fleet_overbooks:
  "\<exists>s. fleet_reach one_slot [''u''] 2 s \<and> length (fl_instances s) = 1 \<and>
     fi_active (fl_instances s ! 0) = 2 \<and> effective_max (fl_instances s ! 0) = 1"
proof -
  obtain d where d: "fleet_reach one_slot [''u''] 2 (race [d, d] 0 None)" "dp_phase d = Idle" using race_begins by blast
  obtain x where x: "fleet_reach one_slot [''u''] 2 (race [x, d] 0 None)" "dp_phase x = Picked 0"
    using race_picks[OF d(1), of 0] d(2) by auto
  obtain y where y: "fleet_reach one_slot [''u''] 2 (race [x, y] 0 None)" "dp_phase y = Picked 0"
    using race_picks[OF x(1), of 1] d(2) by auto
  obtain x' where x': "fleet_reach one_slot [''u''] 2 (race [x', y] 1 None)"
    using race_posts[OF y(1), of 0] x(2) by auto
  obtain y' where "fleet_reach one_slot [''u''] 2 (race [x', y'] 2 None)"
    using race_posts[OF x', of 1] y(2) by auto
  then show ?thesis by (intro exI conjI) (auto simp: race_simps effective_max_def)
qed


text \<open>
  An instance that fails is not avoided: after a failed request the load is as it was, and the next
  attempt, which follows without a pause, picks the same instance.
\<close>

lemma failed_instance_again:
  assumes "- (2 ^ 31) < fi_active (insts ! k)" and "fi_active (insts ! k) < 2 ^ 31 - 1" and "pickLeastLoaded insts = Some k" and "k < length insts"
  shows "pickLeastLoaded (insts[k := active_add (- 1) (active_add 1 (insts ! k))]) = Some k"
proof -
  have "active_add (- 1) (active_add 1 (insts ! k)) = insts ! k"
    using assms(1,2) by (simp add: active_add_def i32_id)
  with assms(3) show ?thesis by simp
qed

end
