(* ===== verification/Config.thy ===== *)
theory Config
  imports Consumer Publisher
begin

text \<open>
  The configuration of the services from environment variables: the artifact checker
  (\<open>artifact-checker/cmd/artifact-checker/main.go\<close>), the sandbox manager and the submission service
  (their \<open>internal/config/config.go\<close>). \<open>env\<close> is \<open>os.Getenv\<close>, the empty string for an unset variable. A
  panic of \<open>requireenv\<close> and an error of \<open>loadConfig\<close> are values that name the variable.
\<close>

type_synonym environment = "string \<Rightarrow> string"

definition getenv :: "environment \<Rightarrow> string \<Rightarrow> string \<Rightarrow> string" where
  "getenv env key fallback = (if env key \<noteq> [] then env key else fallback)"

section \<open>The artifact checker\<close>

definition splitCSV :: "string \<Rightarrow> string list" where
  "splitCSV val = filter (\<lambda>part. part \<noteq> []) (map trim_space (str_split CHR '','' val))"

datatype config_error = NoBrokersConfigured | NotAnInteger string | MustBeNonNegative string | MustBePositive string

definition go_millisecond :: int where
  "go_millisecond = 1000000"

definition parseDurationMS :: "environment \<Rightarrow> string \<Rightarrow> int \<Rightarrow> config_error + int" where
  "parseDurationMS env key fallback =
     (if env key = [] then Inr fallback
      else case ParseInt (env key) of
        None \<Rightarrow> Inl (NotAnInteger key)
      | Some n \<Rightarrow> if n < 0 then Inl (MustBeNonNegative key) else Inr (i64 (n * go_millisecond)))"

definition parsePositiveInt :: "environment \<Rightarrow> string \<Rightarrow> int \<Rightarrow> config_error + int" where
  "parsePositiveInt env key fallback =
     (if env key = [] then Inr fallback
      else case ParseInt (env key) of
        None \<Rightarrow> Inl (NotAnInteger key)
      | Some n \<Rightarrow> if n < 1 then Inl (MustBePositive key) else Inr n)"

text \<open>
  \<open>url.QueryEscape\<close> and \<open>url.PathEscape\<close> byte by byte: what need not be escaped stays, a blank in a query
  is a plus sign, everything else becomes a percent sign and two hexadecimal digits.
\<close>

definition unreserved :: "char \<Rightarrow> bool" where
  "unreserved c \<longleftrightarrow>
     (let n = (of_char c :: nat) in
      (48 \<le> n \<and> n \<le> 57) \<or> (65 \<le> n \<and> n \<le> 90) \<or> (97 \<le> n \<and> n \<le> 122) \<or> c \<in> set ''-_.~'')"

definition hex_digit :: "nat \<Rightarrow> char" where
  "hex_digit n = ''0123456789ABCDEF'' ! (n mod 16)"

definition percent :: "char \<Rightarrow> string" where
  "percent c = [CHR ''%'', hex_digit (of_char c div 16), hex_digit (of_char c)]"

definition QueryEscape :: "string \<Rightarrow> string" where
  "QueryEscape s = concat (map (\<lambda>c. if unreserved c then [c] else if c = CHR '' '' then ''+'' else percent c) s)"

definition PathEscape :: "string \<Rightarrow> string" where
  "PathEscape s = concat (map (\<lambda>c. if unreserved c \<or> c \<in> set ''$&+=:@'' then [c] else percent c) s)"

definition postgresURLFromEnv :: "environment \<Rightarrow> string" where
  "postgresURLFromEnv env =
     (if env ''POSTGRES_URL'' \<noteq> [] then env ''POSTGRES_URL''
      else
        let user = getenv env ''POSTGRES_USER'' ''iicpc'';
            password = getenv env ''POSTGRES_PASSWORD'' ''iicpc_secret'';
            host = getenv env ''POSTGRES_HOST'' ''postgres'';
            port = getenv env ''POSTGRES_PORT'' ''5432'';
            db = getenv env ''POSTGRES_DB'' ''iicpc_db'' in
        ''postgres://'' @ QueryEscape user @ '':'' @ QueryEscape password @ ''@'' @ host @ '':'' @ port @ ''/'' @
        PathEscape db @ ''?sslmode=disable'')"

definition redisAddrFromEnv :: "environment \<Rightarrow> string" where
  "redisAddrFromEnv env =
     (if env ''REDIS_ADDR'' \<noteq> [] then env ''REDIS_ADDR''
      else getenv env ''REDIS_HOST'' ''redis'' @ '':'' @ getenv env ''REDIS_PORT'' ''6379'')"

record app_config =
  ac_brokers :: "string list"
  ac_consumerGroup :: string
  ac_orderTopic :: string
  ac_metricsTopic :: string
  ac_allowedLateness :: int
  ac_postgresURL :: string
  ac_redisAddr :: string
  ac_maxProcs :: int
  ac_healthPort :: int

text \<open>\<open>numCPU\<close> is \<open>runtime.NumCPU()\<close>; the default lateness is two seconds in nanoseconds.\<close>

definition loadConfig :: "int \<Rightarrow> environment \<Rightarrow> config_error + app_config" where
  "loadConfig numCPU env =
     (let brokers = splitCSV (getenv env ''REDPANDA_BROKERS'' ''redpanda:9092'') in
      if brokers = [] then Inl NoBrokersConfigured
      else case parseDurationMS env ''ALLOWED_LATENESS_MS'' (2000 * go_millisecond) of
        Inl e \<Rightarrow> Inl e
      | Inr allowedLateness \<Rightarrow>
          (case parsePositiveInt env ''ARTIFACT_CHECKER_GOMAXPROCS'' numCPU of
             Inl e \<Rightarrow> Inl e
           | Inr maxProcs \<Rightarrow>
               (case parsePositiveInt env ''HEALTH_PORT'' 8092 of
                  Inl e \<Rightarrow> Inl e
                | Inr healthPort \<Rightarrow>
                    Inr \<lparr>ac_brokers = brokers,
                         ac_consumerGroup = getenv env ''CONSUMER_GROUP'' ''artifact-checker'',
                         ac_orderTopic = getenv env ''ORDER_EVENTS_TOPIC'' ''order_events'',
                         ac_metricsTopic = getenv env ''METRICS_TOPIC'' ''order_metrics'',
                         ac_allowedLateness = allowedLateness, ac_postgresURL = postgresURLFromEnv env,
                         ac_redisAddr = redisAddrFromEnv env, ac_maxProcs = maxProcs, ac_healthPort = healthPort\<rparr>)))"

text \<open>How \<open>main\<close> hands the configuration on; \<open>/\<close> truncates, and the lateness is divided by a microsecond.\<close>

definition consumer_config_of :: "app_config \<Rightarrow> consumer_config" where
  "consumer_config_of c =
     \<lparr>cc_Brokers = ac_brokers c, cc_ConsumerGroup = ac_consumerGroup c, cc_OrderTopic = ac_orderTopic c,
      cc_MetricsTopic = ac_metricsTopic c, cc_EventBuffer = 65536, cc_MetricsBuffer = 65536\<rparr>"

definition publisher_config_of :: "app_config \<Rightarrow> publisher_config" where
  "publisher_config_of c =
     \<lparr>pf_PostgresURL = ac_postgresURL c, pf_RedisAddr = ac_redisAddr c, pf_RedisDB = 0, pf_DBTimeout = 0, pf_RedisTimeout = 0\<rparr>"

definition lateness_micros :: "app_config \<Rightarrow> int" where
  "lateness_micros c = sgn (ac_allowedLateness c) * (\<bar>ac_allowedLateness c\<bar> div 1000)"

section \<open>The sandbox manager\<close>

datatype config_panic = EnvNotSet string

definition requireenv :: "environment \<Rightarrow> string \<Rightarrow> (string \<Rightarrow> config_panic + 'a) \<Rightarrow> config_panic + 'a" where
  "requireenv env key k = (if env key = [] then Inl (EnvNotSet key) else k (env key))"

definition envInt :: "environment \<Rightarrow> string \<Rightarrow> int \<Rightarrow> int" where
  "envInt env key fallback =
     (if env key = [] then fallback else case ParseInt (env key) of None \<Rightarrow> fallback | Some n \<Rightarrow> n)"

definition envStringSlice :: "environment \<Rightarrow> string \<Rightarrow> string list \<Rightarrow> string list" where
  "envStringSlice env key fallback =
     (if env key = [] then fallback else if splitCSV (env key) = [] then fallback else splitCSV (env key))"

record sandbox_config =
  sb_HealthPort :: int
  sb_WorkerCount :: int
  sb_PostgresHost :: string
  sb_PostgresPort :: int
  sb_PostgresUser :: string
  sb_PostgresPassword :: string
  sb_PostgresDB :: string
  sb_RedisHost :: string
  sb_RedisPort :: int
  sb_MinIOEndpoint :: string
  sb_MinIOAccessKey :: string
  sb_MinIOSecretKey :: string
  sb_MinIOBucket :: string
  sb_SandboxNetwork :: string
  sb_DefaultNumBots :: int
  sb_DefaultDurationSecs :: int
  sb_FleetPoolURLs :: "string list"
  sb_CorrectnessSeed :: int
  sb_CorrectnessDurationSecs :: int
  sb_MaxExtractSizeMB :: int
  sb_MaxFileSizeMB :: int
  sb_MaxFileCount :: int
  sb_StartupTimeoutSecs :: int

text \<open>The fields are evaluated in order, so the first variable that is missing is the one in the panic.\<close>

definition sandbox_Load :: "environment \<Rightarrow> config_panic + sandbox_config" where
  "sandbox_Load env =
     requireenv env ''POSTGRES_HOST'' (\<lambda>host.
     requireenv env ''POSTGRES_USER'' (\<lambda>user.
     requireenv env ''POSTGRES_PASSWORD'' (\<lambda>password.
     requireenv env ''POSTGRES_DB'' (\<lambda>db.
     requireenv env ''MINIO_HOST'' (\<lambda>minio.
     requireenv env ''MINIO_ROOT_USER'' (\<lambda>access.
     requireenv env ''MINIO_ROOT_PASSWORD'' (\<lambda>secret.
       Inr \<lparr>sb_HealthPort = envInt env ''HEALTH_PORT'' 8081, sb_WorkerCount = envInt env ''CONFIG_WORKER_COUNT'' 8,
            sb_PostgresHost = host, sb_PostgresPort = envInt env ''POSTGRES_PORT'' 5432, sb_PostgresUser = user,
            sb_PostgresPassword = password, sb_PostgresDB = db, sb_RedisHost = getenv env ''REDIS_HOST'' ''redis'',
            sb_RedisPort = envInt env ''REDIS_PORT'' 6379,
            sb_MinIOEndpoint = minio @ '':'' @ getenv env ''MINIO_PORT'' ''9000'', sb_MinIOAccessKey = access,
            sb_MinIOSecretKey = secret, sb_MinIOBucket = getenv env ''MINIO_BUCKET'' ''submissions'',
            sb_SandboxNetwork = getenv env ''SANDBOX_NETWORK'' ''sandbox-net'',
            sb_DefaultNumBots = envInt env ''DEFAULT_NUM_BOTS'' 100,
            sb_DefaultDurationSecs = envInt env ''DEFAULT_DURATION_SECS'' 60,
            sb_FleetPoolURLs = envStringSlice env ''FLEET_POOL_URLS'' [''http://bot-fleet:7070''],
            sb_CorrectnessSeed = envInt env ''CORRECTNESS_SEED'' 42,
            sb_CorrectnessDurationSecs = envInt env ''CORRECTNESS_DURATION_SECS'' 20,
            sb_MaxExtractSizeMB = envInt env ''MAX_EXTRACT_SIZE_MB'' 200,
            sb_MaxFileSizeMB = envInt env ''MAX_FILE_SIZE_MB'' 50, sb_MaxFileCount = envInt env ''MAX_FILE_COUNT'' 500,
            sb_StartupTimeoutSecs = envInt env ''STARTUP_TIMEOUT_SECS'' 15\<rparr>)))))))"

definition dsn_of :: "string \<Rightarrow> string \<Rightarrow> string \<Rightarrow> int \<Rightarrow> string \<Rightarrow> string" where
  "dsn_of user password host port db =
     ''postgres://'' @ user @ '':'' @ password @ ''@'' @ host @ '':'' @ fmt_d port @ ''/'' @ db"

definition sandbox_DSN :: "sandbox_config \<Rightarrow> string" where
  "sandbox_DSN c = dsn_of (sb_PostgresUser c) (sb_PostgresPassword c) (sb_PostgresHost c) (sb_PostgresPort c) (sb_PostgresDB c)"

section \<open>The submission service\<close>

record submission_config =
  sc_Port :: string
  sc_PostgresHost :: string
  sc_PostgresPort :: int
  sc_PostgresUser :: string
  sc_PostgresPassword :: string
  sc_PostgresDB :: string
  sc_RedisHost :: string
  sc_RedisPort :: int
  sc_MinIOEndpoint :: string
  sc_MinIOAccessKey :: string
  sc_MinIOSecretKey :: string
  sc_MinIOBucket :: string
  sc_MinIOUseSSL :: bool

text \<open>\<open>n, _ := strconv.Atoi(s)\<close>: on a syntax error the result is zero, out of range it saturates.\<close>

definition atoi_ignoring_error :: "string \<Rightarrow> int" where
  "atoi_ignoring_error s =
     (case ParseInt s of
        Some n \<Rightarrow> n
      | None \<Rightarrow>
          let t = (case s of c # cs \<Rightarrow> if c = CHR ''-'' \<or> c = CHR ''+'' then cs else s | [] \<Rightarrow> []) in
          if parse_nat t = None then 0 else if has_prefix s ''-'' then - (2 ^ 63) else 2 ^ 63 - 1)"

definition submission_Load :: "environment \<Rightarrow> config_panic + submission_config" where
  "submission_Load env =
     (let pgPort = atoi_ignoring_error (getenv env ''POSTGRES_PORT'' ''5432'');
          redisPort = atoi_ignoring_error (getenv env ''REDIS_PORT'' ''6379'');
          minioPort = getenv env ''MINIO_PORT'' ''9000'' in
      requireenv env ''POSTGRES_HOST'' (\<lambda>host.
      requireenv env ''POSTGRES_USER'' (\<lambda>user.
      requireenv env ''POSTGRES_PASSWORD'' (\<lambda>password.
      requireenv env ''POSTGRES_DB'' (\<lambda>db.
      requireenv env ''MINIO_HOST'' (\<lambda>minio.
      requireenv env ''MINIO_ROOT_USER'' (\<lambda>access.
      requireenv env ''MINIO_ROOT_PASSWORD'' (\<lambda>secret.
        Inr \<lparr>sc_Port = getenv env ''PORT'' ''8080'', sc_PostgresHost = host, sc_PostgresPort = pgPort,
             sc_PostgresUser = user, sc_PostgresPassword = password, sc_PostgresDB = db,
             sc_RedisHost = getenv env ''REDIS_HOST'' ''redis'', sc_RedisPort = redisPort,
             sc_MinIOEndpoint = minio @ '':'' @ minioPort, sc_MinIOAccessKey = access, sc_MinIOSecretKey = secret,
             sc_MinIOBucket = getenv env ''MINIO_BUCKET'' ''submissions'', sc_MinIOUseSSL = False\<rparr>))))))))"

definition submission_DSN :: "submission_config \<Rightarrow> string" where
  "submission_DSN c = dsn_of (sc_PostgresUser c) (sc_PostgresPassword c) (sc_PostgresHost c) (sc_PostgresPort c) (sc_PostgresDB c)"

section \<open>What a configuration that loads guarantees\<close>

lemma splitCSV_parts: "part \<in> set (splitCSV s) \<Longrightarrow> part \<noteq> []"
  by (simp add: splitCSV_def)

lemma getenv_nonempty: "fallback \<noteq> [] \<Longrightarrow> getenv env key fallback \<noteq> []"
  by (simp add: getenv_def)

text \<open>The overflow of \<open>parseDurationMS\<close>: within 292 years the value is exact, beyond it wraps around.\<close>

lemma parseDurationMS_exact:
  assumes "env key = fmt_d n" and "0 \<le> n" and "n \<le> 9223372036854"
  shows "parseDurationMS env key fallback = Inr (n * 1000000)"
proof -
  have "in_i64 n" "in_i64 (n * 1000000)" using assms(2,3) by (simp_all add: in_i64_def)
  moreover have "env key \<noteq> []" using assms(1,2) digits_of_head[of "nat n"] by (auto simp: fmt_d_def)
  ultimately show ?thesis
    using assms(1,2) by (simp add: parseDurationMS_def ParseInt_fmt_d go_millisecond_def i64_id)
qed

lemma parseDurationMS_wraps:
  assumes "env key = fmt_d 9223372036855"
  shows "parseDurationMS env key fallback = Inr (- 9223372036854551616)"
proof -
  have "in_i64 9223372036855" by (simp add: in_i64_def)
  moreover have "env key \<noteq> []" using assms digits_of_head[of "nat 9223372036855"] by (auto simp: fmt_d_def)
  ultimately show ?thesis
    using assms by (simp add: parseDurationMS_def ParseInt_fmt_d go_millisecond_def i64_def)
qed

lemma loadConfig_cases:
  assumes "loadConfig numCPU env = Inr c"
  obtains lateness where "ac_brokers c = splitCSV (getenv env ''REDPANDA_BROKERS'' ''redpanda:9092'')" "ac_brokers c \<noteq> []"
    "parseDurationMS env ''ALLOWED_LATENESS_MS'' (2000 * go_millisecond) = Inr lateness" "ac_allowedLateness c = lateness"
    "parsePositiveInt env ''ARTIFACT_CHECKER_GOMAXPROCS'' numCPU = Inr (ac_maxProcs c)"
    "parsePositiveInt env ''HEALTH_PORT'' 8092 = Inr (ac_healthPort c)"
    "ac_consumerGroup c = getenv env ''CONSUMER_GROUP'' ''artifact-checker''"
    "ac_orderTopic c = getenv env ''ORDER_EVENTS_TOPIC'' ''order_events''"
    "ac_postgresURL c = postgresURLFromEnv env" "ac_redisAddr c = redisAddrFromEnv env"
  using assms by (auto simp: loadConfig_def Let_def split: if_splits sum.splits)

lemma parsePositiveInt_positive: "parsePositiveInt env key fallback = Inr n \<Longrightarrow> 1 \<le> fallback \<Longrightarrow> 1 \<le> n"
  by (auto simp: parsePositiveInt_def split: if_splits option.splits)

lemma postgresURL_nonempty: "postgresURLFromEnv env \<noteq> []"
  by (simp add: postgresURLFromEnv_def Let_def)

lemma redisAddr_nonempty: "redisAddrFromEnv env \<noteq> []"
  by (simp add: redisAddrFromEnv_def)

lemma loaded_consumer:
  assumes "loadConfig numCPU env = Inr c"
  shows "\<exists>svc. New_consumer True (consumer_config_of c) = Inr svc \<and> 0 < cs_eventCap svc \<and> 0 < cs_metricsCap svc \<and>
      cs_orderTopic svc \<noteq> [] \<and> cs_orderTopic svc \<in> set (cs_topics svc)"
proof -
  have "ac_brokers c \<noteq> []" "ac_consumerGroup c \<noteq> []" "ac_orderTopic c \<noteq> []"
    using assms by (rule loadConfig_cases, simp_all add: getenv_def)+
  then show ?thesis by (simp add: New_consumer_def consumer_config_of_def Let_def uniqueTopics_def)
qed

lemma loaded_publisher:
  assumes "loadConfig numCPU env = Inr c"
  shows "\<exists>pc. NewPublisher True True (publisher_config_of c) = Inr pc \<and> 0 < pf_DBTimeout pc \<and> 0 < pf_RedisTimeout pc"
  using assms by (rule loadConfig_cases)
    (simp add: NewPublisher_def publisher_config_of_def Let_def defaultTimeout_def postgresURL_nonempty redisAddr_nonempty)

text \<open>
  C40. A configuration that loads starts the pipeline: when \<open>loadConfig\<close> accepts the environment, the
  consumer and the publisher accept the configuration it hands them, with non-empty brokers and buffers
  and timeouts that are positive, so that only the outside (client, database, Redis) can still refuse;
  the number of processors and the health port are positive, and a lateness set to at most
  9223372036854 milliseconds reaches the watermark router unchanged in microseconds.
\<close>

theorem checker_config_starts:
  assumes "loadConfig numCPU env = Inr c" and "1 \<le> numCPU"
  shows "(\<exists>svc. New_consumer True (consumer_config_of c) = Inr svc \<and> 0 < cs_eventCap svc \<and> 0 < cs_metricsCap svc \<and>
      cs_orderTopic svc \<noteq> [] \<and> cs_orderTopic svc \<in> set (cs_topics svc)) \<and>
    (\<exists>pc. NewPublisher True True (publisher_config_of c) = Inr pc \<and> 0 < pf_DBTimeout pc \<and> 0 < pf_RedisTimeout pc) \<and>
    (\<forall>b \<in> set (ac_brokers c). b \<noteq> []) \<and> 1 \<le> ac_maxProcs c \<and> 1 \<le> ac_healthPort c \<and>
    (\<forall>n. env ''ALLOWED_LATENESS_MS'' = fmt_d n \<and> 0 \<le> n \<and> n \<le> 9223372036854 \<longrightarrow> lateness_micros c = n * 1000)"
proof -
  from assms(1) obtain lateness where c: "ac_brokers c = splitCSV (getenv env ''REDPANDA_BROKERS'' ''redpanda:9092'')"
    "ac_brokers c \<noteq> []" "parseDurationMS env ''ALLOWED_LATENESS_MS'' (2000 * go_millisecond) = Inr lateness"
    "ac_allowedLateness c = lateness" "parsePositiveInt env ''ARTIFACT_CHECKER_GOMAXPROCS'' numCPU = Inr (ac_maxProcs c)"
    "parsePositiveInt env ''HEALTH_PORT'' 8092 = Inr (ac_healthPort c)"
    "ac_consumerGroup c = getenv env ''CONSUMER_GROUP'' ''artifact-checker''"
    "ac_orderTopic c = getenv env ''ORDER_EVENTS_TOPIC'' ''order_events''"
    "ac_postgresURL c = postgresURLFromEnv env" "ac_redisAddr c = redisAddrFromEnv env"
    by (rule loadConfig_cases)
  note loaded_consumer[OF assms(1)] loaded_publisher[OF assms(1)]
  moreover have "\<forall>b \<in> set (ac_brokers c). b \<noteq> []" using c(1) splitCSV_parts by auto
  moreover have "1 \<le> ac_maxProcs c" "1 \<le> ac_healthPort c"
    using parsePositiveInt_positive c(5,6) assms(2) by auto
  moreover have "lateness_micros c = n * 1000"
    if "env ''ALLOWED_LATENESS_MS'' = fmt_d n" "0 \<le> n" "n \<le> 9223372036854" for n
  proof -
    have "ac_allowedLateness c = n * 1000000" using parseDurationMS_exact[of env "''ALLOWED_LATENESS_MS''" n] that c(3,4) by simp
    with that(2) show ?thesis by (cases "n = 0") (simp_all add: lateness_micros_def)
  qed
  ultimately show ?thesis by blast
qed

definition sample_environment :: environment where
  "sample_environment key =
     (if key = ''REDPANDA_BROKERS'' then '' a:1,, b:2'' else if key = ''ALLOWED_LATENESS_MS'' then ''1500'' else [])"

lemma sample_loads: "case loadConfig 4 sample_environment of Inl e \<Rightarrow> False | Inr c \<Rightarrow>
    ac_brokers c = [''a:1'', ''b:2''] \<and> ac_allowedLateness c = 1500000000"
  by code_simp

theorem checker_config_starts_witness:
  "\<exists>c svc. loadConfig 4 sample_environment = Inr c \<and> New_consumer True (consumer_config_of c) = Inr svc \<and>
     ac_brokers c = [''a:1'', ''b:2'']"
proof -
  obtain c where c: "loadConfig 4 sample_environment = Inr c" "ac_brokers c = [''a:1'', ''b:2'']"
    using sample_loads by (auto split: sum.splits)
  with checker_config_starts[OF c(1)] show ?thesis by auto
qed

end
