(* ===== verification/Submissions.thy ===== *)
theory Submissions
  imports Prelude
begin

text \<open>
  The table \<open>submissions\<close> and the statements that the two services run on it: the submission service
  inserts and reads rows (\<open>submission-service/internal/db/db.go\<close>), the sandbox manager moves a row from
  status to status (\<open>sandbox-manager/internal/db/db.go\<close>). The constraint on the status is the one of
  \<open>db/init.sql\<close>. Whether the database answers at all is a flag of every operation.
\<close>

section \<open>Rows\<close>

record sub_row =
  sr_team :: string
  sr_language :: string
  sr_status :: string
  sr_storageKey :: string
  sr_containerID :: "string option"
  sr_endpointURL :: "string option"
  sr_errorMessage :: "string option"
  sr_exitCode :: "int option"

type_synonym sub_table = "string \<Rightarrow> sub_row option"

datatype db_error = DbUnavailable | CheckViolated | DuplicateKey | BadParameter

text \<open>\<open>CHECK (status IN (...))\<close> of the table.\<close>

definition submission_statuses :: "string list" where
  "submission_statuses =
     [''PENDING'', ''BUILDING'', ''READY'', ''RUNNING'', ''SUCCESS'', ''FAILED_LOGIC'', ''FAILED_RESOURCE'',
      ''FAILED_STARTUP'', ''FAILED_SYSTEM'']"

section \<open>The submission service\<close>

definition InsertSubmission ::
  "bool \<Rightarrow> string \<Rightarrow> string \<Rightarrow> string \<Rightarrow> string \<Rightarrow> sub_table \<Rightarrow> db_error + sub_table" where
  "InsertSubmission db_ok sid teamID language storageKey tbl =
     (if \<not> db_ok then Inl DbUnavailable
      else if tbl sid \<noteq> None then Inl DuplicateKey
      else Inr (tbl(sid \<mapsto>
        \<lparr>sr_team = teamID, sr_language = language, sr_status = ''PENDING'', sr_storageKey = storageKey,
         sr_containerID = None, sr_endpointURL = None, sr_errorMessage = None, sr_exitCode = None\<rparr>)))"

text \<open>
  \<open>SELECT ... WHERE id = $1 AND team_id = $2\<close>; the map of the answer has the endpoint and the error only
  when they are not null.
\<close>

definition sql_field :: "string \<Rightarrow> string option \<Rightarrow> (string \<times> string) list" where
  "sql_field k v = (case v of None \<Rightarrow> [] | Some s \<Rightarrow> [(k, s)])"

definition answer_of_row :: "string \<Rightarrow> sub_row \<Rightarrow> (string \<times> string) list" where
  "answer_of_row sid r =
     [(''id'', sid), (''status'', sr_status r)] @ sql_field ''endpoint_url'' (sr_endpointURL r) @
     sql_field ''error'' (sr_errorMessage r)"

definition GetTeamSubmission ::
  "bool \<Rightarrow> string \<Rightarrow> string \<Rightarrow> sub_table \<Rightarrow> db_error + (string \<times> string) list option" where
  "GetTeamSubmission db_ok sid teamID tbl =
     (if \<not> db_ok then Inl DbUnavailable
      else Inr (case tbl sid of
          None \<Rightarrow> None
        | Some r \<Rightarrow> if sr_team r = teamID then Some (answer_of_row sid r) else None))"

section \<open>The sandbox manager\<close>

record manager_submission =
  ms_ID :: string
  ms_TeamID :: string
  ms_Language :: string
  ms_StorageKey :: string
  ms_Status :: string

definition GetSubmission :: "bool \<Rightarrow> string \<Rightarrow> sub_table \<Rightarrow> db_error + manager_submission option" where
  "GetSubmission db_ok sid tbl =
     (if \<not> db_ok then Inl DbUnavailable
      else Inr (map_option (\<lambda>r. \<lparr>ms_ID = sid, ms_TeamID = sr_team r, ms_Language = sr_language r,
        ms_StorageKey = sr_storageKey r, ms_Status = sr_status r\<rparr>) (tbl sid)))"

text \<open>The values that \<open>extra\<close> can carry, and the columns they fit.\<close>

datatype sql_value = SqlText string | SqlNumber int

type_synonym extra_fields = "(string, sql_value) gomap"

definition hasKeys :: "extra_fields \<Rightarrow> string list \<Rightarrow> bool" where
  "hasKeys m keys = list_all (\<lambda>k. gm_get m k \<noteq> None) keys"

definition text_param :: "extra_fields \<Rightarrow> string \<Rightarrow> string option" where
  "text_param m k = (case gm_get m k of Some (SqlText s) \<Rightarrow> Some s | _ \<Rightarrow> None)"

definition number_param :: "extra_fields \<Rightarrow> string \<Rightarrow> int option" where
  "number_param m k = (case gm_get m k of Some (SqlNumber n) \<Rightarrow> Some n | _ \<Rightarrow> None)"

text \<open>
  The five statements of \<open>UpdateStatus\<close> on the row they select; a parameter of the wrong type makes the
  statement fail, and so does a status outside the constraint.
\<close>

definition update_row :: "string \<Rightarrow> extra_fields \<Rightarrow> sub_row \<Rightarrow> db_error + sub_row" where
  "update_row status extra r =
     (if status \<notin> set submission_statuses then Inl CheckViolated
      else if extra = [] then Inr (r\<lparr>sr_status := status\<rparr>)
      else if hasKeys extra [''container_id'', ''endpoint_url''] then
        (case (text_param extra ''container_id'', text_param extra ''endpoint_url'') of
           (Some c, Some u) \<Rightarrow> Inr (r\<lparr>sr_status := status, sr_containerID := Some c, sr_endpointURL := Some u\<rparr>)
         | _ \<Rightarrow> Inl BadParameter)
      else if hasKeys extra [''error_message'', ''exit_code''] then
        (case (text_param extra ''error_message'', number_param extra ''exit_code'') of
           (Some m, Some n) \<Rightarrow> Inr (r\<lparr>sr_status := status, sr_errorMessage := Some m, sr_exitCode := Some n\<rparr>)
         | _ \<Rightarrow> Inl BadParameter)
      else if hasKeys extra [''error_message''] then
        (case text_param extra ''error_message'' of
           Some m \<Rightarrow> Inr (r\<lparr>sr_status := status, sr_errorMessage := Some m\<rparr>)
         | None \<Rightarrow> Inl BadParameter)
      else Inr (r\<lparr>sr_status := status\<rparr>))"

definition UpdateStatus :: "bool \<Rightarrow> string \<Rightarrow> string \<Rightarrow> extra_fields \<Rightarrow> sub_table \<Rightarrow> db_error + sub_table" where
  "UpdateStatus db_ok sid status extra tbl =
     (if \<not> db_ok then Inl DbUnavailable
      else case tbl sid of
        None \<Rightarrow> Inr tbl
      | Some r \<Rightarrow> (case update_row status extra r of Inl e \<Rightarrow> Inl e | Inr r' \<Rightarrow> Inr (tbl(sid \<mapsto> r'))))"

section \<open>What the statements leave alone\<close>

lemma update_row_keeps:
  "update_row status extra r = Inr r' \<Longrightarrow> sr_team r' = sr_team r \<and> sr_language r' = sr_language r \<and>
     sr_storageKey r' = sr_storageKey r \<and> sr_status r' = status \<and> status \<in> set submission_statuses"
  by (auto simp: update_row_def split: if_splits option.splits)

lemma UpdateStatus_other: "UpdateStatus db_ok sid status extra tbl = Inr tbl' \<Longrightarrow> x \<noteq> sid \<Longrightarrow> tbl' x = tbl x"
  by (auto simp: UpdateStatus_def split: if_splits option.splits sum.splits)

definition valid_table :: "sub_table \<Rightarrow> bool" where
  "valid_table tbl \<longleftrightarrow> (\<forall>sid r. tbl sid = Some r \<longrightarrow> sr_status r \<in> set submission_statuses)"

lemma pending_allowed: "''PENDING'' \<in> set submission_statuses"
  by (simp add: submission_statuses_def)

lemma InsertSubmission_valid [inv_intro]:
  "InsertSubmission db_ok sid t l k tbl = Inr tbl' \<Longrightarrow> valid_table tbl \<Longrightarrow> valid_table tbl'"
  by (auto simp: InsertSubmission_def valid_table_def pending_allowed split: if_splits)

lemma UpdateStatus_valid [inv_intro]:
  "UpdateStatus db_ok sid status extra tbl = Inr tbl' \<Longrightarrow> valid_table tbl \<Longrightarrow> valid_table tbl'"
  by (auto simp: UpdateStatus_def valid_table_def dest!: update_row_keeps split: if_splits option.splits sum.splits)

text \<open>The error of an update is ignored everywhere in the manager: the table then stays as it is.\<close>

definition try_update :: "bool \<Rightarrow> string \<Rightarrow> string \<Rightarrow> extra_fields \<Rightarrow> sub_table \<Rightarrow> sub_table" where
  "try_update db_ok sid status extra tbl =
     (case UpdateStatus db_ok sid status extra tbl of Inl e \<Rightarrow> tbl | Inr tbl' \<Rightarrow> tbl')"

lemma try_update_other [simp]: "x \<noteq> sid \<Longrightarrow> try_update db_ok sid status extra tbl x = tbl x"
  by (auto simp: try_update_def dest: UpdateStatus_other split: sum.splits)

lemma try_update_valid [inv_intro]: "valid_table tbl \<Longrightarrow> valid_table (try_update db_ok sid status extra tbl)"
  by (auto simp: try_update_def intro: UpdateStatus_valid split: sum.splits)

lemma try_update_keeps:
  "tbl sid = Some r \<Longrightarrow> \<exists>r'. try_update db_ok sid status extra tbl sid = Some r' \<and> sr_team r' = sr_team r \<and>
     sr_language r' = sr_language r \<and> sr_storageKey r' = sr_storageKey r \<and> sr_status r' \<in> {sr_status r, status}"
  by (auto simp: try_update_def UpdateStatus_def dest!: update_row_keeps split: if_splits option.splits sum.splits)

lemma try_update_None [simp]: "tbl sid = None \<Longrightarrow> try_update db_ok sid status extra tbl = tbl"
  by (simp add: try_update_def UpdateStatus_def)

end
