(* ===== verification/Docker.thy ===== *)
theory Docker
  imports GoStrings Submissions
begin

text \<open>
  The Docker client of the sandbox manager (\<open>sandbox-manager/internal/docker/docker.go\<close>): the generated
  Dockerfiles, the build with its scan of the daemon's output, and the start of a sandbox with its
  limits, the inspection and the wait for its port. The daemon, the clock and the network are answers
  given from outside; every command that is sent to the daemon is recorded.
\<close>

section \<open>Constants and helpers\<close>

definition StartupTimeout :: int where
  "StartupTimeout = 15 * go_second"

definition SandboxPort :: int where
  "SandboxPort = 9999"

definition min_int :: "int \<Rightarrow> int \<Rightarrow> int" where
  "min_int a b = (if a < b then a else b)"

text \<open>
  \<open>waitForPort\<close>: \<open>now i\<close> is the reading of the clock before attempt \<open>i\<close>, \<open>dial i\<close> says that the attempt
  connects. The loop need not end for every clock, so it is a partial function.
\<close>

partial_function (option) wait_loop :: "(nat \<Rightarrow> int) \<Rightarrow> (nat \<Rightarrow> bool) \<Rightarrow> int \<Rightarrow> nat \<Rightarrow> bool option" where
  "wait_loop now dial deadline i =
     (if now i < deadline then if dial i then Some True else wait_loop now dial deadline (Suc i) else Some False)"

definition waitForPort :: "int \<Rightarrow> (nat \<Rightarrow> int) \<Rightarrow> (nat \<Rightarrow> bool) \<Rightarrow> int \<Rightarrow> bool option" where
  "waitForPort start now dial timeout = wait_loop now dial (start + timeout) 0"

text \<open>\<open>scanBuildOutput\<close> on what the JSON decoder finds: messages with their error field, the end, or junk.\<close>

datatype decoded = DecMessage string | DecEOF | DecInvalid

fun scanBuildOutput :: "decoded list \<Rightarrow> string option" where
  "scanBuildOutput [] = None"
| "scanBuildOutput (DecEOF # ds) = None"
| "scanBuildOutput (DecInvalid # ds) = None"
| "scanBuildOutput (DecMessage e # ds) =
     (if e \<noteq> [] then Some (''docker build error: '' @ e) else scanBuildOutput ds)"

section \<open>Dockerfiles\<close>

definition newline :: char where
  "newline = CHR 0x0A"

definition cont :: "string \<Rightarrow> string" where
  "cont l = l @ [CHR 0x20, CHR 0x5C]"

definition file_of_lines :: "string list \<Rightarrow> string" where
  "file_of_lines ls = concat (map (\<lambda>l. l @ [newline]) ls)"

definition renderDockerfile :: "string \<Rightarrow> string" where
  "renderDockerfile language =
     (if language = ''cpp'' then file_of_lines
        [''FROM ubuntu:22.04'', ''ENV DEBIAN_FRONTEND=noninteractive'',
         cont ''RUN apt-get update && apt-get install -y --no-install-recommends'',
         cont ''    g++ cmake make libboost-all-dev'', ''    && rm -rf /var/lib/apt/lists/*'', ''WORKDIR /app'',
         ''COPY src/ /app/'', cont ''RUN cmake -S . -B build'', cont ''    && cmake --build build --parallel $(nproc)'',
         cont ''    && test -f build/server'',
         ''    || (echo \"ERROR: CMake build must produce a binary named 'server'\" >&2 && exit 1)'',
         ''EXPOSE 9999'', ''CMD [\"./build/server\"]'']
      else if language = ''rust'' then file_of_lines
        [''FROM rust:1.78-slim'', ''WORKDIR /app'', ''COPY src/ /app/'', cont ''RUN cargo build --release'',
         cont ''    && test -f target/release/server'',
         ''    || (echo \"ERROR: Cargo build must produce a binary named 'server'\" >&2 && exit 1)'',
         ''EXPOSE 9999'', ''CMD [\"./target/release/server\"]'']
      else if language = ''go'' then file_of_lines
        [''FROM golang:1.22-bookworm'', ''WORKDIR /app'', ''COPY src/ /app/'', cont ''RUN go build -o server .'',
         cont ''    && test -f server'',
         ''    || (echo \"ERROR: Go build must produce a binary named 'server'\" >&2 && exit 1)'',
         ''EXPOSE 9999'', ''CMD [\"./server\"]'']
      else [])"

section \<open>Building an image\<close>

text \<open>
  The file system accepts the Dockerfile or not; the daemon reports success or an error, with its output
  as bytes and as the decoder sees it. The error text keeps the last 512 bytes of the output after an
  ellipsis.
\<close>

record build_daemon =
  bd_written :: "string option"
  bd_error :: "string option"
  bd_output :: string
  bd_decoded :: "decoded list"

definition ellipsis :: string where
  "ellipsis = [CHR 0xE2, CHR 0x80, CHR 0xA6]"

definition output_tail :: "string \<Rightarrow> string" where
  "output_tail out = (if length out > 512 then ellipsis @ drop (length out - 512) out else out)"

text \<open>Result: the Dockerfile that was written, if any, and the error, if any.\<close>

definition BuildImage :: "build_daemon \<Rightarrow> string \<Rightarrow> string option \<times> string option" where
  "BuildImage d language =
     (case bd_written d of
        Some e \<Rightarrow> (None, Some (''write dockerfile: '' @ e))
      | None \<Rightarrow>
          (Some (renderDockerfile language),
           case bd_error d of
             Some e \<Rightarrow> Some (''docker build: '' @ e @ [newline] @ ''output: '' @ output_tail (bd_output d))
           | None \<Rightarrow> scanBuildOutput (bd_decoded d)))"

section \<open>Running a sandbox\<close>

record container_options =
  co_Name :: string
  co_Image :: string
  co_NetworkMode :: string
  co_Memory :: int
  co_NanoCPUs :: int
  co_PidsLimit :: int
  co_CapDrop :: "string list"
  co_SecurityOpt :: "string list"

datatype daemon_command =
    CmdRemove string
  | CmdCreate container_options
  | CmdStart string
  | CmdInspect string
  | CmdKill string
  | CmdStop string int
  | CmdRemoveImage string

record inspection =
  in_Running :: bool
  in_ExitCode :: int
  in_Networks :: "(string, string) gomap option"

record sandbox_daemon =
  sd_create :: "string + string"
  sd_start :: "string option"
  sd_inspect :: "string + inspection"
  sd_began :: int
  sd_now :: "nat \<Rightarrow> int"
  sd_dial :: "string \<Rightarrow> nat \<Rightarrow> bool"

record sandbox_result =
  sx_ContainerID :: string
  sx_EndpointURL :: string
  sx_TargetHost :: string

definition container_name :: "string \<Rightarrow> string" where
  "container_name sid = ''sandbox-'' @ sid"

definition sandbox_options :: "string \<Rightarrow> string \<Rightarrow> string \<Rightarrow> container_options" where
  "sandbox_options imageTag sid network =
     \<lparr>co_Name = container_name sid, co_Image = imageTag, co_NetworkMode = network, co_Memory = 512 * 1024 * 1024,
      co_NanoCPUs = 1000000000, co_PidsLimit = 1000, co_CapDrop = [''ALL''],
      co_SecurityOpt = [''no-new-privileges:true'']\<rparr>"

definition target_host :: "string \<Rightarrow> string \<Rightarrow> inspection \<Rightarrow> string" where
  "target_host sid network i =
     (case in_Networks i of
        None \<Rightarrow> container_name sid
      | Some nets \<Rightarrow>
          (case gm_get nets network of
             Some ip \<Rightarrow> if ip \<noteq> [] then ip else container_name sid
           | None \<Rightarrow> container_name sid))"

text \<open>
  The first command removes a stale container; its answer is ignored, as are those of the last two. The
  result is \<open>None\<close> when the wait for the port does not end.
\<close>

definition RunSandbox ::
  "sandbox_daemon \<Rightarrow> string \<Rightarrow> string \<Rightarrow> string \<Rightarrow> (daemon_command list \<times> (string + sandbox_result)) option" where
  "RunSandbox d imageTag sid network =
     (let c0 = [CmdRemove (container_name sid), CmdCreate (sandbox_options imageTag sid network)] in
      case sd_create d of
        Inl e \<Rightarrow> Some (c0, Inl (''container create: '' @ e))
      | Inr cid \<Rightarrow>
          (case sd_start d of
             Some e \<Rightarrow> Some (c0 @ [CmdStart cid], Inl (''container start: '' @ e))
           | None \<Rightarrow>
               let c1 = c0 @ [CmdStart cid, CmdInspect cid] in
               (case sd_inspect d of
                  Inl e \<Rightarrow> Some (c1, Inl (''container inspect: '' @ e))
                | Inr i \<Rightarrow>
                    if \<not> in_Running i then
                      Some (c1, Inl (''container exited immediately with code '' @ fmt_d (in_ExitCode i)))
                    else
                      let host = target_host sid network i in
                      (case waitForPort (sd_began d) (sd_now d) (sd_dial d host) StartupTimeout of
                         None \<Rightarrow> None
                       | Some False \<Rightarrow>
                           Some (c1 @ [CmdKill cid, CmdRemove cid],
                             Inl (''sandbox did not bind to port '' @ fmt_d SandboxPort @ '' within 15s''))
                       | Some True \<Rightarrow>
                           Some (c1, Inr \<lparr>sx_ContainerID = cid,
                             sx_EndpointURL = ''http://'' @ container_name sid @ '':'' @ fmt_d SandboxPort,
                             sx_TargetHost = host\<rparr>)))))"

text \<open>\<open>RemoveContainer\<close>: all three commands are sent, whatever the daemon answers.\<close>

definition RemoveContainer :: "string \<Rightarrow> string \<Rightarrow> daemon_command list" where
  "RemoveContainer containerID imageTag =
     [CmdStop containerID 5, CmdRemove containerID] @ (if imageTag \<noteq> [] then [CmdRemoveImage imageTag] else [])"

section \<open>The wait for the port ends\<close>

text \<open>
  What \<open>time.Sleep\<close> documents: it pauses for at least the given duration, here half a second after every
  failed attempt.
\<close>

definition sleeps_long_enough :: "int \<Rightarrow> (nat \<Rightarrow> int) \<Rightarrow> bool" where
  "sleeps_long_enough start now \<longleftrightarrow> start \<le> now 0 \<and> (\<forall>i. now i + 500000000 \<le> now (Suc i))"

lemma sleeps_bound: "sleeps_long_enough start now \<Longrightarrow> start + int i * 500000000 \<le> now i"
proof (induction i)
  case (Suc i)
  then have "now i + 500000000 \<le> now (Suc i)" by (simp add: sleeps_long_enough_def)
  with Suc show ?case by simp
qed (simp add: sleeps_long_enough_def)

lemma sleeps_mono: "sleeps_long_enough start now \<Longrightarrow> i \<le> j \<Longrightarrow> now i \<le> now j"
proof (induction j)
  case (Suc j)
  then have "now j + 500000000 \<le> now (Suc j)" by (simp add: sleeps_long_enough_def)
  with Suc show ?case by (cases "i = Suc j") auto
qed simp

lemma wait_loop_result:
  assumes "sleeps_long_enough start now" and "deadline \<le> start + int n * 500000000" and "i \<le> n"
  shows "wait_loop now dial deadline i = Some (\<exists>j\<ge>i. j < n \<and> now j < deadline \<and> dial j)"
  using assms(3)
proof (induction "n - i" arbitrary: i)
  case 0
  with assms sleeps_bound[of start now i] have "\<not> now i < deadline" by simp
  with 0 show ?case by (subst wait_loop.simps) auto
next
  case (Suc k)
  then have "k = n - Suc i" "Suc i \<le> n" by simp_all
  note rest = Suc.hyps(1)[OF this]
  show ?case
  proof (cases "now i < deadline \<and> \<not> dial i")
    case True
    then have "(\<exists>j\<ge>Suc i. j < n \<and> now j < deadline \<and> dial j) \<longleftrightarrow> (\<exists>j\<ge>i. j < n \<and> now j < deadline \<and> dial j)"
      by (metis Suc_leD Suc_leI le_neq_implies_less)
    with True rest show ?thesis by (subst wait_loop.simps) simp
  next
    case False
    show ?thesis
    proof (cases "now i < deadline")
      case True
      with False have "dial i" by simp
      with True \<open>Suc i \<le> n\<close> have "\<exists>j\<ge>i. j < n \<and> now j < deadline \<and> dial j" by (intro exI[of _ i]) simp
      with True \<open>dial i\<close> show ?thesis by (subst wait_loop.simps) simp
    next
      case late: False
      then have "\<not> now j < deadline" if "i \<le> j" for j using sleeps_mono[OF assms(1) that] by simp
      with late show ?thesis by (subst wait_loop.simps) auto
    qed
  qed
qed

lemma waitForPort_result:
  assumes "sleeps_long_enough start now"
  shows "waitForPort start now dial StartupTimeout = Some (\<exists>j<30. now j < start + StartupTimeout \<and> dial j)"
proof -
  have "start + StartupTimeout \<le> start + int 30 * 500000000" by (simp add: StartupTimeout_def go_second_def)
  from wait_loop_result[OF assms this, of 0] show ?thesis by (simp add: waitForPort_def)
qed

end
