(* ===== verification/Process.thy ===== *)
theory Process
  imports Prelude
begin

text \<open>
  The contract of a process that ends: an invariant that every step keeps, a rank that every step lowers,
  and no way to be stuck before the end. The clients of the contract are the theorems that a component
  ends; the life of a submission and the process of the checker provide it.
\<close>

locale kept_invariant =
  fixes step :: "'s \<Rightarrow> 's \<Rightarrow> bool" and inv :: "'s \<Rightarrow> bool"
  assumes step_keeps: "step s s' \<Longrightarrow> inv s \<Longrightarrow> inv s'"
begin

lemma run_keeps: "step\<^sup>*\<^sup>* s s' \<Longrightarrow> inv s \<Longrightarrow> inv s'"
  by (induction rule: rtranclp_induct) (auto intro: step_keeps)

end

locale finite_process = kept_invariant step inv for step :: "'s \<Rightarrow> 's \<Rightarrow> bool" and inv +
  fixes rank :: "'s \<Rightarrow> nat"
  assumes step_lowers: "step s s' \<Longrightarrow> inv s \<Longrightarrow> rank s' < rank s"
begin

lemma run_bounded: "(step ^^ n) s s' \<Longrightarrow> inv s \<Longrightarrow> n + rank s' \<le> rank s"
proof (induction n arbitrary: s')
  case (Suc n)
  from Suc.prems(1) obtain t where t: "(step ^^ n) s t" "step t s'" by auto
  with Suc.IH[OF t(1) Suc.prems(2)] step_lowers[OF t(2)] run_keeps[OF relpowp_imp_rtranclp[OF t(1)] Suc.prems(2)]
  show ?case by simp
qed simp

lemma run_ends: "inv s \<Longrightarrow> \<exists>s'. step\<^sup>*\<^sup>* s s' \<and> \<not> (\<exists>t. step s' t)"
proof (induction "rank s" arbitrary: s rule: less_induct)
  case less
  show ?case
  proof (cases "\<exists>t. step s t")
    case True
    then obtain t where t: "step s t" by blast
    from less.hyps[OF step_lowers[OF t less.prems] step_keeps[OF t less.prems]]
    obtain s' where "step\<^sup>*\<^sup>* t s'" "\<not> (\<exists>u. step s' u)" by blast
    with t show ?thesis by (blast intro: converse_rtranclp_into_rtranclp)
  qed blast
qed

end

locale ending_process = finite_process step inv rank
  for step :: "'s \<Rightarrow> 's \<Rightarrow> bool" and inv and rank +
  fixes over :: "'s \<Rightarrow> bool"
  assumes stuck_over: "inv s \<Longrightarrow> \<not> (\<exists>t. step s t) \<Longrightarrow> over s"
begin

lemma run_reaches_over:
  assumes "inv s"
  shows "\<exists>s'. step\<^sup>*\<^sup>* s s' \<and> over s'"
proof -
  from run_ends[OF assms] obtain s' where s': "step\<^sup>*\<^sup>* s s'" "\<not> (\<exists>t. step s' t)" by blast
  from stuck_over[OF run_keeps[OF s'(1) assms] s'(2)] s'(1) show ?thesis by blast
qed

text \<open>Every run is short, can be continued to the end, and stops nowhere else.\<close>

lemma every_run:
  assumes "inv s" and "(step ^^ n) s s'"
  shows "n \<le> rank s" and "\<exists>t. step\<^sup>*\<^sup>* s' t \<and> over t" and "\<not> (\<exists>t. step s' t) \<Longrightarrow> over s'"
proof -
  have "inv s'" using run_keeps[OF relpowp_imp_rtranclp[OF assms(2)] assms(1)] .
  then show "\<exists>t. step\<^sup>*\<^sup>* s' t \<and> over t" "\<not> (\<exists>t. step s' t) \<Longrightarrow> over s'" using run_reaches_over stuck_over by blast+
  show "n \<le> rank s" using run_bounded[OF assms(2,1)] by simp
qed

end

end
