(* ===== verification/Worker.thy ===== *)
theory Worker
  imports Config Archive Docker Process
begin

text \<open>
  A worker of the sandbox manager (\<open>sandbox-manager/internal/worker/worker.go\<close>): the lifecycle of one
  submission from its build to the removal of its container, with the goroutines it starts, as a step
  relation, and the classification of container errors. Docker, MinIO, the database, the fleet and the
  clock are decided by the environment; the pool of workers is the theory WorkerPool.
\<close>

section \<open>Classification of container errors\<close>

definition stringContains :: "string \<Rightarrow> string \<Rightarrow> bool" where
  "stringContains s substr =
     list_ex (\<lambda>i. take (length substr) (drop i s) = substr) [0..<length s + 1 - length substr]"

definition contains_str :: "string \<Rightarrow> string \<Rightarrow> bool" where
  "contains_str s sub \<longleftrightarrow> length sub > 0 \<and> length s \<ge> length sub \<and> (s = sub \<or> length s > 0 \<and> stringContains s sub)"

definition classifyContainerError :: "string \<Rightarrow> string \<times> int" where
  "classifyContainerError msg =
     (if contains_str msg ''137'' \<or> contains_str msg ''OOM'' then (''FAILED_RESOURCE'', 137)
      else if contains_str msg ''139'' then (''FAILED_LOGIC'', 139)
      else if contains_str msg ''did not bind'' then (''FAILED_STARTUP'', 1)
      else (''FAILED_SYSTEM'', 1))"

lemma contains_iff: "contains_str s sub \<longleftrightarrow> sub \<noteq> [] \<and> sublist sub s"
proof -
  have "stringContains s sub \<longleftrightarrow> sublist sub s"
  proof
    assume "stringContains s sub"
    then obtain i where "take (length sub) (drop i s) = sub" by (auto simp: stringContains_def list_ex_iff)
    then have "s = take i s @ sub @ drop (length sub) (drop i s)" by (metis append_take_drop_id)
    then show "sublist sub s" unfolding sublist_def by blast
  next
    assume "sublist sub s"
    then obtain ps ss where s: "s = ps @ sub @ ss" by (auto simp: sublist_def)
    then have "length ps \<in> set [0..<length s + 1 - length sub]" "take (length sub) (drop (length ps) s) = sub" by auto
    then show "stringContains s sub" unfolding stringContains_def list_ex_iff by blast
  qed
  then show ?thesis by (auto simp: contains_str_def dest: sublist_length_le)
qed

text \<open>
  The message of a daemon error can contain those digits by accident: here in the identifier of a
  container whose name is taken.
\<close>

lemma conflict_is_not_memory:
  "classifyContainerError ''container create: name in use by 9f137c'' = (''FAILED_RESOURCE'', 137)"
  by code_simp

section \<open>Limits of an extraction\<close>

text \<open>\<open>buildImage\<close> turns megabytes into bytes, in \<open>int64\<close>.\<close>

definition build_limits :: "sandbox_config \<Rightarrow> limits" where
  "build_limits cfg =
     \<lparr>lim_MaxTotalBytes = i64 (i64 (sb_MaxExtractSizeMB cfg * 1024) * 1024),
      lim_MaxFileSizeBytes = i64 (i64 (sb_MaxFileSizeMB cfg * 1024) * 1024), lim_MaxFileCount = sb_MaxFileCount cfg\<rparr>"

lemma build_limits_sane:
  assumes "0 \<le> sb_MaxFileSizeMB cfg" and "sb_MaxFileSizeMB cfg < 2 ^ 43 - 1"
    and "0 \<le> sb_MaxFileCount cfg" and "sb_MaxFileCount cfg < 2 ^ 63 - 1"
  shows "sane_limits (build_limits cfg)"
proof -
  have "i64 (sb_MaxFileSizeMB cfg * 1024) = sb_MaxFileSizeMB cfg * 1024"
    "i64 (sb_MaxFileSizeMB cfg * 1024 * 1024) = sb_MaxFileSizeMB cfg * 1024 * 1024"
    using assms(1,2) by (auto intro!: i64_id simp: in_i64_def)
  with assms show ?thesis by (simp add: sane_limits_def build_limits_def)
qed

text \<open>
  \<open>buildImage\<close>: the temporary directory exists from its first step on, and is returned with every error
  after it. The answers of MinIO and the file system are flags; the extraction is the model of
  \<open>archive.Extract\<close> on the downloaded bytes, the build the model of \<open>BuildImage\<close>.
\<close>

record build_answers =
  ba_mktemp :: "string option"
  ba_download :: "string option"
  ba_create :: bool
  ba_write :: bool
  ba_mkdir :: bool
  ba_docker :: build_daemon

datatype build_error =
  Mktemp | DownloadFailed | CreateArchive | WriteArchive | MkdirSrc | ExtractFailed archive_error | DockerBuild string

definition buildImage ::
  "extract_env \<Rightarrow> archive_libs \<Rightarrow> sandbox_config \<Rightarrow> build_answers \<Rightarrow> string \<Rightarrow> string \<times> build_error option" where
  "buildImage env libs cfg ans language =
     (case ba_mktemp ans of
        None \<Rightarrow> ([], Some Mktemp)
      | Some tmpDir \<Rightarrow>
          (case ba_download ans of
             None \<Rightarrow> (tmpDir, Some DownloadFailed)
           | Some bytes \<Rightarrow>
               if \<not> ba_create ans then (tmpDir, Some CreateArchive)
               else if \<not> ba_write ans then (tmpDir, Some WriteArchive)
               else if \<not> ba_mkdir ans then (tmpDir, Some MkdirSrc)
               else
                 case snd (Extract env libs (Some bytes) (filepath_Join tmpDir ''src'') (build_limits cfg)) of
                   Some e \<Rightarrow> (tmpDir, Some (ExtractFailed e))
                 | None \<Rightarrow>
                     (case snd (BuildImage (ba_docker ans) language) of
                        Some e \<Rightarrow> (tmpDir, Some (DockerBuild e))
                      | None \<Rightarrow> (tmpDir, None))))"

section \<open>The two benchmark runs\<close>

text \<open>The payloads of \<open>triggerBotFleet\<close>, before they are marshalled.\<close>

definition run_payload :: "string \<Rightarrow> string \<Rightarrow> string \<Rightarrow> json_fields" where
  "run_payload sid targetHost mode =
     [(''submission_id'', JStr sid), (''target_host'', JStr targetHost), (''target_port'', JStr (fmt_d SandboxPort)),
      (''protocol'', JStr ''rest''), (''mode'', JStr mode)]"

definition correctness_payload :: "sandbox_config \<Rightarrow> string \<Rightarrow> string \<Rightarrow> json_fields" where
  "correctness_payload cfg sid targetHost =
     run_payload sid targetHost ''correctness'' @
     [(''num_bots'', JInt 1), (''seed'', JInt (sb_CorrectnessSeed cfg)),
      (''duration_secs'', JInt (sb_CorrectnessDurationSecs cfg))]"

definition perf_payload :: "sandbox_config \<Rightarrow> string \<Rightarrow> string \<Rightarrow> json_fields" where
  "perf_payload cfg sid targetHost =
     run_payload sid targetHost ''performance'' @
     [(''num_bots'', JInt (sb_DefaultNumBots cfg)), (''duration_secs'', JInt (sb_DefaultDurationSecs cfg))]"

section \<open>The life of a submission\<close>

text \<open>
  \<open>process\<close> with the goroutine of \<open>triggerBotFleet\<close> that starts the performance phase and the goroutine
  that cleans up. \<open>lf_dir\<close> says that the build directory exists, \<open>lf_docker\<close> is the list of commands sent
  to the Docker daemon to run and remove the container, \<open>lf_closed\<close> counts how often \<open>perfStarted\<close> was
  closed, and \<open>lf_ran\<close> records the runs that the fleet has accepted. The deferred removal of the build
  directory is the phase \<open>MReturning\<close>.
\<close>

datatype main_phase =
    MFetch
  | MFound manager_submission
  | MBuilding manager_submission
  | MBuilt "build_error option"
  | MSandbox "string + sandbox_result"
  | MReady sandbox_result
  | MTriggered sandbox_result
  | MReturning
  | MDone

datatype perf_phase = PNone | PSleeping string | PDispatching string | PDone

datatype cleanup_phase =
    CNone
  | CWaiting sandbox_result
  | CReading sandbox_result
  | CMarking sandbox_result
  | CRemoving sandbox_result
  | CDone

record life =
  lf_table :: sub_table
  lf_dir :: bool
  lf_docker :: "daemon_command list"
  lf_closed :: nat
  lf_ran :: "json_fields list"
  lf_main :: main_phase
  lf_perf :: perf_phase
  lf_cleanup :: cleanup_phase

definition life_start :: "sub_table \<Rightarrow> life" where
  "life_start tbl =
     \<lparr>lf_table = tbl, lf_dir = False, lf_docker = [], lf_closed = 0, lf_ran = [],
      lf_main = MFetch, lf_perf = PNone, lf_cleanup = CNone\<rparr>"

definition image_tag :: "string \<Rightarrow> string" where
  "image_tag sid = ''sandbox-'' @ sid"

text \<open>The text of a build error is arbitrary here: \<open>m\<close>.\<close>

inductive life_step :: "sandbox_config \<Rightarrow> string \<Rightarrow> life \<Rightarrow> life \<Rightarrow> bool" for cfg sid where
  not_found: "lf_main s = MFetch \<Longrightarrow> (\<forall>sub. GetSubmission db_ok sid (lf_table s) \<noteq> Inr (Some sub)) \<Longrightarrow>
    life_step cfg sid s (s\<lparr>lf_main := MDone\<rparr>)"
| found: "lf_main s = MFetch \<Longrightarrow> GetSubmission db_ok sid (lf_table s) = Inr (Some sub) \<Longrightarrow>
    life_step cfg sid s (s\<lparr>lf_main := MFound sub\<rparr>)"
| building: "lf_main s = MFound sub \<Longrightarrow>
    life_step cfg sid s (s\<lparr>lf_table := try_update db_ok sid ''BUILDING'' [] (lf_table s), lf_main := MBuilding sub\<rparr>)"
| build: "lf_main s = MBuilding sub \<Longrightarrow> buildImage env libs cfg ans (ms_Language sub) = (buildDir, err) \<Longrightarrow>
    life_step cfg sid s (s\<lparr>lf_dir := (buildDir \<noteq> []), lf_main := MBuilt err\<rparr>)"
| build_failed: "lf_main s = MBuilt (Some e) \<Longrightarrow>
    life_step cfg sid s (s\<lparr>lf_table := try_update db_ok sid ''FAILED_SYSTEM''
      [(''error_message'', SqlText (''Build error: '' @ m))] (lf_table s), lf_main := MReturning\<rparr>)"
| run_sandbox: "lf_main s = MBuilt None \<Longrightarrow>
    RunSandbox d (image_tag sid) sid (sb_SandboxNetwork cfg) = Some (cmds, res) \<Longrightarrow>
    life_step cfg sid s (s\<lparr>lf_docker := lf_docker s @ cmds, lf_main := MSandbox res\<rparr>)"
| run_failed: "lf_main s = MSandbox (Inl msg) \<Longrightarrow> classifyContainerError msg = (failStatus, exitCode) \<Longrightarrow>
    life_step cfg sid s (s\<lparr>lf_table := try_update db_ok sid failStatus
        [(''error_message'', SqlText msg), (''exit_code'', SqlNumber exitCode)] (lf_table s),
      lf_docker := lf_docker s @ RemoveContainer (''sandbox-'' @ sid) (image_tag sid), lf_main := MReturning\<rparr>)"
| ready: "lf_main s = MSandbox (Inr res) \<Longrightarrow>
    life_step cfg sid s (s\<lparr>lf_table := try_update db_ok sid ''READY''
        [(''container_id'', SqlText (sx_ContainerID res)), (''endpoint_url'', SqlText (sx_EndpointURL res))] (lf_table s),
      lf_main := MReady res\<rparr>)"
| trigger_failed: "lf_main s = MReady res \<Longrightarrow>
    life_step cfg sid s (s\<lparr>lf_closed := Suc (lf_closed s), lf_main := MTriggered res\<rparr>)"
| triggered: "lf_main s = MReady res \<Longrightarrow>
    life_step cfg sid s (s\<lparr>lf_ran := lf_ran s @ [correctness_payload cfg sid (sx_TargetHost res)],
      lf_perf := PSleeping (sx_TargetHost res), lf_main := MTriggered res\<rparr>)"
| running: "lf_main s = MTriggered res \<Longrightarrow>
    life_step cfg sid s (s\<lparr>lf_table := try_update db_ok sid ''RUNNING'' [] (lf_table s),
      lf_cleanup := CWaiting res, lf_main := MReturning\<rparr>)"
| returned: "lf_main s = MReturning \<Longrightarrow> life_step cfg sid s (s\<lparr>lf_dir := False, lf_main := MDone\<rparr>)"
| gap_over: "lf_perf s = PSleeping host \<Longrightarrow> life_step cfg sid s (s\<lparr>lf_perf := PDispatching host\<rparr>)"
| perf_failed: "lf_perf s = PDispatching host \<Longrightarrow>
    life_step cfg sid s (s\<lparr>lf_closed := Suc (lf_closed s), lf_perf := PDone\<rparr>)"
| perf_started: "lf_perf s = PDispatching host \<Longrightarrow>
    life_step cfg sid s (s\<lparr>lf_ran := lf_ran s @ [perf_payload cfg sid host], lf_closed := Suc (lf_closed s),
      lf_perf := PDone\<rparr>)"
| grace_over: "lf_cleanup s = CWaiting res \<Longrightarrow> lf_closed s > 0 \<Longrightarrow> life_step cfg sid s (s\<lparr>lf_cleanup := CReading res\<rparr>)"
| safety_net: "lf_cleanup s = CWaiting res \<Longrightarrow> life_step cfg sid s (s\<lparr>lf_cleanup := CReading res\<rparr>)"
| still_running: "lf_cleanup s = CReading res \<Longrightarrow> GetSubmission db_ok sid (lf_table s) = Inr (Some sub) \<Longrightarrow>
    ms_Status sub = ''RUNNING'' \<Longrightarrow> life_step cfg sid s (s\<lparr>lf_cleanup := CMarking res\<rparr>)"
| not_running: "lf_cleanup s = CReading res \<Longrightarrow>
    (\<forall>sub. GetSubmission db_ok sid (lf_table s) = Inr (Some sub) \<longrightarrow> ms_Status sub \<noteq> ''RUNNING'') \<Longrightarrow>
    life_step cfg sid s (s\<lparr>lf_cleanup := CRemoving res\<rparr>)"
| mark_success: "lf_cleanup s = CMarking res \<Longrightarrow>
    life_step cfg sid s (s\<lparr>lf_table := try_update db_ok sid ''SUCCESS'' [] (lf_table s), lf_cleanup := CRemoving res\<rparr>)"
| cleaned: "lf_cleanup s = CRemoving res \<Longrightarrow>
    life_step cfg sid s (s\<lparr>lf_docker := lf_docker s @ RemoveContainer (sx_ContainerID res) (image_tag sid),
      lf_cleanup := CDone\<rparr>)"

text \<open>Other workers, the submission service and operators may change the table at any time.\<close>

inductive life_reach :: "sandbox_config \<Rightarrow> string \<Rightarrow> life \<Rightarrow> bool" for cfg sid where
  start: "valid_table tbl \<Longrightarrow> life_reach cfg sid (life_start tbl)"
| step: "life_reach cfg sid s \<Longrightarrow> life_step cfg sid s s' \<Longrightarrow> life_reach cfg sid s'"
| others: "life_reach cfg sid s \<Longrightarrow> valid_table tbl \<Longrightarrow> life_reach cfg sid (s\<lparr>lf_table := tbl\<rparr>)"

definition life_over :: "life \<Rightarrow> bool" where
  "life_over s \<longleftrightarrow> lf_main s = MDone \<and> lf_perf s \<in> {PNone, PDone} \<and> lf_cleanup s \<in> {CNone, CDone}"

section \<open>Everything is cleaned up\<close>

text \<open>Whether a container may be left after these commands: one was asked for and not removed since.\<close>

fun left_after :: "daemon_command \<Rightarrow> bool \<Rightarrow> bool" where
  "left_after (CmdCreate opts) left = True"
| "left_after (CmdRemove i) left = False"
| "left_after cmd left = left"

definition container_left :: "daemon_command list \<Rightarrow> bool" where
  "container_left cmds = fold left_after cmds False"

lemma container_left_removed [simp]: "\<not> container_left (cmds @ RemoveContainer i tag)" "\<not> container_left []"
  by (simp_all add: container_left_def RemoveContainer_def)

definition life_inv :: "life \<Rightarrow> bool" where
  "life_inv s \<longleftrightarrow> valid_table (lf_table s) \<and>
     (case lf_main s of
        MFetch \<Rightarrow> \<not> lf_dir s | MFound sub \<Rightarrow> \<not> lf_dir s | MBuilding sub \<Rightarrow> \<not> lf_dir s | MDone \<Rightarrow> \<not> lf_dir s | _ \<Rightarrow> True) \<and>
     (case lf_main s of
        MSandbox res \<Rightarrow> True | MReady res \<Rightarrow> True | MTriggered res \<Rightarrow> True
      | MReturning \<Rightarrow> lf_cleanup s \<in> {CNone, CDone} \<longrightarrow> \<not> container_left (lf_docker s)
      | MDone \<Rightarrow> lf_cleanup s \<in> {CNone, CDone} \<longrightarrow> \<not> container_left (lf_docker s)
      | _ \<Rightarrow> \<not> container_left (lf_docker s)) \<and>
     (lf_main s \<notin> {MReturning, MDone} \<longrightarrow> lf_cleanup s = CNone) \<and>
     ((\<forall>res. lf_main s \<noteq> MTriggered res) \<and> lf_main s \<notin> {MReturning, MDone} \<longrightarrow>
        lf_perf s = PNone \<and> lf_closed s = 0 \<and> lf_ran s = []) \<and>
     (case lf_perf s of
        PNone \<Rightarrow> lf_closed s \<le> 1 \<and> lf_ran s = [] \<and> (lf_cleanup s \<noteq> CNone \<longrightarrow> lf_closed s = 1) \<and>
          (\<forall>res. lf_main s = MTriggered res \<longrightarrow> lf_closed s = 1)
      | PDone \<Rightarrow> lf_closed s = 1
      | _ \<Rightarrow> lf_closed s = 0)"

lemma life_inv_step [inv_intro]: "life_step cfg sid s s' \<Longrightarrow> life_inv s \<Longrightarrow> life_inv s'"
  by (induction rule: life_step.induct)
    (simp_all add: life_inv_def try_update_valid split: main_phase.splits perf_phase.splits)

lemma life_reach_inv: "life_reach cfg sid s \<Longrightarrow> life_inv s"
proof (induction rule: life_reach.induct)
  case (start tbl)
  then show ?case by (simp add: life_inv_def life_start_def)
next
  case (step s s')
  then show ?case by (simp add: life_inv_step)
next
  case (others s tbl)
  then show ?case by (simp add: life_inv_def split: main_phase.splits perf_phase.splits)
qed

text \<open>The fleet is only ever asked for the correctness run, and for the performance run after it.\<close>

definition runs_in_order :: "sandbox_config \<Rightarrow> string \<Rightarrow> life \<Rightarrow> bool" where
  "runs_in_order cfg sid s \<longleftrightarrow>
     (case lf_perf s of
        PNone \<Rightarrow> lf_ran s = []
      | PSleeping host \<Rightarrow> lf_ran s = [correctness_payload cfg sid host]
      | PDispatching host \<Rightarrow> lf_ran s = [correctness_payload cfg sid host]
      | PDone \<Rightarrow> \<exists>host. lf_ran s = [correctness_payload cfg sid host] \<or>
          lf_ran s = [correctness_payload cfg sid host, perf_payload cfg sid host])"

lemma runs_in_order_step: "life_step cfg sid s s' \<Longrightarrow> life_inv s \<Longrightarrow> runs_in_order cfg sid s \<Longrightarrow> runs_in_order cfg sid s'"
  by (induction rule: life_step.induct)
    (auto simp: runs_in_order_def life_inv_def split: perf_phase.splits)

lemma life_reach_runs: "life_reach cfg sid s \<Longrightarrow> runs_in_order cfg sid s"
proof (induction rule: life_reach.induct)
  case (start tbl)
  show ?case by (simp add: runs_in_order_def life_start_def)
next
  case (step s s')
  then show ?case using runs_in_order_step life_reach_inv by blast
next
  case (others s tbl)
  then show ?case by (simp add: runs_in_order_def split: perf_phase.splits)
qed

text \<open>Every step brings the submission closer to its end: at most 32 steps of the program.\<close>

definition main_rank :: "main_phase \<Rightarrow> nat" where
  "main_rank m =
     (case m of MFetch \<Rightarrow> 8 | MFound sub \<Rightarrow> 7 | MBuilding sub \<Rightarrow> 6 | MBuilt err \<Rightarrow> 5 | MSandbox res \<Rightarrow> 4 | MReady res \<Rightarrow> 3
      | MTriggered res \<Rightarrow> 2 | MReturning \<Rightarrow> 1 | MDone \<Rightarrow> 0)"

definition life_rank :: "life \<Rightarrow> nat" where
  "life_rank s = 5 * main_rank (lf_main s) +
     (case lf_perf s of PSleeping host \<Rightarrow> 2 | PDispatching host \<Rightarrow> 1 | _ \<Rightarrow> 0) +
     (case lf_cleanup s of CWaiting res \<Rightarrow> 4 | CReading res \<Rightarrow> 3 | CMarking res \<Rightarrow> 2 | CRemoving res \<Rightarrow> 1 | _ \<Rightarrow> 0)"

lemma life_step_rank: "life_step cfg sid s s' \<Longrightarrow> life_inv s \<Longrightarrow> life_rank s' < life_rank s"
  by (induction rule: life_step.induct) (auto simp: life_rank_def main_rank_def life_inv_def)

lemma life_over_stuck: "life_over s \<Longrightarrow> \<not> life_step cfg sid s s'"
  by (auto simp: life_over_def elim: life_step.cases)

lemma life_step_possible:
  assumes "\<not> life_over s"
  shows "\<exists>s'. life_step cfg sid s s'"
proof (cases "lf_main s")
  case MFetch
  have "\<forall>sub. GetSubmission False sid (lf_table s) \<noteq> Inr (Some sub)" by (simp add: GetSubmission_def)
  with MFetch show ?thesis by (blast intro: life_step.not_found)
next
  case (MBuilding sub)
  obtain buildDir err where "buildImage undefined undefined cfg undefined (ms_Language sub) = (buildDir, err)"
    by (cases "buildImage undefined undefined cfg undefined (ms_Language sub)")
  with MBuilding show ?thesis by (blast intro: life_step.build)
next
  case (MBuilt err)
  show ?thesis
  proof (cases err)
    case None
    define d where "d = (undefined :: sandbox_daemon)\<lparr>sd_create := Inl []\<rparr>"
    have "RunSandbox d (image_tag sid) sid (sb_SandboxNetwork cfg) =
        Some ([CmdRemove (container_name sid), CmdCreate (sandbox_options (image_tag sid) sid (sb_SandboxNetwork cfg))],
          Inl ''container create: '')"
      by (simp add: RunSandbox_def d_def)
    with MBuilt None show ?thesis by (blast intro: life_step.run_sandbox)
  qed (use MBuilt in \<open>blast intro: life_step.build_failed\<close>)
next
  case (MSandbox res)
  show ?thesis
  proof (cases res)
    case (Inl msg)
    obtain st ec where "classifyContainerError msg = (st, ec)" by (cases "classifyContainerError msg")
    with MSandbox Inl show ?thesis by (blast intro: life_step.run_failed)
  qed (use MSandbox in \<open>blast intro: life_step.ready\<close>)
next
  case MDone
  with assms consider host where "lf_perf s = PSleeping host" | host where "lf_perf s = PDispatching host"
    | res where "lf_cleanup s = CWaiting res" | res where "lf_cleanup s = CReading res"
    | res where "lf_cleanup s = CMarking res" | res where "lf_cleanup s = CRemoving res"
    by (cases "lf_perf s"; cases "lf_cleanup s") (auto simp: life_over_def)
  then show ?thesis
  proof cases
    case (4 res)
    have "\<forall>sub. GetSubmission False sid (lf_table s) = Inr (Some sub) \<longrightarrow> ms_Status sub \<noteq> ''RUNNING''"
      by (simp add: GetSubmission_def)
    with 4 show ?thesis by (blast intro: life_step.not_running)
  qed (blast intro: life_step.intros)+
qed (blast intro: life_step.intros)+

interpretation life: ending_process "life_step cfg sid" life_inv life_rank life_over for cfg sid
  using life_step_possible by unfold_locales (blast intro: life_inv_step life_step_rank)+


section \<open>What a failed start is called\<close>

text \<open>A text whose first byte does not occur in a prefix can only be found behind the prefix.\<close>

lemma sublist_behind: "x \<notin> set p \<Longrightarrow> sublist (x # xs) (p @ e) \<longleftrightarrow> sublist (x # xs) e"
  by (induction p) (auto simp: sublist_Cons_right)

lemma contains_behind: "x \<notin> set p \<Longrightarrow> contains_str (p @ e) (x # xs) \<longleftrightarrow> contains_str e (x # xs)"
  by (simp add: contains_iff sublist_behind)

definition error_markers :: "string list" where
  "error_markers = [''137'', ''OOM'', ''139'', ''did not bind'']"

lemma classify_unmarked:
  "(\<forall>m \<in> set error_markers. \<not> contains_str msg m) \<Longrightarrow> classifyContainerError msg = (''FAILED_SYSTEM'', 1)"
  by (simp add: classifyContainerError_def error_markers_def)

lemma classify_daemon_error:
  assumes "\<forall>m \<in> set error_markers. \<not> contains_str e m" and "set p \<inter> {CHR ''1'', CHR ''O'', CHR ''d''} = {}"
  shows "classifyContainerError (p @ e) = (''FAILED_SYSTEM'', 1)"
proof -
  have "CHR ''1'' \<notin> set p" "CHR ''O'' \<notin> set p" "CHR ''d'' \<notin> set p" using assms(2) by blast+
  note behind = this[THEN contains_behind]
  show ?thesis using assms(1) by (intro classify_unmarked) (simp add: error_markers_def behind)
qed

definition exit_status :: "int \<Rightarrow> string \<times> int" where
  "exit_status code =
     (if code = 137 then (''FAILED_RESOURCE'', 137) else if code = 139 then (''FAILED_LOGIC'', 139) else (''FAILED_SYSTEM'', 1))"

lemma digits_of_set: "set (digits_of n) \<subseteq> set ''0123456789''"
proof (induction n rule: digits_of.induct)
  case (1 n)
  have digit: "char_of (48 + k) \<in> set ''0123456789''" if "k < 10" for k :: nat
    using digits_of_head[of k] that by (simp add: digits_of.simps)
  show ?case
  proof (cases "n < 10")
    case True
    with digit[of n] show ?thesis by (simp add: digits_of.simps)
  next
    case False
    have "n mod 10 < 10" by simp
    note digit[OF this]
    moreover have "set (digits_of (n div 10)) \<subseteq> set ''0123456789''" by (rule 1[OF False])
    ultimately show ?thesis unfolding digits_of.simps[of n] using False by simp
  qed
qed

lemma digits_of_length: "n < 1000 \<Longrightarrow> length (digits_of n) \<le> 3"
proof -
  assume "n < 1000"
  then have small: "n div 10 div 10 < 10" by simp
  then show ?thesis
    by (cases "n < 10"; cases "n div 10 < 10")
      (simp_all only: digits_of.simps[of n] digits_of.simps[of "n div 10"] digits_of.simps[of "n div 10 div 10"] small if_True if_False, simp_all)
qed

lemma contains_set: "contains_str s sub \<Longrightarrow> set sub \<subseteq> set s"
  by (auto simp: contains_iff sublist_def)

lemma contains_three: "length s \<le> 3 \<Longrightarrow> contains_str s [a, b, c] \<longleftrightarrow> s = [a, b, c]"
  by (auto simp: contains_iff sublist_def)

lemma contains_three_digits:
  assumes "n < 1000" and "digits_of m = [a, b, c]"
  shows "contains_str (digits_of n) [a, b, c] \<longleftrightarrow> n = m"
proof
  assume "contains_str (digits_of n) [a, b, c]"
  then have "digits_of n = digits_of m" unfolding contains_three[OF digits_of_length[OF assms(1)]] assms(2) .
  then have "parse_digits 0 (digits_of n) = parse_digits 0 (digits_of m)" by (rule arg_cong)
  then show "n = m" unfolding parse_digits_of by (rule option.inject[THEN iffD1])
qed (use assms(2) in \<open>simp add: contains_three\<close>)

lemma marker_digits: "digits_of 137 = ''137''" "digits_of 139 = ''139''" "digits_of 9999 = ''9999''"
proof -
  have "char_of (49 :: nat) = CHR ''1''" "char_of (51 :: nat) = CHR ''3''" "char_of (55 :: nat) = CHR ''7''"
    "char_of (57 :: nat) = CHR ''9''" by code_simp+
  then show "digits_of 137 = ''137''" "digits_of 139 = ''139''" "digits_of 9999 = ''9999''"
    by (simp_all add: digits_of.simps)
qed

lemma classify_exit:
  assumes "0 \<le> code" and "code < 256"
  shows "classifyContainerError (''container exited immediately with code '' @ fmt_d code) = exit_status code"
proof -
  let ?p = "''container exited immediately with code ''" and ?d = "digits_of (nat code)"
  have n: "nat code < 1000" using assms by simp
  have "contains_str ?d ''137'' \<longleftrightarrow> nat code = 137" "contains_str ?d ''139'' \<longleftrightarrow> nat code = 139"
    by (rule contains_three_digits[OF n], rule marker_digits)+
  moreover have "nat code = 137 \<longleftrightarrow> code = 137" "nat code = 139 \<longleftrightarrow> code = 139" using assms(1) by auto
  ultimately have d: "contains_str ?d ''137'' \<longleftrightarrow> code = 137" "contains_str ?d ''139'' \<longleftrightarrow> code = 139" by blast+
  have p: "CHR ''1'' \<notin> set ?p" "CHR ''O'' \<notin> set (?p @ ?d)" "CHR ''b'' \<notin> set (?p @ ?d)"
    using digits_of_set[of "nat code"] by auto
  have "\<not> contains_str (?p @ ?d) ''OOM''" "\<not> contains_str (?p @ ?d) ''did not bind''"
    using contains_set[of "?p @ ?d" "''OOM''"] contains_set[of "?p @ ?d" "''did not bind''"] p(2,3) by force+
  moreover have "fmt_d code = ?d" using assms(1) by (simp add: fmt_d_def)
  ultimately show ?thesis
    unfolding classifyContainerError_def exit_status_def by (simp only: contains_behind[OF p(1)] d simp_thms if_False cong: if_cong)
qed

lemma sandbox_port_text: "fmt_d SandboxPort = ''9999''"
  by (simp add: fmt_d_def SandboxPort_def marker_digits)

lemma classify_startup:
  "classifyContainerError (''sandbox did not bind to port '' @ fmt_d SandboxPort @ '' within 15s'') = (''FAILED_STARTUP'', 1)"
  unfolding sandbox_port_text by code_simp

text \<open>The ways in which the daemon itself can fail, and the answers it is expected to give otherwise.\<close>

definition daemon_trouble :: "sandbox_daemon \<Rightarrow> bool" where
  "daemon_trouble d \<longleftrightarrow> isl (sd_create d) \<or> sd_start d \<noteq> None \<or> isl (sd_inspect d)"

definition daemon_texts :: "sandbox_daemon \<Rightarrow> string list" where
  "daemon_texts d =
     (case sd_create d of Inl e \<Rightarrow> [e] | Inr cid \<Rightarrow> []) @ (case sd_start d of Some e \<Rightarrow> [e] | None \<Rightarrow> []) @
     (case sd_inspect d of Inl e \<Rightarrow> [e] | Inr i \<Rightarrow> [])"

definition daemon_plain :: "sandbox_daemon \<Rightarrow> bool" where
  "daemon_plain d \<longleftrightarrow> (\<forall>e \<in> set (daemon_texts d). \<forall>m \<in> set error_markers. \<not> contains_str e m) \<and>
     (\<forall>i. sd_inspect d = Inr i \<longrightarrow> 0 \<le> in_ExitCode i \<and> in_ExitCode i < 256)"

definition port_opens :: "sandbox_daemon \<Rightarrow> string \<Rightarrow> bool" where
  "port_opens d host \<longleftrightarrow> (\<exists>j<30. sd_now d j < sd_began d + StartupTimeout \<and> sd_dial d host j)"

definition start_outcome :: "sandbox_daemon \<Rightarrow> string \<Rightarrow> string \<Rightarrow> (string \<times> int) + string \<times> string" where
  "start_outcome d sid network =
     (if daemon_trouble d then Inl (''FAILED_SYSTEM'', 1)
      else let i = projr (sd_inspect d); host = target_host sid network i in
        if \<not> in_Running i then Inl (exit_status (in_ExitCode i))
        else if port_opens d host then Inr (projr (sd_create d), host)
        else Inl (''FAILED_STARTUP'', 1))"


section \<open>What the table records\<close>

lemma RunSandbox_url:
  "RunSandbox d imageTag sid network = Some (cmds, Inr res) \<Longrightarrow> sx_EndpointURL res = ''http://sandbox-'' @ sid @ '':9999''"
  by (auto simp: RunSandbox_def Let_def container_name_def sandbox_port_text split: sum.splits option.splits bool.splits if_splits)

lemma life_reach_url: "life_reach cfg sid s \<Longrightarrow> lf_main s = MSandbox (Inr res) \<Longrightarrow> sx_EndpointURL res = ''http://sandbox-'' @ sid @ '':9999''"
proof (induction rule: life_reach.induct)
  case (step s s')
  from step(2) step.IH step.prems show ?case by (induction rule: life_step.induct) (auto dest: RunSandbox_url)
qed (simp_all add: life_start_def)

lemma try_update_cases:
  assumes "try_update db_ok sid status extra tbl sid = Some r'" and "tbl sid = Some r" and "r' \<noteq> r"
  shows "update_row status extra r = Inr r'"
  using assms by (auto simp: try_update_def UpdateStatus_def split: if_splits sum.splits)

definition failed_statuses :: "string list" where
  "failed_statuses = [''FAILED_SYSTEM'', ''FAILED_RESOURCE'', ''FAILED_LOGIC'', ''FAILED_STARTUP'']"

definition recorded :: "string \<Rightarrow> sub_row \<Rightarrow> bool" where
  "recorded sid r \<longleftrightarrow>
     (sr_status r \<in> set failed_statuses \<longrightarrow> (\<exists>m. sr_errorMessage r = Some m)) \<and>
     (sr_status r \<in> {''FAILED_RESOURCE'', ''FAILED_LOGIC'', ''FAILED_STARTUP''} \<longrightarrow> (\<exists>c. sr_exitCode r = Some c)) \<and>
     (sr_status r = ''READY'' \<longrightarrow> (\<exists>c. sr_containerID r = Some c) \<and> sr_endpointURL r = Some (''http://sandbox-'' @ sid @ '':9999''))"

lemma update_row_recorded:
  "update_row ''BUILDING'' [] r = Inr r' \<Longrightarrow> recorded sid r' \<and> sr_status r' = ''BUILDING''"
  "update_row ''RUNNING'' [] r = Inr r' \<Longrightarrow> recorded sid r' \<and> sr_status r' = ''RUNNING''"
  "update_row ''SUCCESS'' [] r = Inr r' \<Longrightarrow> recorded sid r' \<and> sr_status r' = ''SUCCESS''"
  "update_row ''FAILED_SYSTEM'' [(''error_message'', SqlText m)] r = Inr r' \<Longrightarrow> recorded sid r' \<and> sr_status r' = ''FAILED_SYSTEM''"
  "update_row ''READY'' [(''container_id'', SqlText c), (''endpoint_url'', SqlText (''http://sandbox-'' @ sid @ '':9999''))] r = Inr r' \<Longrightarrow>
     recorded sid r' \<and> sr_status r' = ''READY''"
  by (auto simp: update_row_def recorded_def failed_statuses_def hasKeys_def text_param_def gm_get_def split: if_splits)

lemma update_row_classified:
  "update_row status [(''error_message'', SqlText m), (''exit_code'', SqlNumber n)] r = Inr r' \<Longrightarrow> status \<in> set failed_statuses \<Longrightarrow>
     recorded sid r' \<and> sr_status r' = status"
  by (auto simp: update_row_def recorded_def failed_statuses_def hasKeys_def text_param_def number_param_def gm_get_def split: if_splits)

lemma classified_failed: "classifyContainerError msg = (status, code) \<Longrightarrow> status \<in> set failed_statuses"
  by (auto simp: classifyContainerError_def failed_statuses_def split: if_splits)

text \<open>Only the step \<open>mark_success\<close> writes SUCCESS, and it is only enabled after RUNNING has been read.\<close>

lemma life_step_row:
  assumes "life_step cfg sid s s'" and "life_reach cfg sid s"
    and "lf_table s sid = Some r" and "lf_table s' sid = Some r'" and "r' \<noteq> r"
  shows "recorded sid r' \<and> sr_status r' \<noteq> ''PENDING'' \<and> (sr_status r' = ''SUCCESS'' \<longrightarrow> (\<exists>res. lf_cleanup s = CMarking res))"
  using assms(1)
proof (cases rule: life_step.cases)
  case (run_failed msg failStatus exitCode db_ok)
  from run_failed(1) assms(4) have "try_update db_ok sid failStatus [(''error_message'', SqlText msg), (''exit_code'', SqlNumber exitCode)]
      (lf_table s) sid = Some r'" by simp
  from update_row_classified[OF try_update_cases[OF this assms(3,5)] classified_failed[OF run_failed(3)]]
    classified_failed[OF run_failed(3)] show ?thesis by (auto simp: failed_statuses_def)
next
  case (ready res db_ok)
  have url: "sx_EndpointURL res = ''http://sandbox-'' @ sid @ '':9999''" by (rule life_reach_url[OF assms(2) ready(2)])
  from ready(1) assms(4) have "try_update db_ok sid ''READY'' [(''container_id'', SqlText (sx_ContainerID res)),
      (''endpoint_url'', SqlText (''http://sandbox-'' @ sid @ '':9999''))] (lf_table s) sid = Some r'" unfolding url by simp
  from update_row_recorded(5)[OF try_update_cases[OF this assms(3,5)]] show ?thesis by simp
qed (use assms(3,4,5) in \<open>auto dest!: try_update_cases dest: update_row_recorded\<close>)

lemma life_step_table:
  "life_step cfg sid s s' \<Longrightarrow> (\<forall>x. x \<noteq> sid \<longrightarrow> lf_table s' x = lf_table s x) \<and> (lf_table s' sid = None \<longleftrightarrow> lf_table s sid = None)"
proof (induction rule: life_step.induct)
qed (auto simp: try_update_def UpdateStatus_def split: if_splits sum.splits option.splits)


section \<open>Two runs\<close>

lemma try_update_plain:
  "tbl sid = Some r \<Longrightarrow> status \<in> set submission_statuses \<Longrightarrow>
     try_update True sid status [] tbl = tbl(sid \<mapsto> r\<lparr>sr_status := status\<rparr>)"
  by (simp add: try_update_def UpdateStatus_def update_row_def)

definition sample_answers :: build_answers where
  "sample_answers =
     \<lparr>ba_mktemp = Some ''/tmp/b'', ba_download = Some [], ba_create = True, ba_write = True, ba_mkdir = True,
      ba_docker = \<lparr>bd_written = None, bd_error = None, bd_output = [], bd_decoded = [DecMessage [], DecEOF]\<rparr>\<rparr>"

lemma sample_build: "buildImage sample_env sample_libs cfg sample_answers lang = (''/tmp/b'', None)"
proof -
  have "\<not> isZip (Some [])" by code_simp
  then have "Extract sample_env sample_libs (Some []) dest l = (extraction_start, None)" for dest l
    by (simp add: Extract_def extractTar_def sample_libs_def)
  then show ?thesis by (simp add: buildImage_def sample_answers_def BuildImage_def)
qed

definition sample_daemon :: sandbox_daemon where
  "sample_daemon =
     \<lparr>sd_create = Inr ''c1'', sd_start = None, sd_inspect = Inr \<lparr>in_Running = True, in_ExitCode = 0, in_Networks = None\<rparr>,
      sd_began = 0, sd_now = (\<lambda>i. int i * go_second), sd_dial = (\<lambda>host i. i = 2)\<rparr>"

definition sample_sandbox :: "string \<Rightarrow> sandbox_result" where
  "sample_sandbox sid = \<lparr>sx_ContainerID = ''c1'', sx_EndpointURL = ''http://sandbox-'' @ sid @ '':9999'',
     sx_TargetHost = ''sandbox-'' @ sid\<rparr>"

definition sample_commands :: "string \<Rightarrow> string \<Rightarrow> daemon_command list" where
  "sample_commands sid network =
     [CmdRemove (container_name sid), CmdCreate (sandbox_options (image_tag sid) sid network), CmdStart ''c1'', CmdInspect ''c1'']"

lemma sample_wait: "waitForPort 0 (\<lambda>i. int i * go_second) (\<lambda>i. i = 2) StartupTimeout = Some True"
  unfolding waitForPort_def StartupTimeout_def go_second_def
  by (subst wait_loop.simps, simp)+

lemma sample_sandbox_run: "RunSandbox sample_daemon (image_tag sid) sid network = Some (sample_commands sid network, Inr (sample_sandbox sid))"
  by (simp add: RunSandbox_def sample_daemon_def sample_commands_def sample_sandbox_def sample_wait
      target_host_def container_name_def sandbox_port_text Let_def)

definition sample_row :: "string \<Rightarrow> sub_row" where
  "sample_row status = \<lparr>sr_team = ''t'', sr_language = ''cpp'', sr_status = status, sr_storageKey = ''k'',
     sr_containerID = None, sr_endpointURL = None, sr_errorMessage = None, sr_exitCode = None\<rparr>"

definition sample_ready_row :: "string \<Rightarrow> string \<Rightarrow> sub_row" where
  "sample_ready_row sid status = (sample_row status)\<lparr>sr_containerID := Some ''c1'',
     sr_endpointURL := Some (sx_EndpointURL (sample_sandbox sid))\<rparr>"

lemma sample_rows [simp]:
  "(sample_row status)\<lparr>sr_status := status'\<rparr> = sample_row status'"
  "(sample_ready_row sid status)\<lparr>sr_status := status'\<rparr> = sample_ready_row sid status'"
  "sr_status (sample_row status) = status" "sr_status (sample_ready_row sid status) = status"
  by (simp_all add: sample_row_def sample_ready_row_def)

text \<open>A submission whose container starts, up to the point where the fleet is asked.\<close>

lemma sample_ready:
  "life_reach cfg sid
     \<lparr>lf_table = [sid \<mapsto> sample_ready_row sid ''READY''], lf_dir = True, lf_docker = sample_commands sid (sb_SandboxNetwork cfg),
      lf_closed = 0, lf_ran = [], lf_main = MReady (sample_sandbox sid), lf_perf = PNone, lf_cleanup = CNone\<rparr>"
proof -
  let ?l = "\<lambda>tbl dir docker main. \<lparr>lf_table = tbl, lf_dir = dir, lf_docker = docker, lf_closed = 0, lf_ran = [],
      lf_main = main, lf_perf = PNone, lf_cleanup = CNone\<rparr>"
  let ?cmds = "sample_commands sid (sb_SandboxNetwork cfg)"
  let ?sub = "\<lparr>ms_ID = sid, ms_TeamID = ''t'', ms_Language = ''cpp'', ms_StorageKey = ''k'', ms_Status = ''PENDING''\<rparr>"
  let ?t0 = "[sid \<mapsto> sample_row ''PENDING'']" and ?t1 = "[sid \<mapsto> sample_row ''BUILDING'']"
  have "valid_table ?t0" by (simp add: valid_table_def sample_row_def pending_allowed)
  from life_reach.start[OF this] have 0: "life_reach cfg sid (?l ?t0 False [] MFetch)" by (simp add: life_start_def)
  have "GetSubmission True sid ?t0 = Inr (Some ?sub)" by (simp add: GetSubmission_def sample_row_def)
  then have "life_step cfg sid (?l ?t0 False [] MFetch) (?l ?t0 False [] (MFound ?sub))"
    using life_step.found[of "?l ?t0 False [] MFetch" True sid ?sub cfg] by simp
  note 1 = life_reach.step[OF 0 this]
  have "try_update True sid ''BUILDING'' [] ?t0 = ?t1"
    by (subst try_update_plain[of _ _ "sample_row ''PENDING''"]) (simp_all add: submission_statuses_def)
  then have "life_step cfg sid (?l ?t0 False [] (MFound ?sub)) (?l ?t1 False [] (MBuilding ?sub))"
    using life_step.building[of "?l ?t0 False [] (MFound ?sub)" ?sub cfg sid True] by simp
  note 2 = life_reach.step[OF 1 this]
  have "life_step cfg sid (?l ?t1 False [] (MBuilding ?sub)) (?l ?t1 True [] (MBuilt None))"
    using life_step.build[of "?l ?t1 False [] (MBuilding ?sub)" ?sub, OF _ sample_build] by simp
  note 3 = life_reach.step[OF 2 this]
  have "life_step cfg sid (?l ?t1 True [] (MBuilt None)) (?l ?t1 True ?cmds (MSandbox (Inr (sample_sandbox sid))))"
    using life_step.run_sandbox[of "?l ?t1 True [] (MBuilt None)", OF _ sample_sandbox_run] by simp
  note 4 = life_reach.step[OF 3 this]
  have "try_update True sid ''READY'' [(''container_id'', SqlText (sx_ContainerID (sample_sandbox sid))),
      (''endpoint_url'', SqlText (sx_EndpointURL (sample_sandbox sid)))] ?t1 = [sid \<mapsto> sample_ready_row sid ''READY'']"
    by (simp add: try_update_def UpdateStatus_def update_row_def submission_statuses_def hasKeys_def text_param_def
        gm_get_def sample_ready_row_def sample_row_def sample_sandbox_def)
  then have "life_step cfg sid (?l ?t1 True ?cmds (MSandbox (Inr (sample_sandbox sid))))
      (?l [sid \<mapsto> sample_ready_row sid ''READY''] True ?cmds (MReady (sample_sandbox sid)))"
    using life_step.ready[of "?l ?t1 True ?cmds (MSandbox (Inr (sample_sandbox sid)))" "sample_sandbox sid" cfg sid True] by simp
  from life_reach.step[OF 4 this] show ?thesis .
qed

text \<open>
  A submission that is marked SUCCESS need not have run: when the fleet refuses the correctness run, the
  row says RUNNING all the same, and after the grace period the cleanup finds it and writes SUCCESS. The
  lemma stops right before that last write.
\<close>

lemma sample_refused:
  "life_reach cfg sid
     \<lparr>lf_table = [sid \<mapsto> sample_ready_row sid ''RUNNING''], lf_dir = False, lf_docker = sample_commands sid (sb_SandboxNetwork cfg),
      lf_closed = 1, lf_ran = [], lf_main = MDone, lf_perf = PNone, lf_cleanup = CMarking (sample_sandbox sid)\<rparr>"
proof -
  let ?res = "sample_sandbox sid"
  let ?l = "\<lambda>st dir cl main cleanup. \<lparr>lf_table = [sid \<mapsto> sample_ready_row sid st], lf_dir = dir,
      lf_docker = sample_commands sid (sb_SandboxNetwork cfg), lf_closed = cl, lf_ran = [],
      lf_main = main, lf_perf = PNone, lf_cleanup = cleanup\<rparr>"
  let ?sub = "\<lparr>ms_ID = sid, ms_TeamID = ''t'', ms_Language = ''cpp'', ms_StorageKey = ''k'', ms_Status = ''RUNNING''\<rparr>"
  have "life_step cfg sid (?l ''READY'' True 0 (MReady ?res) CNone) (?l ''READY'' True 1 (MTriggered ?res) CNone)"
    using life_step.trigger_failed[of "?l ''READY'' True 0 (MReady ?res) CNone"] by simp
  note 1 = life_reach.step[OF sample_ready this]
  have "try_update True sid ''RUNNING'' [] [sid \<mapsto> sample_ready_row sid ''READY''] = [sid \<mapsto> sample_ready_row sid ''RUNNING'']"
    by (subst try_update_plain[of _ _ "sample_ready_row sid ''READY''"]) (simp_all add: submission_statuses_def)
  then have "life_step cfg sid (?l ''READY'' True 1 (MTriggered ?res) CNone) (?l ''RUNNING'' True 1 MReturning (CWaiting ?res))"
    using life_step.running[of "?l ''READY'' True 1 (MTriggered ?res) CNone" ?res cfg sid True] by simp
  note 2 = life_reach.step[OF 1 this]
  have "life_step cfg sid (?l ''RUNNING'' True 1 MReturning (CWaiting ?res)) (?l ''RUNNING'' False 1 MDone (CWaiting ?res))"
    using life_step.returned[of "?l ''RUNNING'' True 1 MReturning (CWaiting ?res)"] by simp
  note 3 = life_reach.step[OF 2 this]
  have "life_step cfg sid (?l ''RUNNING'' False 1 MDone (CWaiting ?res)) (?l ''RUNNING'' False 1 MDone (CReading ?res))"
    using life_step.grace_over[of "?l ''RUNNING'' False 1 MDone (CWaiting ?res)"] by simp
  note 4 = life_reach.step[OF 3 this]
  have "GetSubmission True sid [sid \<mapsto> sample_ready_row sid ''RUNNING''] = Inr (Some ?sub)"
    by (simp add: GetSubmission_def sample_ready_row_def sample_row_def)
  then have "life_step cfg sid (?l ''RUNNING'' False 1 MDone (CReading ?res)) (?l ''RUNNING'' False 1 MDone (CMarking ?res))"
    using life_step.still_running[of "?l ''RUNNING'' False 1 MDone (CReading ?res)" ?res True sid ?sub cfg] by simp
  from life_reach.step[OF 4 this] show ?thesis .
qed

lemma sample_success:
  assumes "life_reach cfg sid s" and "lf_cleanup s = CMarking (sample_sandbox sid)" and "lf_table s sid = Some r"
    and "lf_table s' = (lf_table s)(sid \<mapsto> r\<lparr>sr_status := ''SUCCESS''\<rparr>)"
    and "s' = s\<lparr>lf_table := lf_table s', lf_cleanup := CRemoving (sample_sandbox sid)\<rparr>"
  shows "life_step cfg sid s s'"
proof -
  have "try_update True sid ''SUCCESS'' [] (lf_table s) = lf_table s'"
    using try_update_plain[of "lf_table s" sid r "''SUCCESS''"] assms(3,4) by (simp add: submission_statuses_def)
  with life_step.mark_success[OF assms(2), of cfg sid True] assms(5) show ?thesis by metis
qed

lemma success_without_benchmark:
  "\<exists>s r. life_reach cfg sid s \<and> life_over s \<and> lf_table s sid = Some r \<and> sr_status r = ''SUCCESS'' \<and> lf_ran s = []"
proof -
  let ?s = "\<lambda>st cmds cleanup. \<lparr>lf_table = [sid \<mapsto> sample_ready_row sid st], lf_dir = False,
      lf_docker = sample_commands sid (sb_SandboxNetwork cfg) @ cmds, lf_closed = 1, lf_ran = [],
      lf_main = MDone, lf_perf = PNone, lf_cleanup = cleanup\<rparr>"
  let ?rm = "RemoveContainer ''c1'' (image_tag sid)"
  have 1: "life_reach cfg sid (?s ''RUNNING'' [] (CMarking (sample_sandbox sid)))" using sample_refused by simp
  have "life_step cfg sid (?s ''RUNNING'' [] (CMarking (sample_sandbox sid))) (?s ''SUCCESS'' [] (CRemoving (sample_sandbox sid)))"
    by (rule sample_success[OF 1, of "sample_ready_row sid ''RUNNING''"]) simp_all
  note 2 = life_reach.step[OF 1 this]
  have "life_step cfg sid (?s ''SUCCESS'' [] (CRemoving (sample_sandbox sid))) (?s ''SUCCESS'' ?rm CDone)"
    using life_step.cleaned[of "?s ''SUCCESS'' [] (CRemoving (sample_sandbox sid))" "sample_sandbox sid" cfg sid]
    by (simp add: sample_sandbox_def)
  from life_reach.step[OF 2 this] show ?thesis
    by (intro exI[of _ "?s ''SUCCESS'' ?rm CDone"]) (simp add: life_over_def)
qed

text \<open>
  The test that the row still says RUNNING and the write of SUCCESS are two statements: a status that is
  set in between is overwritten.
\<close>

lemma manual_status_overwritten:
  "\<exists>s s' r r'. life_reach cfg sid s \<and> life_step cfg sid s s' \<and> lf_table s sid = Some r \<and> sr_status r = ''FAILED_SYSTEM'' \<and>
     lf_table s' sid = Some r' \<and> sr_status r' = ''SUCCESS''"
proof -
  let ?s = "\<lambda>tbl cleanup. \<lparr>lf_table = tbl, lf_dir = False, lf_docker = sample_commands sid (sb_SandboxNetwork cfg),
      lf_closed = 1, lf_ran = [], lf_main = MDone, lf_perf = PNone, lf_cleanup = cleanup\<rparr>"
  let ?t = "\<lambda>st. [sid \<mapsto> sample_row st]"
  have "valid_table (?t ''FAILED_SYSTEM'')" by (simp add: valid_table_def submission_statuses_def)
  from life_reach.others[OF sample_refused this]
  have 1: "life_reach cfg sid (?s (?t ''FAILED_SYSTEM'') (CMarking (sample_sandbox sid)))" by simp
  have "life_step cfg sid (?s (?t ''FAILED_SYSTEM'') (CMarking (sample_sandbox sid))) (?s (?t ''SUCCESS'') (CRemoving (sample_sandbox sid)))"
    by (rule sample_success[OF 1, of "sample_row ''FAILED_SYSTEM''"]) simp_all
  with 1 show ?thesis
    by (intro exI[of _ "?s (?t ''FAILED_SYSTEM'') (CMarking (sample_sandbox sid))"]
        exI[of _ "?s (?t ''SUCCESS'') (CRemoving (sample_sandbox sid))"]) simp
qed

definition sample_manager_environment :: environment where
  "sample_manager_environment key = ''x''"

lemma sample_manager_loads: "\<exists>c. sandbox_Load sample_manager_environment = Inr c"
  by (simp add: sandbox_Load_def requireenv_def sample_manager_environment_def)




end
