(* ===== verification/WorkerPool.thy ===== *)
theory WorkerPool
  imports Worker
begin

text \<open>
  The bounded pool of the sandbox manager (\<open>New\<close>, \<open>Run\<close>, \<open>dispatch\<close> and \<open>worker\<close> of
  \<open>sandbox-manager/internal/worker/worker.go\<close>): the Redis queue, the channel of jobs, the dispatcher and
  the workers as a step relation. What a worker does with a submission is the theory Worker.
\<close>

section \<open>The dispatcher and the workers\<close>

text \<open>
  The queue in Redis, the channel of jobs with its capacity, the dispatcher and the workers. A worker
  that processes a submission is done with it at some point. Three fields are history: \<open>wp_pushed\<close> is
  what was ever pushed onto the queue, \<open>wp_taken\<close> what the workers have taken from the channel, and
  \<open>wp_lost\<close> what the dispatcher had popped and dropped.
\<close>

datatype dispatcher_phase = DispTop | DispPopping | DispHolding string | DispReturned

datatype worker_phase = WkWaiting | WkBusy string | WkExited

record worker_pool =
  wp_queue :: "string list"
  wp_jobs :: "string list"
  wp_capacity :: nat
  wp_jobsClosed :: bool
  wp_ctxDone :: bool
  wp_dispatcher :: dispatcher_phase
  wp_workers :: "worker_phase list"
  wp_done :: "string list"
  wp_pushed :: "string list"
  wp_taken :: "string list"
  wp_lost :: "string list"

text \<open>\<open>make(chan string, n)\<close> panics for a negative \<open>n\<close>; the queue may hold submissions already.\<close>

datatype pool_panic = MakeChanOutOfRange

definition New_worker_pool :: "sandbox_config \<Rightarrow> string list \<Rightarrow> pool_panic + worker_pool" where
  "New_worker_pool cfg queue =
     (if sb_WorkerCount cfg < 0 then Inl MakeChanOutOfRange
      else Inr \<lparr>wp_queue = queue, wp_jobs = [], wp_capacity = nat (sb_WorkerCount cfg), wp_jobsClosed = False,
        wp_ctxDone = False, wp_dispatcher = DispTop, wp_workers = [], wp_done = [], wp_pushed = queue,
        wp_taken = [], wp_lost = []\<rparr>)"

text \<open>\<open>Run\<close> starts the workers and then dispatches.\<close>

definition start_workers :: "sandbox_config \<Rightarrow> worker_pool \<Rightarrow> worker_pool" where
  "start_workers cfg p = p\<lparr>wp_workers := replicate (nat (sb_WorkerCount cfg)) WkWaiting\<rparr>"

definition worker_is :: "worker_pool \<Rightarrow> nat \<Rightarrow> worker_phase \<Rightarrow> bool" where
  "worker_is s i w \<longleftrightarrow> i < length (wp_workers s) \<and> wp_workers s ! i = w"

inductive pool_step :: "worker_pool \<Rightarrow> worker_pool \<Rightarrow> bool" where
  push: "pool_step s (s\<lparr>wp_queue := wp_queue s @ [sid], wp_pushed := wp_pushed s @ [sid]\<rparr>)"
| cancel_ctx: "pool_step s (s\<lparr>wp_ctxDone := True\<rparr>)"
| shut_down: "wp_dispatcher s = DispTop \<Longrightarrow> wp_ctxDone s \<Longrightarrow>
    pool_step s (s\<lparr>wp_jobsClosed := True, wp_dispatcher := DispReturned\<rparr>)"
| go_on: "wp_dispatcher s = DispTop \<Longrightarrow> \<not> wp_ctxDone s \<Longrightarrow> pool_step s (s\<lparr>wp_dispatcher := DispPopping\<rparr>)"
| nothing_popped: "wp_dispatcher s = DispPopping \<Longrightarrow> pool_step s (s\<lparr>wp_dispatcher := DispTop\<rparr>)"
| popped: "wp_dispatcher s = DispPopping \<Longrightarrow> wp_queue s = sid # rest \<Longrightarrow>
    pool_step s (s\<lparr>wp_queue := rest, wp_dispatcher := DispHolding sid\<rparr>)"
| hand_over: "wp_dispatcher s = DispHolding sid \<Longrightarrow> length (wp_jobs s) < wp_capacity s \<Longrightarrow>
    pool_step s (s\<lparr>wp_jobs := wp_jobs s @ [sid], wp_dispatcher := DispTop\<rparr>)"
| give_up: "wp_dispatcher s = DispHolding sid \<Longrightarrow> wp_ctxDone s \<Longrightarrow>
    pool_step s (s\<lparr>wp_lost := wp_lost s @ [sid], wp_dispatcher := DispReturned\<rparr>)"
| take_job: "worker_is s i WkWaiting \<Longrightarrow> wp_jobs s = sid # rest \<Longrightarrow>
    pool_step s (s\<lparr>wp_jobs := rest, wp_taken := wp_taken s @ [sid], wp_workers := (wp_workers s)[i := WkBusy sid]\<rparr>)"
| processed: "worker_is s i (WkBusy sid) \<Longrightarrow>
    pool_step s (s\<lparr>wp_done := wp_done s @ [sid], wp_workers := (wp_workers s)[i := WkWaiting]\<rparr>)"
| worker_exits: "worker_is s i WkWaiting \<Longrightarrow> wp_jobs s = [] \<Longrightarrow> wp_jobsClosed s \<Longrightarrow>
    pool_step s (s\<lparr>wp_workers := (wp_workers s)[i := WkExited]\<rparr>)"

inductive pool_reach :: "sandbox_config \<Rightarrow> worker_pool \<Rightarrow> bool" for cfg where
  start: "New_worker_pool cfg queue = Inr p \<Longrightarrow> pool_reach cfg (start_workers cfg p)"
| step: "pool_reach cfg s \<Longrightarrow> pool_step s s' \<Longrightarrow> pool_reach cfg s'"

section \<open>Nothing is lost before the shutdown, and the order is kept\<close>

fun held_by :: "dispatcher_phase \<Rightarrow> string list" where
  "held_by (DispHolding sid) = [sid]"
| "held_by _ = []"

fun busy_with :: "worker_phase \<Rightarrow> string list" where
  "busy_with (WkBusy sid) = [sid]"
| "busy_with _ = []"

definition in_work :: "worker_phase list \<Rightarrow> string list" where
  "in_work ws = concat (map busy_with ws)"

definition pool_inv :: "nat \<Rightarrow> worker_pool \<Rightarrow> bool" where
  "pool_inv n s \<longleftrightarrow>
     wp_pushed s = wp_taken s @ wp_jobs s @ held_by (wp_dispatcher s) @ wp_lost s @ wp_queue s \<and>
     mset (wp_taken s) = mset (in_work (wp_workers s)) + mset (wp_done s) \<and>
     length (wp_workers s) = n \<and> wp_capacity s = n \<and> length (wp_jobs s) \<le> n \<and> length (wp_lost s) \<le> 1 \<and>
     (wp_lost s \<noteq> [] \<longrightarrow> wp_ctxDone s \<and> wp_dispatcher s = DispReturned \<and> \<not> wp_jobsClosed s) \<and>
     (wp_jobsClosed s \<longrightarrow> wp_ctxDone s \<and> wp_dispatcher s = DispReturned) \<and>
     (\<forall>i. worker_is s i WkExited \<longrightarrow> wp_jobs s = [] \<and> wp_jobsClosed s)"

lemma in_work_update:
  "i < length ws \<Longrightarrow> mset (in_work (ws[i := w])) + mset (busy_with (ws ! i)) = mset (in_work ws) + mset (busy_with w)"
proof (induction ws arbitrary: i)
  case (Cons v vs)
  then show ?case by (cases i) (auto simp: in_work_def ac_simps)
qed simp

lemma worker_is_update [simp]:
  "worker_is (s\<lparr>wp_workers := (wp_workers s)[i := w]\<rparr>) j v \<longleftrightarrow>
     (if j = i \<and> i < length (wp_workers s) then v = w else worker_is s j v)"
  by (auto simp: worker_is_def)

lemma pool_inv_step [inv_intro]: "pool_step s s' \<Longrightarrow> pool_inv n s \<Longrightarrow> pool_inv n s'"
proof (induction rule: pool_step.induct)
  case (take_job s i sid rest)
  then have "mset (in_work ((wp_workers s)[i := WkBusy sid])) = add_mset sid (mset (in_work (wp_workers s)))"
    using in_work_update[of i "wp_workers s" "WkBusy sid"] by (simp add: worker_is_def)
  with take_job show ?case by (auto simp: pool_inv_def worker_is_def nth_list_update split: if_splits)
next
  case (processed s i sid)
  then have "add_mset sid (mset (in_work ((wp_workers s)[i := WkWaiting]))) = mset (in_work (wp_workers s))"
    using in_work_update[of i "wp_workers s" WkWaiting] by (simp add: worker_is_def)
  with processed show ?case by (auto simp: pool_inv_def worker_is_def nth_list_update split: if_splits)
next
  case (worker_exits s i)
  then have "mset (in_work ((wp_workers s)[i := WkExited])) = mset (in_work (wp_workers s))"
    using in_work_update[of i "wp_workers s" WkExited] by (simp add: worker_is_def)
  with worker_exits show ?case by (auto simp: pool_inv_def)
qed (auto simp: pool_inv_def worker_is_def)

lemma pool_reach_inv: "pool_reach cfg s \<Longrightarrow> pool_inv (nat (sb_WorkerCount cfg)) s"
proof (induction rule: pool_reach.induct)
  case (start queue p)
  have "in_work (replicate n WkWaiting) = []" for n by (induction n) (simp_all add: in_work_def)
  with start show ?case by (auto simp: New_worker_pool_def start_workers_def pool_inv_def worker_is_def split: if_splits)
next
  case (step s s')
  then show ?case by (simp add: pool_inv_step)
qed

text \<open>
  A shutdown while the dispatcher waits to hand a submission over leaves the channel open for good, so
  that no worker ever returns, and the submission that it held is in no queue any more.
\<close>

lemma give_up_stays:
  assumes "pool_step s s'" and "wp_dispatcher s = DispReturned" and "\<not> wp_jobsClosed s" and "\<forall>i. \<not> worker_is s i WkExited"
  shows "wp_dispatcher s' = DispReturned \<and> \<not> wp_jobsClosed s' \<and> (\<forall>i. \<not> worker_is s' i WkExited) \<and> wp_lost s' = wp_lost s"
  using assms by (induction rule: pool_step.induct) (auto simp: worker_is_def nth_list_update split: if_splits)

text \<open>
  C24. The worker pool keeps every submission: whatever the dispatcher, the workers, the producers and the
  shutdown do, the submissions ever pushed are, in their order, those the workers have taken, those in
  the channel, the one the dispatcher holds or has dropped, and those still queued; what was taken is
  done or in work; the channel never holds more than its capacity, is only closed by a dispatcher that
  has returned (so nothing is sent on it afterwards), and a worker only returns when it is closed and
  empty; and at most one submission is dropped, only during a shutdown.
\<close>

theorem pool_conserves:
  assumes "pool_reach cfg s"
  shows "wp_pushed s = wp_taken s @ wp_jobs s @ held_by (wp_dispatcher s) @ wp_lost s @ wp_queue s \<and>
    mset (wp_taken s) = mset (in_work (wp_workers s)) + mset (wp_done s) \<and>
    int (length (wp_jobs s)) \<le> max 0 (sb_WorkerCount cfg) \<and> length (wp_lost s) \<le> 1 \<and>
    (wp_lost s \<noteq> [] \<longrightarrow> wp_ctxDone s) \<and> (wp_jobsClosed s \<longrightarrow> wp_dispatcher s = DispReturned) \<and>
    (\<forall>i. worker_is s i WkExited \<longrightarrow> wp_jobs s = [] \<and> wp_jobsClosed s)"
  using pool_reach_inv[OF assms] by (auto simp: pool_inv_def)

text \<open>A shutdown in the wrong moment, on one worker.\<close>

lemma sample_give_up:
  assumes "sb_WorkerCount cfg = 1"
  shows "\<exists>s. pool_reach cfg s \<and> wp_lost s = [''s3''] \<and> wp_workers s = [WkBusy ''s1''] \<and> wp_dispatcher s = DispReturned \<and>
     wp_taken s = [''s1'']"
proof -
  let ?p = "\<lambda>q j ctx disp w t l. \<lparr>wp_queue = q, wp_jobs = j, wp_capacity = 1, wp_jobsClosed = False, wp_ctxDone = ctx,
      wp_dispatcher = disp, wp_workers = [w], wp_done = [], wp_pushed = [''s1'', ''s2'', ''s3''], wp_taken = t, wp_lost = l\<rparr>"
  have 0: "pool_reach cfg (?p [''s1'', ''s2'', ''s3''] [] False DispTop WkWaiting [] [])"
    using pool_reach.start[of cfg "[''s1'', ''s2'', ''s3'']"] assms by (simp add: New_worker_pool_def start_workers_def)
  have 1: "pool_reach cfg (?p [''s2'', ''s3''] [''s1''] False DispTop WkWaiting [] [])"
    using pool_reach.step[OF pool_reach.step[OF pool_reach.step[OF 0 pool_step.go_on] pool_step.popped] pool_step.hand_over] by simp
  have "pool_step (?p [''s2'', ''s3''] [''s1''] False DispTop WkWaiting [] []) (?p [''s2'', ''s3''] [] False DispTop (WkBusy ''s1'') [''s1''] [])"
    using pool_step.take_job[of "?p [''s2'', ''s3''] [''s1''] False DispTop WkWaiting [] []" 0] by (simp add: worker_is_def)
  note 2 = pool_reach.step[OF 1 this]
  have 3: "pool_reach cfg (?p [''s3''] [''s2''] False DispTop (WkBusy ''s1'') [''s1''] [])"
    using pool_reach.step[OF pool_reach.step[OF pool_reach.step[OF 2 pool_step.go_on] pool_step.popped] pool_step.hand_over] by simp
  have 4: "pool_reach cfg (?p [] [''s2''] True (DispHolding ''s3'') (WkBusy ''s1'') [''s1''] [])"
    using pool_reach.step[OF pool_reach.step[OF pool_reach.step[OF 3 pool_step.go_on] pool_step.popped] pool_step.cancel_ctx] by simp
  have "pool_reach cfg (?p [] [''s2''] True DispReturned (WkBusy ''s1'') [''s1''] [''s3''])"
    using pool_reach.step[OF 4 pool_step.give_up] by simp
  then show ?thesis
    by (intro exI[of _ "?p [] [''s2''] True DispReturned (WkBusy ''s1'') [''s1''] [''s3'']"]) simp
qed

definition one_worker_environment :: environment where
  "one_worker_environment key = (if key = ''CONFIG_WORKER_COUNT'' then ''1'' else ''x'')"

lemma one_worker_loads: "\<exists>cfg. sandbox_Load one_worker_environment = Inr cfg \<and> sb_WorkerCount cfg = 1"
proof -
  have "ParseInt ''1'' = Some 1" by code_simp
  then show ?thesis by (simp add: sandbox_Load_def requireenv_def one_worker_environment_def envInt_def)
qed

theorem pool_conserves_witness:
  "\<exists>cfg s. sandbox_Load one_worker_environment = Inr cfg \<and> pool_reach cfg s \<and> wp_lost s = [''s3''] \<and>
     wp_pushed s = [''s1''] @ wp_jobs s @ [''s3''] @ wp_queue s"
proof -
  obtain cfg where cfg: "sandbox_Load one_worker_environment = Inr cfg" "sb_WorkerCount cfg = 1" using one_worker_loads by blast
  obtain s where s: "pool_reach cfg s" "wp_lost s = [''s3'']" "wp_workers s = [WkBusy ''s1'']" "wp_dispatcher s = DispReturned"
    "wp_taken s = [''s1'']" using sample_give_up[OF cfg(2)] by blast
  with pool_conserves[OF s(1)] cfg show ?thesis by (intro exI[of _ cfg] exI[of _ s]) simp
qed

end
