(* ===== verification/Hub.thy ===== *)
theory Hub
  imports Prelude "HOL-Library.Sublist"
begin

text \<open>
  The hub of the leaderboard service (\<open>leaderboard-service/hub.go\<close>) with the goroutines that
  \<open>handleWebSocket\<close> (\<open>main.go\<close>) starts for every browser: the event loop, the two pumps and the goroutine
  that sends the initial state. All interleavings are runs of one step relation. Clients are numbered in
  the order in which their connections are accepted.
\<close>

section \<open>State\<close>

definition clientSendBuffer :: nat where
  "clientSendBuffer = 64"

definition registerBuffer :: nat where
  "registerBuffer = 32"

definition unregisterBuffer :: nat where
  "unregisterBuffer = 32"

definition broadcastBuffer :: nat where
  "broadcastBuffer = 256"

text \<open>Every message is HTML text; the constructor tells where it came from.\<close>

datatype hub_msg = Initial string | Update string

datatype hub_loop =
    HubIdle
  | HubSending string "nat list"
  | HubDropping nat string "nat list"

datatype pump_phase = PumpNone | PumpRunning | PumpLeaving | PumpGone

datatype init_phase = InitNone | InitFetching | InitSending "string list" | InitDone

datatype hub_panic = HubSendsOnClosed | HubClosesTwice | InitialSendsOnClosed

text \<open>
  \<open>hb_closed c\<close> counts how often the channel \<open>send\<close> of client \<open>c\<close> was closed. History: \<open>hb_taken c\<close> is
  what its write pump has taken from the channel, \<open>hb_log\<close> the broadcasts the loop has dealt with, and
  \<open>hb_from c\<close> their number when the client was registered.
\<close>

record hub =
  hb_clients :: "nat list"
  hb_register :: "nat list"
  hb_unregister :: "nat list"
  hb_broadcast :: "string list"
  hb_loop :: hub_loop
  hb_next :: nat
  hb_send :: "nat \<Rightarrow> hub_msg list"
  hb_closed :: "nat \<Rightarrow> nat"
  hb_writer :: "nat \<Rightarrow> pump_phase"
  hb_reader :: "nat \<Rightarrow> pump_phase"
  hb_init :: "nat \<Rightarrow> init_phase"
  hb_panic :: "hub_panic option"
  hb_taken :: "nat \<Rightarrow> hub_msg list"
  hb_log :: "string list"
  hb_from :: "nat \<Rightarrow> nat"

definition newHub :: hub where
  "newHub =
     \<lparr>hb_clients = [], hb_register = [], hb_unregister = [], hb_broadcast = [], hb_loop = HubIdle, hb_next = 0,
      hb_send = (\<lambda>c. []), hb_closed = (\<lambda>c. 0), hb_writer = (\<lambda>c. PumpNone), hb_reader = (\<lambda>c. PumpNone),
      hb_init = (\<lambda>c. InitNone), hb_panic = None, hb_taken = (\<lambda>c. []), hb_log = [], hb_from = (\<lambda>c. 0)\<rparr>"

section \<open>The event loop\<close>

text \<open>\<open>case client := <-h.unregister\<close>: closing a closed channel would panic.\<close>

definition hub_remove :: "nat \<Rightarrow> hub \<Rightarrow> hub" where
  "hub_remove c h =
     (if c \<in> set (hb_clients h) then
        if hb_closed h c > 0 then h\<lparr>hb_panic := Some HubClosesTwice\<rparr>
        else h\<lparr>hb_clients := remove1 c (hb_clients h), hb_closed := (hb_closed h)(c := 1)\<rparr>
      else h)"

text \<open>
  One client of a broadcast: \<open>select\<close> with a \<open>default\<close>. A send on a closed channel panics even there. The
  order of the iteration over the map is fixed when the broadcast is taken.
\<close>

definition hub_offer :: "nat \<Rightarrow> string \<Rightarrow> nat list \<Rightarrow> hub \<Rightarrow> hub" where
  "hub_offer c html rest h =
     (if hb_closed h c > 0 then h\<lparr>hb_panic := Some HubSendsOnClosed\<rparr>
      else if length (hb_send h c) < clientSendBuffer then
        h\<lparr>hb_send := (hb_send h)(c := hb_send h c @ [Update html]), hb_loop := HubSending html rest\<rparr>
      else h\<lparr>hb_loop := HubDropping c html rest\<rparr>)"

text \<open>\<open>handleWebSocket\<close> after the upgrade: registration, the initial state and both pumps.\<close>

definition handleWebSocket :: "nat \<Rightarrow> hub \<Rightarrow> hub" where
  [simp]: "handleWebSocket c h =
     h\<lparr>hb_next := Suc c, hb_register := hb_register h @ [c], hb_writer := (hb_writer h)(c := PumpRunning),
       hb_reader := (hb_reader h)(c := PumpRunning), hb_init := (hb_init h)(c := InitFetching)\<rparr>"

inductive hub_step :: "hub \<Rightarrow> hub \<Rightarrow> bool" where
  connect: "length (hb_register h) < registerBuffer \<Longrightarrow> hb_next h = c \<Longrightarrow>
    hub_step h (handleWebSocket c h)"
| announce: "length (hb_broadcast h) < broadcastBuffer \<Longrightarrow> hub_step h (h\<lparr>hb_broadcast := hb_broadcast h @ [html]\<rparr>)"
| registered: "hb_loop h = HubIdle \<Longrightarrow> hb_register h = c # rest \<Longrightarrow>
    hub_step h (h\<lparr>hb_register := rest, hb_clients := hb_clients h @ [c], hb_from := (hb_from h)(c := length (hb_log h))\<rparr>)"
| unregistered: "hb_loop h = HubIdle \<Longrightarrow> hb_unregister h = c # rest \<Longrightarrow>
    hub_step h (hub_remove c (h\<lparr>hb_unregister := rest\<rparr>))"
| broadcast: "hb_loop h = HubIdle \<Longrightarrow> hb_broadcast h = html # rest \<Longrightarrow> mset order = mset (hb_clients h) \<Longrightarrow>
    hub_step h (h\<lparr>hb_broadcast := rest, hb_loop := HubSending html order\<rparr>)"
| offer: "hb_loop h = HubSending html (c # rest) \<Longrightarrow> hub_step h (hub_offer c html rest h)"
| drop_slow: "hb_loop h = HubDropping c html rest \<Longrightarrow> length (hb_unregister h) < unregisterBuffer \<Longrightarrow>
    hub_step h (h\<lparr>hb_unregister := hb_unregister h @ [c], hb_loop := HubSending html rest\<rparr>)"
| broadcast_done: "hb_loop h = HubSending html [] \<Longrightarrow>
    hub_step h (h\<lparr>hb_loop := HubIdle, hb_log := hb_log h @ [html]\<rparr>)"
| pump_write: "hb_writer h c = PumpRunning \<Longrightarrow> hb_send h c = m # rest \<Longrightarrow>
    hub_step h (h\<lparr>hb_send := (hb_send h)(c := rest), hb_taken := (hb_taken h)(c := hb_taken h c @ [m]),
      hb_writer := (hb_writer h)(c := if failed then PumpLeaving else PumpRunning)\<rparr>)"
| channel_closed: "hb_writer h c = PumpRunning \<Longrightarrow> hb_send h c = [] \<Longrightarrow> hb_closed h c > 0 \<Longrightarrow>
    hub_step h (h\<lparr>hb_writer := (hb_writer h)(c := PumpLeaving)\<rparr>)"
| writer_leaves: "hb_writer h c = PumpLeaving \<Longrightarrow> length (hb_unregister h) < unregisterBuffer \<Longrightarrow>
    hub_step h (h\<lparr>hb_unregister := hb_unregister h @ [c], hb_writer := (hb_writer h)(c := PumpGone)\<rparr>)"
| read_error: "hb_reader h c = PumpRunning \<Longrightarrow> hub_step h (h\<lparr>hb_reader := (hb_reader h)(c := PumpLeaving)\<rparr>)"
| reader_leaves: "hb_reader h c = PumpLeaving \<Longrightarrow> length (hb_unregister h) < unregisterBuffer \<Longrightarrow>
    hub_step h (h\<lparr>hb_unregister := hb_unregister h @ [c], hb_reader := (hb_reader h)(c := PumpGone)\<rparr>)"
| fetched: "hb_init h c = InitFetching \<Longrightarrow> hub_step h (h\<lparr>hb_init := (hb_init h)(c := InitSending rows)\<rparr>)"
| fetch_failed: "hb_init h c = InitFetching \<Longrightarrow> hub_step h (h\<lparr>hb_init := (hb_init h)(c := InitDone)\<rparr>)"
| initial_row: "hb_init h c = InitSending (row # rows) \<Longrightarrow> hb_closed h c = 0 \<Longrightarrow> length (hb_send h c) < clientSendBuffer \<Longrightarrow>
    hub_step h (h\<lparr>hb_send := (hb_send h)(c := hb_send h c @ [Initial row]), hb_init := (hb_init h)(c := InitSending rows)\<rparr>)"
| initial_row_closed: "hb_init h c = InitSending (row # rows) \<Longrightarrow> hb_closed h c > 0 \<Longrightarrow>
    hub_step h (h\<lparr>hb_panic := Some InitialSendsOnClosed\<rparr>)"
| initial_done: "hb_init h c = InitSending [] \<Longrightarrow> hub_step h (h\<lparr>hb_init := (hb_init h)(c := InitDone)\<rparr>)"

text \<open>A panic ends the process: there are no steps after it.\<close>

inductive hub_reach :: "hub \<Rightarrow> bool" where
  start: "hub_reach newHub"
| step: "hub_reach h \<Longrightarrow> hb_panic h = None \<Longrightarrow> hub_step h h' \<Longrightarrow> hub_reach h'"

section \<open>Invariants\<close>

definition in_offer :: "hub_loop \<Rightarrow> nat list" where
  "in_offer l = (case l of HubIdle \<Rightarrow> [] | HubSending html rest \<Rightarrow> rest | HubDropping c html rest \<Rightarrow> c # rest)"

definition hub_inv :: "hub \<Rightarrow> bool" where
  "hub_inv h \<longleftrightarrow>
     distinct (hb_clients h @ hb_register h) \<and>
     (\<forall>c \<in> set (hb_clients h @ hb_register h). c < hb_next h \<and> hb_closed h c = 0) \<and>
     distinct (in_offer (hb_loop h)) \<and> set (in_offer (hb_loop h)) \<subseteq> set (hb_clients h) \<and>
     (\<forall>c. hb_closed h c \<le> 1 \<and> length (hb_send h c) \<le> clientSendBuffer) \<and>
     (\<forall>c. hb_next h \<le> c \<longrightarrow> hb_closed h c = 0 \<and> hb_send h c = [] \<and> hb_taken h c = [] \<and>
        hb_writer h c = PumpNone \<and> hb_reader h c = PumpNone \<and> hb_init h c = InitNone) \<and>
     length (hb_register h) \<le> registerBuffer \<and> length (hb_unregister h) \<le> unregisterBuffer \<and>
     length (hb_broadcast h) \<le> broadcastBuffer \<and>
     hb_panic h \<in> {None, Some InitialSendsOnClosed}"

lemma hub_inv_client: "hub_inv h \<Longrightarrow> c \<in> set (hb_clients h) \<Longrightarrow> \<not> hb_next h \<le> c \<and> hb_closed h c = 0"
  unfolding hub_inv_def set_append ball_Un not_le by blast

lemma hub_remove_inv:
  assumes "hub_inv h" and "hb_loop h = HubIdle"
  shows "hub_inv (hub_remove c h)"
proof (cases "c \<in> set (hb_clients h)")
  case True
  with hub_inv_client[OF assms(1) True] assms show ?thesis
    by (auto simp: hub_remove_def hub_inv_def in_offer_def dest: in_set_remove1[THEN iffD1, rotated] set_remove1_subset[THEN subsetD])
qed (use assms in \<open>simp add: hub_remove_def\<close>)

lemma hub_offer_inv:
  assumes "hub_inv h" and "hb_loop h = HubSending html (c # rest)"
  shows "hub_inv (hub_offer c html rest h)"
proof -
  have c: "c \<in> set (hb_clients h)" using assms by (auto simp: hub_inv_def in_offer_def)
  with hub_inv_client[OF assms(1) c] assms show ?thesis by (auto simp: hub_offer_def hub_inv_def in_offer_def)
qed

lemma hub_inv_step [inv_intro]: "hub_step h h' \<Longrightarrow> hub_inv h \<Longrightarrow> hb_panic h = None \<Longrightarrow> hub_inv h'"
proof (induction rule: hub_step.induct)
  case (unregistered h c rest)
  then have "hub_inv (h\<lparr>hb_unregister := rest\<rparr>)" by (simp add: hub_inv_def)
  with unregistered show ?case by (intro hub_remove_inv) simp_all
next
  case (offer h html c rest)
  then show ?case by (intro hub_offer_inv)
next
  case (broadcast h html rest order)
  have "set order = set (hb_clients h)" "distinct order \<longleftrightarrow> distinct (hb_clients h)"
    using broadcast(3) by (auto dest: mset_eq_setD mset_eq_imp_distinct_iff)
  with broadcast show ?case by (simp add: hub_inv_def in_offer_def)
next
  case (pump_write h c m rest failed)
  then have "length (m # rest) \<le> clientSendBuffer" unfolding hub_inv_def by metis
  with pump_write show ?case by (auto simp: hub_inv_def)
qed (auto simp: hub_inv_def in_offer_def ball_Un)

lemma hub_reach_inv: "hub_reach h \<Longrightarrow> hub_inv h"
proof (induction rule: hub_reach.induct)
  case start
  show ?case by (simp add: hub_inv_def newHub_def in_offer_def)
next
  case (step h h')
  then show ?case by (simp add: hub_inv_step)
qed

section \<open>No silent gaps\<close>

fun updates :: "hub_msg list \<Rightarrow> string list" where
  "updates [] = []"
| "updates (Update html # ms) = html # updates ms"
| "updates (Initial html # ms) = updates ms"

lemma updates_append [simp]: "updates (ms @ ns) = updates ms @ updates ns"
  by (induction ms rule: updates.induct) simp_all

definition accepted :: "hub \<Rightarrow> nat \<Rightarrow> hub_msg list" where
  "accepted h c = hb_taken h c @ hb_send h c"

text \<open>Whether the broadcast in progress has passed a client.\<close>

definition in_progress :: "hub_loop \<Rightarrow> nat \<Rightarrow> string list" where
  "in_progress l c =
     (case l of
        HubIdle \<Rightarrow> []
      | HubSending html rest \<Rightarrow> if c \<in> set rest then [] else [html]
      | HubDropping d html rest \<Rightarrow> if c \<in> set rest then [] else [html])"

definition to_be_dropped :: "hub \<Rightarrow> nat \<Rightarrow> bool" where
  "to_be_dropped h c \<longleftrightarrow> c \<in> set (hb_unregister h) \<or> (\<exists>html rest. hb_loop h = HubDropping c html rest)"

definition broadcasts_since :: "hub \<Rightarrow> nat \<Rightarrow> string list" where
  "broadcasts_since h c = drop (hb_from h c) (hb_log h) @ in_progress (hb_loop h) c"

definition gap_at :: "hub \<Rightarrow> nat \<Rightarrow> bool" where
  "gap_at h c \<longleftrightarrow>
     hb_from h c \<le> length (hb_log h) \<and>
     (c \<in> set (hb_register h) \<or> hb_next h \<le> c \<longrightarrow> updates (accepted h c) = []) \<and>
     subseq (updates (accepted h c)) (broadcasts_since h c) \<and>
     (c \<in> set (hb_clients h) \<and> \<not> to_be_dropped h c \<longrightarrow> updates (accepted h c) = broadcasts_since h c)"

lemmas gap_simps = gap_at_def accepted_def in_progress_def to_be_dropped_def broadcasts_since_def

lemma subseq_append_right: "subseq xs ys \<Longrightarrow> subseq xs (ys @ zs)"
  using list_emb_append_mono[of "(=)" xs ys "[]" zs] by simp

lemma hub_remove_gap:
  assumes "gap_at h x" and "hb_unregister h = c # rest" and "hb_loop h = HubIdle" and "hub_inv h"
  shows "gap_at (hub_remove c (h\<lparr>hb_unregister := rest\<rparr>)) x"
proof -
  have "distinct (hb_clients h)" using assms(4) by (simp add: hub_inv_def)
  with assms(1,2,3) hub_inv_client[OF assms(4)] show ?thesis by (cases "x = c") (auto simp: hub_remove_def gap_simps)
qed

lemma hub_offer_gap:
  assumes "gap_at h x" and "hb_loop h = HubSending html (c # rest)" and "hub_inv h"
  shows "gap_at (hub_offer c html rest h) x"
proof -
  have c: "c \<in> set (hb_clients h)" "c \<notin> set rest" "c \<notin> set (hb_register h)"
    using assms(2,3) by (auto simp: hub_inv_def in_offer_def)
  note c' = hub_inv_client[OF assms(3) c(1)]
  show ?thesis
  proof (cases "x = c")
    case True
    with assms(1,2) have s: "subseq (updates (accepted h c)) (drop (hb_from h c) (hb_log h))" "hb_from h c \<le> length (hb_log h)"
      by (simp_all add: gap_simps)
    then have "subseq (updates (accepted h c) @ [html]) (drop (hb_from h c) (hb_log h) @ [html])"
      "subseq (updates (accepted h c)) (drop (hb_from h c) (hb_log h) @ [html])"
      by (simp_all add: subseq_append_right)
    with True assms(1,2) c c' s(2) show ?thesis by (simp add: hub_offer_def gap_simps)
  next
    case False
    with assms(1,2) c' show ?thesis by (simp add: hub_offer_def gap_simps)
  qed
qed

lemma gap_at_step [inv_intro]: "hub_step h h' \<Longrightarrow> gap_at h x \<Longrightarrow> hub_inv h \<Longrightarrow> gap_at h' x"
proof (induction rule: hub_step.induct)
  case (unregistered h c rest)
  then show ?case by (intro hub_remove_gap)
next
  case (offer h html c rest)
  then show ?case by (intro hub_offer_gap)
next
  case (broadcast h html rest order)
  have "set order = set (hb_clients h)" using broadcast(3) by (rule mset_eq_setD)
  with broadcast show ?case by (auto simp: gap_simps subseq_append_right)
next
  case (registered h c rest)
  then have "c \<notin> set rest" "c \<notin> set (hb_clients h)" by (auto simp: hub_inv_def)
  with registered show ?case by (cases "x = c") (auto simp: gap_simps)
next
  case (drop_slow h c html rest)
  then show ?case by (auto simp: gap_simps)
next
  case (broadcast_done h html)
  then show ?case by (auto simp: gap_simps)
next
  case (pump_write h c m rest failed)
  then show ?case by (cases "x = c"; cases m) (simp_all add: gap_simps)
next
  case (initial_row h c row rows)
  then show ?case by (cases "x = c") (simp_all add: gap_simps)
qed (auto simp: gap_simps hub_inv_def)

lemma hub_reach_gap: "hub_reach h \<Longrightarrow> gap_at h c"
proof (induction rule: hub_reach.induct)
  case start
  show ?case by (simp add: gap_simps newHub_def)
next
  case (step h h')
  then show ?case using gap_at_step hub_reach_inv by blast
qed

section \<open>How it can go wrong\<close>

text \<open>
  The loop itself sends on the channel \<open>unregister\<close> that only the loop empties: when it is full, the hub
  waits for itself, and nothing that the clients or the subscriber do can change that.
\<close>

lemma hub_waits_for_itself:
  assumes "hub_step h h'" and "hb_loop h = HubDropping c html rest" and "length (hb_unregister h) = unregisterBuffer"
  shows "hb_loop h' = hb_loop h \<and> hb_unregister h' = hb_unregister h \<and> hb_clients h' = hb_clients h \<and> hb_log h' = hb_log h"
  using assms by (induction rule: hub_step.induct) auto

lemma hub_connected:
  "\<exists>h. hub_reach h \<and> hb_panic h = None \<and> hb_clients h = [0..<n] \<and> hb_next h = n \<and> hb_register h = [] \<and> hb_unregister h = [] \<and>
     hb_broadcast h = [] \<and> hb_loop h = HubIdle \<and> (\<forall>c<n. hb_reader h c = PumpRunning \<and> hb_init h c = InitFetching \<and> hb_send h c = [])"
proof (induction n)
  case 0
  show ?case by (intro exI[of _ newHub]) (simp add: hub_reach.start, simp add: newHub_def)
next
  case (Suc n)
  then obtain h where h: "hub_reach h" "hb_panic h = None" "hb_clients h = [0..<n]" "hb_next h = n" "hb_register h = []"
    "hb_unregister h = []" "hb_broadcast h = []" "hb_loop h = HubIdle"
    "\<forall>c<n. hb_reader h c = PumpRunning \<and> hb_init h c = InitFetching \<and> hb_send h c = []" by blast
  have free: "hb_send h n = []" using hub_reach_inv[OF h(1)] h(4) by (simp add: hub_inv_def)
  have "length (hb_register h) < registerBuffer" using h(5) by (simp add: registerBuffer_def)
  note 1 = hub_reach.step[OF h(1,2) hub_step.connect[OF this h(4)]]
  note 2 = hub_reach.step[OF 1 _ hub_step.registered]
  show ?case
    by (rule exI, rule conjI, rule 2[where c1 = n and rest1 = "[]"]) (use h free in \<open>auto simp: less_Suc_eq\<close>)
qed

lemma hub_filled:
  assumes "m \<le> clientSendBuffer" and "0 < n"
  shows "\<exists>h. hub_reach h \<and> hb_panic h = None \<and> hb_clients h = [0..<n] \<and> hb_unregister h = [] \<and> hb_broadcast h = [] \<and>
     hb_loop h = HubIdle \<and> (\<forall>c<n. hb_reader h c = PumpRunning) \<and> length (hb_send h 0) = m \<and>
     hb_init h 0 = InitSending (replicate (clientSendBuffer - m) ''row'')"
  using assms(1)
proof (induction m)
  case 0
  obtain h where h: "hub_reach h" "hb_panic h = None" "hb_clients h = [0..<n]" "hb_unregister h = []" "hb_broadcast h = []"
    "hb_loop h = HubIdle" "\<forall>c<n. hb_reader h c = PumpRunning \<and> hb_init h c = InitFetching \<and> hb_send h c = []"
    using hub_connected[of n] by blast
  then have "hb_init h 0 = InitFetching" "hb_send h 0 = []" using assms(2) by simp_all
  with hub_reach.step[OF h(1,2) hub_step.fetched[OF this(1), of "replicate clientSendBuffer ''row''"]] h show ?case
    by (intro exI[of _ "h\<lparr>hb_init := (hb_init h)(0 := InitSending (replicate clientSendBuffer ''row''))\<rparr>"]) simp
next
  case (Suc m)
  then obtain h where h: "hub_reach h" "hb_panic h = None" "hb_clients h = [0..<n]" "hb_unregister h = []" "hb_broadcast h = []"
    "hb_loop h = HubIdle" "\<forall>c<n. hb_reader h c = PumpRunning" "length (hb_send h 0) = m"
    "hb_init h 0 = InitSending (replicate (clientSendBuffer - m) ''row'')" by auto
  have "clientSendBuffer - m = Suc (clientSendBuffer - Suc m)" using Suc.prems by simp
  then have i: "hb_init h 0 = InitSending (''row'' # replicate (clientSendBuffer - Suc m) ''row'')" using h(9) by simp
  have "0 \<in> set (hb_clients h)" using h(3) assms(2) by simp
  then have "hb_closed h 0 = 0" using hub_inv_client[OF hub_reach_inv[OF h(1)]] by blast
  moreover have "length (hb_send h 0) < clientSendBuffer" using h(8) Suc.prems by simp
  ultimately have "hub_step h (h\<lparr>hb_send := (hb_send h)(0 := hb_send h 0 @ [Initial ''row'']),
      hb_init := (hb_init h)(0 := InitSending (replicate (clientSendBuffer - Suc m) ''row''))\<rparr>)"
    by (rule hub_step.initial_row[OF i])
  from hub_reach.step[OF h(1,2) this] h show ?case
    by (intro exI[of _ "h\<lparr>hb_send := (hb_send h)(0 := hb_send h 0 @ [Initial ''row'']),
      hb_init := (hb_init h)(0 := InitSending (replicate (clientSendBuffer - Suc m) ''row''))\<rparr>"]) simp
qed

lemma hub_can_block:
  assumes "k \<le> unregisterBuffer"
  shows "\<exists>h html rest. hub_reach h \<and> hb_panic h = None \<and> hb_loop h = HubDropping 0 html rest \<and> length (hb_unregister h) = k \<and>
     (\<forall>c. k < c \<and> c \<le> unregisterBuffer \<longrightarrow> hb_reader h c = PumpRunning)"
  using assms
proof (induction k)
  case 0
  let ?n = "Suc unregisterBuffer"
  obtain h where h: "hub_reach h" "hb_panic h = None" "hb_clients h = [0..<?n]" "hb_unregister h = []" "hb_broadcast h = []"
    "hb_loop h = HubIdle" "\<forall>c<?n. hb_reader h c = PumpRunning" "length (hb_send h 0) = clientSendBuffer"
    using hub_filled[of clientSendBuffer ?n] by blast
  have "length (hb_broadcast h) < broadcastBuffer" using h(5) by (simp add: broadcastBuffer_def)
  note 1 = hub_reach.step[OF h(1,2) hub_step.announce[OF this, of "''row''"]]
  let ?h1 = "h\<lparr>hb_broadcast := hb_broadcast h @ [''row'']\<rparr>"
  have "0 < ?n" by simp
  then obtain rest where rest: "hb_clients h = 0 # rest" using h(3) upt_conv_Cons by metis
  let ?h2 = "?h1\<lparr>hb_broadcast := [], hb_loop := HubSending ''row'' (0 # rest)\<rparr>"
  have "hub_step ?h1 ?h2" by (rule hub_step.broadcast) (use h(5,6) rest in simp_all)
  note 2 = hub_reach.step[OF 1 _ this]
  have "0 \<in> set (hb_clients h)" using rest by simp
  then have "hb_closed h 0 = 0" using hub_inv_client[OF hub_reach_inv[OF h(1)]] by blast
  then have "hub_offer 0 ''row'' rest ?h2 = ?h2\<lparr>hb_loop := HubDropping 0 ''row'' rest\<rparr>"
    using h(8) by (simp add: hub_offer_def)
  moreover have "hub_step ?h2 (hub_offer 0 ''row'' rest ?h2)" by (rule hub_step.offer) simp
  ultimately have "hub_reach (?h2\<lparr>hb_loop := HubDropping 0 ''row'' rest\<rparr>)" using hub_reach.step[OF 2] h(2) by simp
  then show ?case using h by (intro exI[of _ "?h2\<lparr>hb_loop := HubDropping 0 ''row'' rest\<rparr>"]) auto
next
  case (Suc k)
  then obtain h html rest where h: "hub_reach h" "hb_panic h = None" "hb_loop h = HubDropping 0 html rest"
    "length (hb_unregister h) = k" "\<forall>c. k < c \<and> c \<le> unregisterBuffer \<longrightarrow> hb_reader h c = PumpRunning" by auto
  have "hb_reader h (Suc k) = PumpRunning" using h(5) Suc.prems by simp
  note 1 = hub_reach.step[OF h(1,2) hub_step.read_error[OF this]]
  let ?h1 = "h\<lparr>hb_reader := (hb_reader h)(Suc k := PumpLeaving)\<rparr>"
  have "hub_step ?h1 (?h1\<lparr>hb_unregister := hb_unregister h @ [Suc k], hb_reader := (hb_reader ?h1)(Suc k := PumpGone)\<rparr>)"
    using hub_step.reader_leaves[of ?h1 "Suc k"] h(4) Suc.prems by simp
  from hub_reach.step[OF 1 _ this] h show ?case
    by (intro exI[of _ "?h1\<lparr>hb_unregister := hb_unregister h @ [Suc k], hb_reader := (hb_reader ?h1)(Suc k := PumpGone)\<rparr>"]) auto
qed

text \<open>
  The goroutine that sends the initial state does not know that the hub has closed the channel: a browser
  that leaves while its rows are being sent takes the whole service down.
\<close>

lemma hub_can_crash: "\<exists>h. hub_reach h \<and> hb_panic h = Some InitialSendsOnClosed"
proof -
  obtain h where h: "hub_reach h" "hb_panic h = None" "hb_clients h = [0..<1]" "hb_unregister h = []" "hb_loop h = HubIdle"
    "hb_reader h 0 = PumpRunning" "hb_init h 0 = InitFetching"
    using hub_connected[of 1] by auto
  have "hb_closed h 0 = 0" using hub_inv_client[OF hub_reach_inv[OF h(1)], of 0] h(3) by simp
  note 1 = hub_reach.step[OF h(1,2) hub_step.fetched[OF h(7), of "[''row'']"]]
  let ?h1 = "h\<lparr>hb_init := (hb_init h)(0 := InitSending [''row''])\<rparr>"
  have "hub_step ?h1 (?h1\<lparr>hb_reader := (hb_reader h)(0 := PumpLeaving)\<rparr>)"
    using hub_step.read_error[of ?h1 0] h(6) by simp
  note 2 = hub_reach.step[OF 1 _ this]
  let ?h2 = "?h1\<lparr>hb_reader := (hb_reader h)(0 := PumpLeaving)\<rparr>"
  have "hub_step ?h2 (?h2\<lparr>hb_unregister := [0], hb_reader := (hb_reader h)(0 := PumpGone)\<rparr>)"
    using hub_step.reader_leaves[of ?h2 0] h(4) by (simp add: unregisterBuffer_def)
  note 3 = hub_reach.step[OF 2 _ this]
  let ?h3 = "?h2\<lparr>hb_unregister := [0], hb_reader := (hb_reader h)(0 := PumpGone)\<rparr>"
  let ?h4 = "?h3\<lparr>hb_unregister := [], hb_clients := [], hb_closed := (hb_closed h)(0 := 1)\<rparr>"
  have "hub_step ?h3 ?h4"
    using hub_step.unregistered[of ?h3 0 "[]"] h(3,5) \<open>hb_closed h 0 = 0\<close> by (simp add: hub_remove_def)
  note 4 = hub_reach.step[OF 3 _ this]
  have "hub_step ?h4 (?h4\<lparr>hb_panic := Some InitialSendsOnClosed\<rparr>)"
    by (rule hub_step.initial_row_closed[of _ 0 "''row''" "[]"]) simp_all
  from hub_reach.step[OF 4 _ this] h(2) show ?thesis
    by (intro exI[of _ "?h4\<lparr>hb_panic := Some InitialSendsOnClosed\<rparr>"]) simp
qed

section \<open>What the hub guarantees\<close>

text \<open>
  C30. The hub handles its channels safely: in every reachable state, whatever browsers, pumps and the
  subscriber do, the event loop has never sent on a closed channel and never closed one twice, every
  registered client has an open channel, each channel is closed at most once, no client is registered
  twice, and no buffer exceeds its capacity.
\<close>

theorem hub_safe:
  assumes "hub_reach h"
  shows "hb_panic h \<noteq> Some HubSendsOnClosed \<and> hb_panic h \<noteq> Some HubClosesTwice \<and>
    (\<forall>c \<in> set (hb_clients h). hb_closed h c = 0) \<and> (\<forall>c. hb_closed h c \<le> 1) \<and>
    distinct (hb_clients h @ hb_register h) \<and> (\<forall>c. length (hb_send h c) \<le> clientSendBuffer) \<and>
    length (hb_register h) \<le> registerBuffer \<and> length (hb_unregister h) \<le> unregisterBuffer \<and>
    length (hb_broadcast h) \<le> broadcastBuffer"
  using hub_reach_inv[OF assms] by (auto simp: hub_inv_def)

text \<open>
  C29. No silent gaps: what a browser has been sent of the broadcasts is, in order and without repetition,
  a part of those since its registration; and as long as it is registered and not about to be dropped,
  it is all of them. A browser that misses an update is disconnected, so that it reloads the state.
\<close>

theorem hub_no_gap:
  assumes "hub_reach h"
  shows "subseq (updates (accepted h c)) (broadcasts_since h c) \<and>
    (c \<in> set (hb_clients h) \<and> \<not> to_be_dropped h c \<longrightarrow> updates (accepted h c) = broadcasts_since h c)"
  using hub_reach_gap[OF assms, of c] by (simp add: gap_at_def)

theorem hub_safe_witness:
  "\<exists>h. hub_reach h \<and> length (hb_unregister h) = unregisterBuffer \<and> (\<forall>c. hb_closed h c \<le> 1)"
proof -
  obtain h where h: "hub_reach h" "length (hb_unregister h) = unregisterBuffer" using hub_can_block[of unregisterBuffer] by blast
  with hub_safe[OF h(1)] show ?thesis by (intro exI[of _ h]) simp
qed

theorem hub_no_gap_witness:
  "\<exists>h. hub_reach h \<and> hb_clients h = [0] \<and> hb_log h = [''row''] \<and> updates (accepted h 0) = [''row'']"
proof -
  let ?h1 = "newHub\<lparr>hb_next := 1, hb_register := [0], hb_writer := (\<lambda>c. PumpNone)(0 := PumpRunning),
      hb_reader := (\<lambda>c. PumpNone)(0 := PumpRunning), hb_init := (\<lambda>c. InitNone)(0 := InitFetching)\<rparr>"
  let ?h2 = "?h1\<lparr>hb_register := [], hb_clients := [0], hb_from := (\<lambda>c. 0)(0 := 0)\<rparr>"
  let ?h3 = "?h2\<lparr>hb_broadcast := [''row'']\<rparr>"
  let ?h4 = "?h2\<lparr>hb_loop := HubSending ''row'' [0]\<rparr>"
  let ?h5 = "?h2\<lparr>hb_send := (\<lambda>c. [])(0 := [Update ''row'']), hb_loop := HubSending ''row'' []\<rparr>"
  let ?h6 = "?h5\<lparr>hb_loop := HubIdle, hb_log := [''row'']\<rparr>"
  have "hub_step newHub ?h1" using hub_step.connect[of newHub 0] by (simp add: newHub_def registerBuffer_def)
  note 1 = hub_reach.step[OF hub_reach.start _ this]
  have "hub_step ?h1 ?h2" using hub_step.registered[of ?h1 0 "[]"] by (simp add: newHub_def)
  note 2 = hub_reach.step[OF 1 _ this]
  have "hub_step ?h2 ?h3" using hub_step.announce[of ?h2 "''row''"] by (simp add: newHub_def broadcastBuffer_def)
  note 3 = hub_reach.step[OF 2 _ this]
  have "hub_step ?h3 ?h4" using hub_step.broadcast[of ?h3 "''row''" "[]" "[0]"] by (simp add: newHub_def)
  note 4 = hub_reach.step[OF 3 _ this]
  have "hub_step ?h4 ?h5" using hub_step.offer[of ?h4 "''row''" 0 "[]"] by (simp add: newHub_def hub_offer_def clientSendBuffer_def)
  note 5 = hub_reach.step[OF 4 _ this]
  have "hub_step ?h5 ?h6" using hub_step.broadcast_done[of ?h5 "''row''"] by (simp add: newHub_def)
  from hub_reach.step[OF 5 _ this] have r: "hub_reach ?h6" by (simp add: newHub_def)
  from hub_no_gap[OF r, of 0] have "updates (accepted ?h6 0) = [''row'']"
    by (simp add: newHub_def to_be_dropped_def broadcasts_since_def in_progress_def)
  with r show ?thesis by (intro exI[of _ ?h6]) (simp add: newHub_def)
qed

end
