(* ===== verification/Leaderboard.thy ===== *)
theory Leaderboard
  imports Config
begin

text \<open>
  The leaderboard service apart from its hub: the messages and their verdicts (\<open>subscriber.go\<close>), the state
  read from Redis and its order (\<open>state.go\<close>), the subscriber, and the handlers (\<open>main.go\<close>). Redis gives
  the entries of a hash in any order; \<open>sort.Slice\<close> is a parameter with the contract of its documentation,
  since it is not stable; templates are parameters except for the badge of a row.
\<close>

section \<open>Messages\<close>

record metric_message =
  mm_SubmissionID :: string
  mm_TeamName :: string
  mm_TPS :: int
  mm_P50Ms :: f64
  mm_P90Ms :: f64
  mm_P99Ms :: f64
  mm_Status :: string
  mm_IsCorrect :: bool

definition message_target :: json_target where
  "message_target =
     [(''submission_id'', TStr), (''team_name'', TStr), (''tps'', TInt), (''p50_ms'', TFloat), (''p90_ms'', TFloat),
      (''p99_ms'', TFloat), (''status'', TStr), (''is_correct'', TBool)]"

definition message_of_fields :: "json_fields \<Rightarrow> metric_message" where
  "message_of_fields fs =
     \<lparr>mm_SubmissionID = get_str fs ''submission_id'', mm_TeamName = get_str fs ''team_name'', mm_TPS = get_int fs ''tps'',
      mm_P50Ms = get_float fs ''p50_ms'', mm_P90Ms = get_float fs ''p90_ms'', mm_P99Ms = get_float fs ''p99_ms'',
      mm_Status = get_str fs ''status'', mm_IsCorrect = get_bool fs ''is_correct''\<rparr>"

definition decode_message :: "json_parser \<Rightarrow> string \<Rightarrow> metric_message option" where
  "decode_message parse payload = map_option message_of_fields (parse message_target payload)"

definition Verdict :: "metric_message \<Rightarrow> string" where
  "Verdict m =
     (if mm_Status m \<in> {''correct'', ''incorrect'', ''unverified''} then mm_Status m
      else if mm_IsCorrect m then ''correct'' else ''unverified'')"

text \<open>The badge of \<open>templates/row.html\<close> and \<open>table.html\<close>.\<close>

definition badge :: "metric_message \<Rightarrow> string" where
  "badge m = (if Verdict m = ''correct'' then ''PASS'' else if Verdict m = ''incorrect'' then ''FAIL'' else ''UNVERIFIED'')"

section \<open>The state\<close>

definition metric_less :: "metric_message \<Rightarrow> metric_message \<Rightarrow> bool" where
  "metric_less a b = (if mm_TPS a = mm_TPS b then f64_less (mm_P99Ms a) (mm_P99Ms b) else mm_TPS a > mm_TPS b)"

text \<open>
  \<open>sort.Slice\<close> permutes the slice so that no element is less than an earlier one, provided that \<open>less\<close> is
  a strict weak order on the elements.
\<close>

definition strict_weak :: "('a \<Rightarrow> 'a \<Rightarrow> bool) \<Rightarrow> 'a set \<Rightarrow> bool" where
  "strict_weak lt A \<longleftrightarrow>
     (\<forall>a \<in> A. \<not> lt a a) \<and> (\<forall>a \<in> A. \<forall>b \<in> A. \<forall>c \<in> A. lt a b \<and> lt b c \<longrightarrow> lt a c) \<and>
     (\<forall>a \<in> A. \<forall>b \<in> A. \<forall>c \<in> A. \<not> lt b a \<and> \<not> lt c b \<longrightarrow> \<not> lt c a)"

definition slice_contract :: "('a \<Rightarrow> 'a \<Rightarrow> bool) \<Rightarrow> ('a list \<Rightarrow> 'a list) \<Rightarrow> bool" where
  "slice_contract lt srt \<longleftrightarrow>
     (\<forall>xs. mset (srt xs) = mset xs \<and> (strict_weak lt (set xs) \<longrightarrow> sorted_wrt (\<lambda>a b. \<not> lt b a) (srt xs)))"

text \<open>\<open>vals\<close> is the answer of \<open>HGetAll\<close>, in the order in which the loop meets its entries.\<close>

definition fetchLeaderboardState ::
  "json_parser \<Rightarrow> (metric_message list \<Rightarrow> metric_message list) \<Rightarrow> (string \<times> string) list option \<Rightarrow>
     metric_message list option" where
  "fetchLeaderboardState parse srt vals =
     (case vals of
        None \<Rightarrow> None
      | Some kvs \<Rightarrow> Some (srt (List.map_filter (\<lambda>(k, v). decode_message parse v) kvs)))"

section \<open>The subscriber\<close>

text \<open>\<open>render\<close> is the row template: it may fail, and then the message is skipped.\<close>

datatype listen_input = ListenCtxDone | ListenClosed | ListenMessage string

fun Listen :: "json_parser \<Rightarrow> (metric_message \<Rightarrow> string option) \<Rightarrow> listen_input list \<Rightarrow> string list" where
  "Listen parse render [] = []"
| "Listen parse render (ListenCtxDone # ins) = []"
| "Listen parse render (ListenClosed # ins) = []"
| "Listen parse render (ListenMessage payload # ins) =
     (case decode_message parse payload of
        None \<Rightarrow> Listen parse render ins
      | Some m \<Rightarrow>
          (case render m of
             None \<Rightarrow> Listen parse render ins
           | Some html \<Rightarrow> html # Listen parse render ins))"

section \<open>Handlers and configuration\<close>

text \<open>\<open>http.Error\<close> and \<open>http.NotFound\<close> write the message and a newline; a template yields text or an error.\<close>

definition http_error :: "int \<Rightarrow> string \<Rightarrow> string http_reply" where
  "http_error code msg = \<lparr>hr_status = code, hr_body = msg @ [CHR 0x0A]\<rparr>"

definition handleIndex :: "string \<Rightarrow> string + string \<Rightarrow> string http_reply" where
  "handleIndex path page =
     (if path \<noteq> ''/'' then http_error 404 ''404 page not found''
      else case page of
        Inl err \<Rightarrow> http_error 500 err
      | Inr html \<Rightarrow> \<lparr>hr_status = 200, hr_body = html\<rparr>)"

definition handleLeaderboard :: "(metric_message list \<Rightarrow> string + string) \<Rightarrow> metric_message list option \<Rightarrow> string http_reply" where
  "handleLeaderboard table metrics =
     (case metrics of
        None \<Rightarrow> http_error 500 ''state error''
      | Some rows \<Rightarrow>
          (case table rows of
             Inl err \<Rightarrow> http_error 500 err
           | Inr html \<Rightarrow> \<lparr>hr_status = 200, hr_body = html\<rparr>))"

definition handleHealth :: "string http_reply" where
  "handleHealth =
     \<lparr>hr_status = 200, hr_body = CHR ''{'' # CHR 0x22 # ''status'' @ CHR 0x22 # CHR '':'' # CHR 0x22 # ''ok'' @ [CHR 0x22, CHR ''}'']\<rparr>"

text \<open>The rows that \<open>handleWebSocket\<close> sends to a new client first.\<close>

definition initial_rows :: "(metric_message \<Rightarrow> string option) \<Rightarrow> metric_message list option \<Rightarrow> string list" where
  "initial_rows render metrics = (case metrics of None \<Rightarrow> [] | Some rows \<Rightarrow> List.map_filter render rows)"

definition leaderboard_pgConn :: "environment \<Rightarrow> string" where
  "leaderboard_pgConn env =
     ''postgres://'' @ getenv env ''POSTGRES_USER'' ''iicpc'' @ '':'' @ getenv env ''POSTGRES_PASSWORD'' ''iicpc_secret'' @
     ''@'' @ getenv env ''POSTGRES_HOST'' ''postgres'' @ '':'' @ getenv env ''POSTGRES_PORT'' ''5432'' @ ''/'' @
     getenv env ''POSTGRES_DB'' ''iicpc_db''"

definition leaderboard_redisAddr :: "environment \<Rightarrow> string" where
  "leaderboard_redisAddr env = getenv env ''REDIS_HOST'' ''redis'' @ '':'' @ getenv env ''REDIS_PORT'' ''6379''"

section \<open>From a score to a row\<close>

definition row_of :: "score \<Rightarrow> metric_message" where
  "row_of sc =
     \<lparr>mm_SubmissionID = sc_submissionID sc,
      mm_TeamName = (if sc_teamName sc = [] then sc_submissionID sc else sc_teamName sc), mm_TPS = sc_tps sc,
      mm_P50Ms = sc_p50Ms sc, mm_P90Ms = sc_p90Ms sc, mm_P99Ms = sc_p99Ms sc,
      mm_Status = verdict_str (if sc_verdict sc = VerdictZero then VerdictUnverified else sc_verdict sc),
      mm_IsCorrect = (sc_verdict sc = VerdictCorrect)\<rparr>"

lemma payload_decodes:
  assumes "reads_back text parse" and "finite_score sc"
  shows "decode_message parse (payload_text text sc) = Some (row_of sc)"
proof -
  let ?fs = "payload_fields (toPayload sc)"
  have ok: "distinct (map fst ?fs)" by (simp add: payload_fields_def)
  have sup: "list_all (\<lambda>f. json_supported (snd f)) ?fs"
    using assms(2) by (simp add: payload_fields_def toPayload_def Let_def finite_score_def finite_f64_def)
  have ty: "types_agree ?fs message_target"
    by (auto simp: types_agree_def message_target_def payload_fields_def)
  have "parse message_target (text ?fs) = Some (read_fields message_target ?fs)"
    using assms(1) ok sup ty by (simp add: reads_back_def)
  then show ?thesis
    by (simp add: decode_message_def payload_text_def message_of_fields_def read_fields_def message_target_def
        payload_fields_def toPayload_def row_of_def Let_def get_str_def get_int_def get_float_def get_bool_def)
qed

lemma row_verdict:
  "Verdict (row_of sc) = verdict_str (if sc_verdict sc = VerdictZero then VerdictUnverified else sc_verdict sc)"
  by (cases "sc_verdict sc") (simp_all add: Verdict_def row_of_def verdict_str_def)

lemma row_badge: "badge (row_of sc) = ''PASS'' \<longleftrightarrow> sc_verdict sc = VerdictCorrect"
  by (cases "sc_verdict sc") (simp_all add: badge_def row_verdict verdict_str_def)

section \<open>What the leaderboard shows\<close>

text \<open>The last score of every submission that has one.\<close>

definition last_scores :: "score list \<Rightarrow> score list" where
  "last_scores scs =
     map (\<lambda>sid. last (filter (\<lambda>sc. sc_submissionID sc = sid) scs)) (remdups (map sc_submissionID scs))"

lemma last_score_of:
  assumes "sid \<in> set (map sc_submissionID scs)"
  shows "filter (\<lambda>sc. sc_submissionID sc = sid) scs \<noteq> []"
    "last (filter (\<lambda>sc. sc_submissionID sc = sid) scs) \<in> set scs"
    "sc_submissionID (last (filter (\<lambda>sc. sc_submissionID sc = sid) scs)) = sid"
proof -
  let ?f = "filter (\<lambda>sc. sc_submissionID sc = sid) scs"
  show ne: "?f \<noteq> []" using assms by (auto simp: filter_empty_conv)
  then have "last ?f \<in> set ?f" by (rule last_in_set)
  then show "last ?f \<in> set scs" "sc_submissionID (last ?f) = sid" by simp_all
qed

lemma last_scores_of: "sc \<in> set (last_scores scs) \<Longrightarrow> sc \<in> set scs"
  using last_score_of(2) by (auto simp: last_scores_def)

lemma pipe_exec_wf [inv_intro]: "gm_wf (pub_state pub) \<Longrightarrow> gm_wf (pub_state (pipe_exec hset pubd sid payload pub))"
  by (simp add: pipe_exec_def Let_def)

lemma Publish_wf [inv_intro]:
  "Publish text db_ok ans sc pub = (pub', e) \<Longrightarrow> gm_wf (pub_state pub) \<Longrightarrow> gm_wf (pub_state pub')"
  by (auto simp: Publish_def Let_def pipe_exec_wf split: option.splits pipe_answer.splits)

lemma publisher_Run_wf [inv_intro]:
  "publisher_Run text ins pub = (pub', e) \<Longrightarrow> gm_wf (pub_state pub) \<Longrightarrow> gm_wf (pub_state pub')"
proof (induction ins arbitrary: pub)
  case (Cons i ins)
  show ?case
  proof (cases i)
    case (PubScore db_ok ans sc)
    obtain pub1 x where p: "Publish text db_ok ans sc pub = (pub1, x)" by (cases "Publish text db_ok ans sc pub")
    with Cons PubScore Publish_wf[OF p] show ?thesis by (cases x) auto
  qed (use Cons.prems in auto)
qed simp

lemma state_entries:
  assumes "gm_wf m"
    and "\<And>sid. gm_get m sid = (if filter (\<lambda>sc. sc_submissionID sc = sid) scs = [] then None
      else Some (f (last (filter (\<lambda>sc. sc_submissionID sc = sid) scs))))"
  shows "mset m = mset (map (\<lambda>sc. (sc_submissionID sc, f sc)) (last_scores scs))"
proof -
  let ?last = "\<lambda>sid. last (filter (\<lambda>sc. sc_submissionID sc = sid) scs)"
  let ?sids = "remdups (map sc_submissionID scs)"
  have eq: "map (\<lambda>sc. (sc_submissionID sc, f sc)) (last_scores scs) = map (\<lambda>sid. (sid, f (?last sid))) ?sids"
    using last_score_of(3)[of _ scs] by (simp add: last_scores_def)
  have dist: "distinct m" "distinct (map (\<lambda>sid. (sid, f (?last sid))) ?sids)"
    using assms(1) by (simp_all add: gm_wf_def distinct_map inj_on_def)
  have get: "gm_get m k = Some v \<longleftrightarrow> k \<in> set ?sids \<and> v = f (?last k)" for k v
  proof (cases "k \<in> set (map sc_submissionID scs)")
    case True
    with assms(2)[of k] last_score_of(1)[OF True] show ?thesis by auto
  next
    case False
    then have "filter (\<lambda>sc. sc_submissionID sc = k) scs = []" by (auto simp: filter_empty_conv)
    with False assms(2)[of k] show ?thesis by simp
  qed
  define g where "g sid = f (?last sid)" for sid
  have "(k, v) \<in> set m \<longleftrightarrow> k \<in> set ?sids \<and> v = g k" for k v
    unfolding g_def get[symmetric] gm_get_wf_iff[OF assms(1)] ..
  then have "set m = (\<lambda>sid. (sid, g sid)) ` set ?sids" by auto
  then have "set m = set (map (\<lambda>sid. (sid, f (?last sid))) ?sids)" by (simp add: g_def)
  then show ?thesis unfolding eq set_eq_iff_mset_eq_distinct[OF dist] .
qed

lemma finite_f64_Fin: "finite_f64 x \<longleftrightarrow> (\<exists>r. x = Fin r)"
  by (cases x) (auto simp: finite_f64_def)

lemma metric_less_strict_weak:
  assumes "\<forall>m \<in> A. \<exists>r. mm_P99Ms m = Fin r"
  shows "strict_weak metric_less A"
proof -
  define p :: "metric_message \<Rightarrow> rat" where "p m = (case mm_P99Ms m of Fin r \<Rightarrow> r | _ \<Rightarrow> 0)" for m
  have "metric_less a b \<longleftrightarrow> mm_TPS b < mm_TPS a \<or> mm_TPS a = mm_TPS b \<and> p a < p b" if "a \<in> A" "b \<in> A" for a b
  proof -
    from that assms obtain ra rb where "mm_P99Ms a = Fin ra" "mm_P99Ms b = Fin rb" by blast
    then show ?thesis by (auto simp: metric_less_def p_def)
  qed
  then show ?thesis unfolding strict_weak_def by (auto simp: not_less)
qed

lemma map_filter_total: "(\<And>x. x \<in> set xs \<Longrightarrow> f x = Some (g x)) \<Longrightarrow> List.map_filter f xs = map g xs"
  by (induction xs) simp_all

lemma fetch_rows:
  assumes "reads_back text parse" and "slice_contract metric_less srt" and "\<forall>sc \<in> set scs. finite_score sc"
    and "mset kvs = mset (map (\<lambda>sc. (sc_submissionID sc, payload_text text sc)) scs)"
  shows "\<exists>rows. fetchLeaderboardState parse srt (Some kvs) = Some rows \<and> mset rows = mset (map row_of scs) \<and>
    sorted_wrt (\<lambda>a b. \<not> metric_less b a) rows"
proof -
  let ?g = "\<lambda>(k, v). the (decode_message parse v)"
  have dec: "decode_message parse (payload_text text sc) = Some (row_of sc)" if "sc \<in> set scs" for sc
    using payload_decodes[OF assms(1)] assms(3) that by blast
  have kvs: "kv \<in> set kvs \<Longrightarrow> \<exists>sc \<in> set scs. kv = (sc_submissionID sc, payload_text text sc)" for kv
    using mset_eq_setD[OF assms(4)] by auto
  have "(\<lambda>(k, v). decode_message parse v) kv = Some (?g kv)" if "kv \<in> set kvs" for kv
    using kvs[OF that] dec by auto
  then have rows: "List.map_filter (\<lambda>(k, v). decode_message parse v) kvs = map ?g kvs" by (rule map_filter_total)
  have m: "mset (map ?g kvs) = mset (map row_of scs)"
    unfolding mset_map assms(4) image_mset.compositionality by (rule image_mset_cong) (simp add: dec)
  have "strict_weak metric_less (set (map ?g kvs))"
  proof (rule metric_less_strict_weak, rule ballI)
    fix x assume "x \<in> set (map ?g kvs)"
    then obtain sc where "sc \<in> set scs" "x = row_of sc" using mset_eq_setD[OF m] by auto
    with assms(3) show "\<exists>r. mm_P99Ms x = Fin r" by (auto simp: row_of_def finite_score_def finite_f64_Fin)
  qed
  with assms(2) have "mset (srt (map ?g kvs)) = mset (map ?g kvs)" "sorted_wrt (\<lambda>a b. \<not> metric_less b a) (srt (map ?g kvs))"
    unfolding slice_contract_def by blast+
  with m show ?thesis by (simp add: fetchLeaderboardState_def rows)
qed

lemma listen_rows:
  assumes "reads_back text parse" and "\<forall>sc \<in> set scs. finite_score sc" and "\<And>m. render m = Some (html m)"
  shows "Listen parse render (map ListenMessage (map (payload_text text) scs)) = map (html \<circ> row_of) scs"
  using assms(2) by (induction scs) (simp_all add: payload_decodes[OF assms(1)] assms(3))

lemma board_rows:
  assumes "agg_run flushInterval evs s" and "scores_of ins = as_out s" and "list_all redis_works ins"
    and "publisher_Run text ins publisher_start = (pub, e)" and "mset kvs = mset (pub_state pub)"
    and "reads_back text parse" and "slice_contract metric_less srt"
  shows "pub_updates pub = map (payload_text text) (as_out s)"
    "\<exists>rows. fetchLeaderboardState parse srt (Some kvs) = Some rows \<and>
       mset rows = mset (map row_of (last_scores (as_out s))) \<and> sorted_wrt (\<lambda>a b. \<not> metric_less b a) rows"
proof -
  have fin: "\<forall>sc \<in> set (as_out s). finite_score sc" using agg_run_finite[OF assms(1)] by blast
  then have "\<forall>sc \<in> set (scores_of ins). finite_score sc" using assms(2) by simp
  from publisher_Run_works[OF assms(3) this, of "text" publisher_start] obtain pub' where
    "publisher_Run text ins publisher_start = (pub', PubRunning)"
    "pub_updates pub' = map (payload_text text) (as_out s)"
    "\<And>sid. gm_get (pub_state pub') sid = (if filter (\<lambda>sc. sc_submissionID sc = sid) (as_out s) = [] then None
       else Some (payload_text text (last (filter (\<lambda>sc. sc_submissionID sc = sid) (as_out s)))))"
    unfolding assms(2) by (auto simp: publisher_start_def)
  with assms(4) have pub: "pub_updates pub = map (payload_text text) (as_out s)"
    "\<And>sid. gm_get (pub_state pub) sid = (if filter (\<lambda>sc. sc_submissionID sc = sid) (as_out s) = [] then None
       else Some (payload_text text (last (filter (\<lambda>sc. sc_submissionID sc = sid) (as_out s)))))"
    by simp_all
  show "pub_updates pub = map (payload_text text) (as_out s)" by (rule pub(1))
  have "gm_wf (pub_state pub)" by (rule publisher_Run_wf[OF assms(4)]) (simp add: publisher_start_def)
  from state_entries[OF this pub(2)] assms(5)
  have "mset kvs = mset (map (\<lambda>sc. (sc_submissionID sc, payload_text text sc)) (last_scores (as_out s)))" by simp
  moreover have "\<forall>sc \<in> set (last_scores (as_out s)). finite_score sc" using fin last_scores_of by blast
  ultimately show "\<exists>rows. fetchLeaderboardState parse srt (Some kvs) = Some rows \<and>
       mset rows = mset (map row_of (last_scores (as_out s))) \<and> sorted_wrt (\<lambda>a b. \<not> metric_less b a) rows"
    using fetch_rows[OF assms(6,7)] by blast
qed

text \<open>
  C28. From the checker to the screen: for every run of the aggregator whose scores are published while
  Redis works, in whatever order Redis returns the entries and however \<open>sort.Slice\<close> breaks ties, the
  leaderboard has exactly one row for each submission with a score, made from its last score, ordered by
  throughput and then by latency; the subscriber renders one update per score, in their order; and a row
  carries the badge PASS only if the replay engine has judged that submission Correct, and shows
  incorrect or unverified verdicts as such.
\<close>

theorem leaderboard_shows:
  assumes "agg_run flushInterval evs s" and "scores_of ins = as_out s" and "list_all redis_works ins"
    and "publisher_Run text ins publisher_start = (pub, e)" and "mset kvs = mset (pub_state pub)"
    and "reads_back text parse" and "slice_contract metric_less srt" and "\<And>m. render m = Some (html m)"
  shows "\<exists>rows. fetchLeaderboardState parse srt (Some kvs) = Some rows \<and>
    mset rows = mset (map row_of (last_scores (as_out s))) \<and>
    sorted_wrt (\<lambda>a b. mm_TPS b < mm_TPS a \<or> mm_TPS a = mm_TPS b \<and> \<not> f64_less (mm_P99Ms b) (mm_P99Ms a)) rows \<and>
    Listen parse render (map ListenMessage (pub_updates pub)) = map (html \<circ> row_of) (as_out s) \<and>
    (\<forall>sc \<in> set (as_out s). Verdict (row_of sc) = verdict_str (if sc_verdict sc = VerdictZero then VerdictUnverified else sc_verdict sc) \<and>
       (badge (row_of sc) = ''PASS'' \<longrightarrow>
          (\<exists>u. AgUpdate u \<in> set evs \<and> cu_submissionID u = mm_SubmissionID (row_of sc) \<and> cu_verdict u = VerdictCorrect)))"
proof -
  have fin: "\<forall>sc \<in> set (as_out s). finite_score sc" using agg_run_finite[OF assms(1)] by blast
  note pub = board_rows(1)[OF assms(1-7)]
  obtain rows where rows: "fetchLeaderboardState parse srt (Some kvs) = Some rows"
    "mset rows = mset (map row_of (last_scores (as_out s)))" "sorted_wrt (\<lambda>a b. \<not> metric_less b a) rows"
    using board_rows(2)[OF assms(1-7)] by blast
  have "sorted_wrt (\<lambda>a b. mm_TPS b < mm_TPS a \<or> mm_TPS a = mm_TPS b \<and> \<not> f64_less (mm_P99Ms b) (mm_P99Ms a)) rows"
    using rows(3) by (rule sorted_wrt_mono_rel[rotated]) (auto simp: metric_less_def split: if_splits)
  moreover have "Listen parse render (map ListenMessage (pub_updates pub)) = map (html \<circ> row_of) (as_out s)"
    unfolding pub by (rule listen_rows[OF assms(6) fin assms(8)])
  moreover have "\<exists>u. AgUpdate u \<in> set evs \<and> cu_submissionID u = mm_SubmissionID (row_of sc) \<and> cu_verdict u = VerdictCorrect"
    if "sc \<in> set (as_out s)" "badge (row_of sc) = ''PASS''" for sc
  proof -
    have "sc_verdict sc = VerdictCorrect" using that(2) unfolding row_badge .
    with agg_verdict_known[OF assms(1) that(1)] show ?thesis by (auto simp: row_of_def)
  qed
  ultimately show ?thesis using rows(1,2) row_verdict by blast
qed

section \<open>A sort with that contract\<close>

fun put_in :: "('a \<Rightarrow> 'a \<Rightarrow> bool) \<Rightarrow> 'a \<Rightarrow> 'a list \<Rightarrow> 'a list" where
  "put_in lt x [] = [x]"
| "put_in lt x (y # ys) = (if lt y x then y # put_in lt x ys else x # y # ys)"

definition put_sort :: "('a \<Rightarrow> 'a \<Rightarrow> bool) \<Rightarrow> 'a list \<Rightarrow> 'a list" where
  "put_sort lt xs = foldr (put_in lt) xs []"

lemma put_in_mset [simp]: "mset (put_in lt x ys) = add_mset x (mset ys)"
  by (induction ys) auto

lemma put_in_set [simp]: "set (put_in lt x ys) = insert x (set ys)"
  by (induction ys) auto

lemma strict_weak_subset: "strict_weak lt B \<Longrightarrow> A \<subseteq> B \<Longrightarrow> strict_weak lt A"
  unfolding strict_weak_def by (meson subsetD)

lemma strict_weakD:
  assumes "strict_weak lt A"
  shows "a \<in> A \<Longrightarrow> \<not> lt a a" "a \<in> A \<Longrightarrow> b \<in> A \<Longrightarrow> c \<in> A \<Longrightarrow> lt a b \<Longrightarrow> lt b c \<Longrightarrow> lt a c"
    "a \<in> A \<Longrightarrow> b \<in> A \<Longrightarrow> c \<in> A \<Longrightarrow> \<not> lt b a \<Longrightarrow> \<not> lt c b \<Longrightarrow> \<not> lt c a"
  using assms unfolding strict_weak_def by blast+

lemma put_in_sorted:
  assumes "strict_weak lt (insert x (set ys))" and "sorted_wrt (\<lambda>a b. \<not> lt b a) ys"
  shows "sorted_wrt (\<lambda>a b. \<not> lt b a) (put_in lt x ys)"
  using assms
proof (induction ys)
  case (Cons y ys)
  have weak: "strict_weak lt (insert x (set ys))" by (rule strict_weak_subset[OF Cons.prems(1)]) auto
  note ord = strict_weakD[OF Cons.prems(1)]
  show ?case
  proof (cases "lt y x")
    case True
    have "\<not> lt x y"
    proof
      assume "lt x y"
      with True ord(2)[of x y x] ord(1)[of x] show False by simp
    qed
    with True Cons.IH[OF weak] Cons.prems(2) show ?thesis by simp
  next
    case False
    have "\<not> lt b x" if "b \<in> set ys" for b
    proof -
      have "\<not> lt b y" using Cons.prems(2) that by simp
      with False that ord(3)[of x y b] show ?thesis by simp
    qed
    with False Cons.prems(2) show ?thesis by simp
  qed
qed simp

lemma put_sort_contract: "slice_contract lt (put_sort lt)"
proof -
  have m: "mset (put_sort lt xs) = mset xs" for xs by (induction xs) (simp_all add: put_sort_def)
  moreover have "sorted_wrt (\<lambda>a b. \<not> lt b a) (put_sort lt xs)" if "strict_weak lt (set xs)" for xs
    using that
  proof (induction xs)
    case (Cons x xs)
    have "set (put_sort lt xs) = set xs" using m by (rule mset_eq_setD)
    moreover have "strict_weak lt (set xs)" by (rule strict_weak_subset[OF Cons.prems]) auto
    ultimately show ?case using Cons put_in_sorted[of lt x "put_sort lt xs"] by (simp add: put_sort_def)
  qed (simp add: put_sort_def)
  ultimately show ?thesis by (simp add: slice_contract_def)
qed

theorem leaderboard_shows_witness:
  "\<exists>rows. fetchLeaderboardState unary_parse (put_sort metric_less)
      (Some (pub_state (fst (publisher_Run unary_text sample_publish publisher_start)))) = Some rows \<and>
     length rows = 1 \<and> mm_SubmissionID (hd rows) = ''s''"
proof -
  have out: "as_out sample_scored = [as_out sample_scored ! 0]" "sc_submissionID (as_out sample_scored ! 0) = ''s''"
    by (simp_all add: sample_scored_def scoreFor_def)
  then have "scores_of sample_publish = as_out sample_scored" unfolding sample_publish_def by simp
  moreover have "list_all redis_works sample_publish" by (simp add: sample_publish_def)
  moreover obtain pub e where run: "publisher_Run unary_text sample_publish publisher_start = (pub, e)"
    by (cases "publisher_Run unary_text sample_publish publisher_start")
  ultimately obtain rows where rows: "fetchLeaderboardState unary_parse (put_sort metric_less) (Some (pub_state pub)) = Some rows"
    "mset rows = mset (map row_of (last_scores (as_out sample_scored)))"
    using leaderboard_shows[OF sample_agg_run _ _ run refl unary_reads_back put_sort_contract, of "\<lambda>m. Some []" "\<lambda>m. []"] by auto
  have "last_scores (as_out sample_scored) = [as_out sample_scored ! 0]"
    by (subst out(1)) (simp add: last_scores_def out(2))
  with rows(2) have "rows = [row_of (as_out sample_scored ! 0)]" by simp
  with rows(1) out(2) run show ?thesis by (simp add: row_of_def)
qed

end
