(* ===== verification/Intake.thy ===== *)
theory Intake
  imports Submissions Docker
begin

text \<open>
  The submission service (\<open>submission-service/internal/handler/handler.go\<close> with \<open>queue/queue.go\<close>): the
  handlers of \<open>POST /submit\<close> and \<open>GET /submission/{id}\<close> over the table, the object store and the Redis
  queue. Each outside call answers, or reports an error and may have been carried out nonetheless.
\<close>

section \<open>The world of the service\<close>

record team =
  tm_id :: string
  tm_name :: string

record intake =
  it_table :: sub_table
  it_objects :: "string \<Rightarrow> string option"
  it_queue :: "string list"

datatype call_answer = CallDone | CallError bool

fun carried_out :: "call_answer \<Rightarrow> bool" where
  "carried_out CallDone \<longleftrightarrow> True"
| "carried_out (CallError b) \<longleftrightarrow> b"

text \<open>\<open>SELECT id, name FROM teams WHERE api_key = $1\<close>; keys are unique.\<close>

definition GetTeamByAPIKey :: "bool \<Rightarrow> (string \<Rightarrow> team option) \<Rightarrow> string \<Rightarrow> db_error + team option" where
  "GetTeamByAPIKey db_ok teams apiKey = (if db_ok then Inr (teams apiKey) else Inl DbUnavailable)"

definition UploadStream :: "call_answer \<Rightarrow> string \<Rightarrow> string \<Rightarrow> intake \<Rightarrow> intake" where
  "UploadStream ans key bytes w = (if carried_out ans then w\<lparr>it_objects := (it_objects w)(key \<mapsto> bytes)\<rparr> else w)"

definition Enqueue_submission :: "call_answer \<Rightarrow> string \<Rightarrow> intake \<Rightarrow> intake" where
  "Enqueue_submission ans sid w = (if carried_out ans then w\<lparr>it_queue := it_queue w @ [sid]\<rparr> else w)"

text \<open>\<open>InsertSubmission\<close> fails for an id that exists, and like every call it may fail after the fact.\<close>

definition insert_call ::
  "call_answer \<Rightarrow> string \<Rightarrow> string \<Rightarrow> string \<Rightarrow> string \<Rightarrow> intake \<Rightarrow> intake \<times> bool" where
  "insert_call ans sid teamID language key w =
     (case InsertSubmission (carried_out ans) sid teamID language key (it_table w) of
        Inl e \<Rightarrow> (w, False)
      | Inr tbl \<Rightarrow> (w\<lparr>it_table := tbl\<rparr>, ans = CallDone))"

section \<open>Handlers\<close>

definition validLanguages :: "string list" where
  "validLanguages = [''cpp'', ''rust'', ''go'']"

type_synonym json_reply = "(string \<times> string) list http_reply"

definition writeError :: "int \<Rightarrow> string \<Rightarrow> json_reply" where
  "writeError code msg = \<lparr>hr_status = code, hr_body = [(''error'', msg)]\<rparr>"

record submit_request =
  rq_apiKey :: string
  rq_form :: bool
  rq_language :: string
  rq_file :: "(string \<times> string) option"

record submit_answers =
  sa_team :: bool
  sa_uuid :: string
  sa_upload :: call_answer
  sa_insert :: call_answer
  sa_enqueue :: call_answer

definition storage_key :: "string \<Rightarrow> string \<Rightarrow> string \<Rightarrow> string" where
  "storage_key teamID sid filename = teamID @ ''/'' @ sid @ ''/'' @ filename"

definition em_dash :: string where
  "em_dash = [CHR 0xE2, CHR 0x80, CHR 0x94]"

text \<open>\<open>q\<close> is the verb \<open>%q\<close>, only used in the text of one error.\<close>

definition submit ::
  "(string \<Rightarrow> string) \<Rightarrow> (string \<Rightarrow> team option) \<Rightarrow> submit_answers \<Rightarrow> submit_request \<Rightarrow> intake \<Rightarrow> intake \<times> json_reply" where
  "submit q teams ans r w =
     (if rq_apiKey r = [] then (w, writeError 401 ''missing X-API-Key header'')
      else case GetTeamByAPIKey (sa_team ans) teams (rq_apiKey r) of
        Inl e \<Rightarrow> (w, writeError 500 ''database error'')
      | Inr None \<Rightarrow> (w, writeError 401 ''invalid API key'')
      | Inr (Some team) \<Rightarrow>
          if \<not> rq_form r then (w, writeError 400 ''failed to parse multipart form'')
          else
            let language = (if rq_language r = [] then ''cpp'' else rq_language r) in
            if language \<notin> set validLanguages
            then (w, writeError 400 (''language must be one of: cpp, rust, go '' @ em_dash @ '' got '' @ q language))
            else case rq_file r of
              None \<Rightarrow> (w, writeError 400 ''missing 'file' field in form'')
            | Some (filename, bytes) \<Rightarrow>
                let sid = sa_uuid ans; key = storage_key (tm_id team) sid filename;
                    w1 = UploadStream (sa_upload ans) key bytes w in
                if sa_upload ans \<noteq> CallDone then (w1, writeError 500 ''storage error'')
                else
                  (case insert_call (sa_insert ans) sid (tm_id team) language key w1 of
                     (w2, False) \<Rightarrow> (w2, writeError 500 ''database error'')
                   | (w2, True) \<Rightarrow>
                       (Enqueue_submission (sa_enqueue ans) sid w2,
                        \<lparr>hr_status = 202, hr_body = [(''submission_id'', sid), (''status'', ''PENDING''),
                          (''message'', ''Submission received. Container will be ready shortly.'')]\<rparr>)))"

definition getSubmission ::
  "(string \<Rightarrow> team option) \<Rightarrow> bool \<Rightarrow> bool \<Rightarrow> string \<Rightarrow> string \<Rightarrow> intake \<Rightarrow> json_reply" where
  "getSubmission teams team_ok row_ok apiKey sid w =
     (if apiKey = [] then writeError 401 ''missing X-API-Key header''
      else case GetTeamByAPIKey team_ok teams apiKey of
        Inl e \<Rightarrow> writeError 500 ''database error''
      | Inr None \<Rightarrow> writeError 401 ''invalid API key''
      | Inr (Some team) \<Rightarrow>
          if sid = [] then writeError 400 ''missing submission id''
          else case GetTeamSubmission row_ok sid (tm_id team) (it_table w) of
            Inl e \<Rightarrow> writeError 500 ''database error''
          | Inr None \<Rightarrow> writeError 404 ''submission not found''
          | Inr (Some row) \<Rightarrow> \<lparr>hr_status = 200, hr_body = row\<rparr>)"

definition health :: json_reply where
  "health = \<lparr>hr_status = 200, hr_body = [(''status'', ''ok'')]\<rparr>"

section \<open>The service and the sandbox manager on the same stores\<close>

inductive intake_step :: "(string \<Rightarrow> team option) \<Rightarrow> intake \<Rightarrow> intake \<Rightarrow> bool" for teams where
  request: "submit q teams ans r w = (w', reply) \<Longrightarrow> intake_step teams w w'"
| pop: "it_queue w = sid # rest \<Longrightarrow> intake_step teams w (w\<lparr>it_queue := rest\<rparr>)"
| status: "intake_step teams w (w\<lparr>it_table := try_update db_ok sid st extra (it_table w)\<rparr>)"

inductive intake_reach :: "(string \<Rightarrow> team option) \<Rightarrow> intake \<Rightarrow> bool" for teams where
  start: "intake_reach teams \<lparr>it_table = (\<lambda>sid. None), it_objects = (\<lambda>key. None), it_queue = []\<rparr>"
| step: "intake_reach teams w \<Longrightarrow> intake_step teams w w' \<Longrightarrow> intake_reach teams w'"

section \<open>Every queued submission can be processed\<close>

definition known_team :: "(string \<Rightarrow> team option) \<Rightarrow> string \<Rightarrow> bool" where
  "known_team teams tid \<longleftrightarrow> (\<exists>key team. teams key = Some team \<and> tm_id team = tid)"

definition own_key :: "string \<Rightarrow> string \<Rightarrow> string \<Rightarrow> bool" where
  "own_key tid sid key \<longleftrightarrow> (\<exists>filename. key = storage_key tid sid filename)"

lemma known_teamI: "teams key = Some team \<Longrightarrow> known_team teams (tm_id team)"
  by (auto simp: known_team_def)

lemma own_keyI [simp]: "own_key tid sid (storage_key tid sid filename)"
  by (auto simp: own_key_def)

definition row_complete :: "(string \<Rightarrow> team option) \<Rightarrow> intake \<Rightarrow> string \<Rightarrow> sub_row \<Rightarrow> bool" where
  "row_complete teams w sid r \<longleftrightarrow>
     sr_language r \<in> set validLanguages \<and> known_team teams (sr_team r) \<and>
     own_key (sr_team r) sid (sr_storageKey r) \<and> it_objects w (sr_storageKey r) \<noteq> None"

definition intake_inv :: "(string \<Rightarrow> team option) \<Rightarrow> intake \<Rightarrow> bool" where
  "intake_inv teams w \<longleftrightarrow> valid_table (it_table w) \<and> (\<forall>sid \<in> set (it_queue w). it_table w sid \<noteq> None) \<and>
     (\<forall>sid r. it_table w sid = Some r \<longrightarrow> row_complete teams w sid r)"

lemma UploadStream_inv [inv_intro]: "intake_inv teams w \<Longrightarrow> intake_inv teams (UploadStream ans key bytes w)"
  by (fastforce simp: intake_inv_def UploadStream_def row_complete_def)

lemma UploadStream_stored: "it_objects (UploadStream CallDone key bytes w) key = Some bytes"
  by (simp add: UploadStream_def)

lemma Enqueue_submission_inv [inv_intro]:
  "intake_inv teams w \<Longrightarrow> it_table w sid \<noteq> None \<Longrightarrow> intake_inv teams (Enqueue_submission ans sid w)"
  by (auto simp: intake_inv_def Enqueue_submission_def row_complete_def)

lemma insert_call_inv:
  assumes "intake_inv teams w" and "insert_call ans sid (tm_id team) language (storage_key (tm_id team) sid filename) w = (w', ok)"
    and "language \<in> set validLanguages" and "teams key = Some team"
    and "it_objects w (storage_key (tm_id team) sid filename) \<noteq> None"
  shows "intake_inv teams w' \<and> (ok \<longrightarrow> it_table w' sid \<noteq> None)"
proof (cases "carried_out ans \<and> it_table w sid = None")
  case True
  with assms show ?thesis
    by (auto simp: insert_call_def InsertSubmission_def intake_inv_def valid_table_def row_complete_def pending_allowed known_teamI split: if_splits)
next
  case False
  with assms(1,2) show ?thesis by (auto simp: insert_call_def InsertSubmission_def split: if_splits)
qed

text \<open>The four ways a request can go.\<close>

lemma submit_cases:
  assumes "submit q teams ans r w = (w', reply)"
  obtains (refused) "w' = w" "hr_status reply \<in> {400, 401, 500}"
  | (upload_failed) team :: team and filename bytes where "w' = UploadStream (sa_upload ans) (storage_key (tm_id team) (sa_uuid ans) filename) bytes w"
      "hr_status reply = 500"
  | (insert_failed) team language filename bytes where "teams (rq_apiKey r) = Some team" "language \<in> set validLanguages"
      "insert_call (sa_insert ans) (sa_uuid ans) (tm_id team) language (storage_key (tm_id team) (sa_uuid ans) filename)
         (UploadStream CallDone (storage_key (tm_id team) (sa_uuid ans) filename) bytes w) = (w', False)"
      "hr_status reply = 500"
  | (accepted) team language filename bytes w2 where "teams (rq_apiKey r) = Some team" "language \<in> set validLanguages"
      "rq_file r = Some (filename, bytes)"
      "insert_call (sa_insert ans) (sa_uuid ans) (tm_id team) language (storage_key (tm_id team) (sa_uuid ans) filename)
         (UploadStream CallDone (storage_key (tm_id team) (sa_uuid ans) filename) bytes w) = (w2, True)"
      "w' = Enqueue_submission (sa_enqueue ans) (sa_uuid ans) w2" "hr_status reply = 202"
      "map_of (hr_body reply) ''submission_id'' = Some (sa_uuid ans)"
proof (cases "rq_apiKey r = [] \<or> \<not> sa_team ans \<or> teams (rq_apiKey r) = None \<or> \<not> rq_form r \<or>
    (if rq_language r = [] then ''cpp'' else rq_language r) \<notin> set validLanguages \<or> rq_file r = None")
  case True
  with assms have "w' = w \<and> hr_status reply \<in> {400, 401, 500}"
    by (auto simp: submit_def GetTeamByAPIKey_def writeError_def Let_def split: if_splits option.splits)
  with refused show ?thesis by blast
next
  case False
  define language where "language = (if rq_language r = [] then ''cpp'' else rq_language r)"
  from False obtain team filename bytes where req: "teams (rq_apiKey r) = Some team" "language \<in> set validLanguages"
    "rq_file r = Some (filename, bytes)" by (auto simp: language_def)
  let ?key = "storage_key (tm_id team) (sa_uuid ans) filename"
  let ?w1 = "UploadStream (sa_upload ans) ?key bytes w"
  obtain w2 ok where ins: "insert_call (sa_insert ans) (sa_uuid ans) (tm_id team) language ?key ?w1 = (w2, ok)"
    by (cases "insert_call (sa_insert ans) (sa_uuid ans) (tm_id team) language ?key ?w1")
  have run: "(w', reply) = (if sa_upload ans \<noteq> CallDone then (?w1, writeError 500 ''storage error'')
      else if \<not> ok then (w2, writeError 500 ''database error'')
      else (Enqueue_submission (sa_enqueue ans) (sa_uuid ans) w2,
        \<lparr>hr_status = 202, hr_body = [(''submission_id'', sa_uuid ans), (''status'', ''PENDING''),
           (''message'', ''Submission received. Container will be ready shortly.'')]\<rparr>))"
    using assms False req ins
    by (auto simp: submit_def GetTeamByAPIKey_def Let_def language_def[symmetric] split: bool.splits)
  show ?thesis
  proof (cases "sa_upload ans = CallDone")
    case True
    show ?thesis
    proof (cases ok)
      case ok: True
      with run True have "w' = Enqueue_submission (sa_enqueue ans) (sa_uuid ans) w2" "hr_status reply = 202"
        "map_of (hr_body reply) ''submission_id'' = Some (sa_uuid ans)" by simp_all
      with accepted[OF req] ins True ok show ?thesis by simp
    next
      case failed: False
      with run True have "w' = w2" "hr_status reply = 500" by (simp_all add: writeError_def)
      with insert_failed[OF req(1,2)] ins True failed show ?thesis by simp
    qed
  next
    case failed: False
    with run have "w' = ?w1" "hr_status reply = 500" by (simp_all add: writeError_def)
    with upload_failed show ?thesis by blast
  qed
qed

lemma submit_intake_inv:
  assumes "submit q teams ans r w = (w', reply)" and "intake_inv teams w"
  shows "intake_inv teams w'"
  using assms(1)
proof (cases rule: submit_cases)
  case (insert_failed team language filename bytes)
  from insert_call_inv[OF UploadStream_inv[OF assms(2)] insert_failed(3,2,1)] show ?thesis by (simp add: UploadStream_stored)
next
  case (accepted team language filename bytes w2)
  from insert_call_inv[OF UploadStream_inv[OF assms(2)] accepted(4,2,1)] accepted(5) show ?thesis
    by (simp add: UploadStream_stored Enqueue_submission_inv)
qed (use assms(2) in \<open>simp_all add: UploadStream_inv\<close>)

lemma intake_reach_inv: "intake_reach teams w \<Longrightarrow> intake_inv teams w"
proof (induction rule: intake_reach.induct)
  case start
  show ?case by (simp add: intake_inv_def valid_table_def)
next
  case (step w w')
  from step(2) step.IH show ?case
  proof (cases rule: intake_step.cases)
    case (status db_ok sid st extra)
    have "\<exists>r. it_table w x = Some r \<and> sr_team r' = sr_team r \<and> sr_language r' = sr_language r \<and> sr_storageKey r' = sr_storageKey r"
      if "try_update db_ok sid st extra (it_table w) x = Some r'" for x r'
      using that try_update_keeps[of "it_table w" x _ db_ok st extra] by (cases "x = sid"; cases "it_table w x") fastforce+
    moreover have "try_update db_ok sid st extra (it_table w) x \<noteq> None" if "it_table w x \<noteq> None" for x
      using that try_update_keeps[of "it_table w" x _ db_ok st extra] by (cases "x = sid") auto
    ultimately show ?thesis using step.IH status by (fastforce simp: intake_inv_def row_complete_def try_update_valid)
  next
    case (request q ans r reply)
    then show ?thesis using submit_intake_inv step.IH by blast
  next
    case (pop sid rest)
    with step.IH show ?thesis by (simp add: intake_inv_def row_complete_def)
  qed
qed

lemma dockerfile_for_language: "language \<in> set validLanguages \<longleftrightarrow> renderDockerfile language \<noteq> []"
  by (auto simp: validLanguages_def renderDockerfile_def file_of_lines_def)

text \<open>
  Every queued submission can be processed: whatever requests arrive, whichever calls fail and however
  the sandbox manager pops submissions and updates rows, every id in the queue has a row; every row
  belongs to a known team, has a status that the constraint admits and a language for which the Docker
  client has a Dockerfile, and its archive is in the object store under a key of its own team and id.
\<close>

theorem queued_complete:
  assumes "intake_reach teams w"
  shows "(\<forall>sid \<in> set (it_queue w). it_table w sid \<noteq> None) \<and>
    (\<forall>sid r. it_table w sid = Some r \<longrightarrow>
       sr_status r \<in> set submission_statuses \<and> renderDockerfile (sr_language r) \<noteq> [] \<and>
       known_team teams (sr_team r) \<and> own_key (sr_team r) sid (sr_storageKey r) \<and> it_objects w (sr_storageKey r) \<noteq> None)"
  using intake_reach_inv[OF assms] unfolding intake_inv_def valid_table_def row_complete_def dockerfile_for_language by blast

section \<open>Replies\<close>

lemma insert_call_cases:
  assumes "insert_call ans sid teamID language key w = (w', ok)"
  shows "it_objects w' = it_objects w \<and> it_queue w' = it_queue w \<and> (\<forall>x r. it_table w x = Some r \<longrightarrow> it_table w' x = Some r) \<and>
    (\<forall>x. x \<noteq> sid \<longrightarrow> it_table w' x = it_table w x) \<and>
    (ok \<longrightarrow> (\<exists>r. it_table w' sid = Some r \<and> sr_status r = ''PENDING'' \<and> sr_team r = teamID \<and> sr_language r = language \<and>
       sr_storageKey r = key))"
  using assms by (auto simp: insert_call_def InsertSubmission_def split: if_splits)


section \<open>Teams only see their own submissions\<close>

definition own_rows :: "string \<Rightarrow> sub_table \<Rightarrow> sub_table" where
  "own_rows tid tbl sid = (case tbl sid of Some r \<Rightarrow> if sr_team r = tid then Some r else None | None \<Rightarrow> None)"

text \<open>
  C33. Teams are isolated: the reply of \<open>GET /submission/{id}\<close> depends only on the rows of the team whose key
  the caller presents, so that two worlds that agree on these rows cannot be told apart, whatever other
  teams have submitted; a caller without a valid key learns nothing, and the row of another team is
  reported exactly as a row that does not exist.
\<close>

theorem getSubmission_isolated:
  assumes "\<And>team. teams apiKey = Some team \<Longrightarrow> own_rows (tm_id team) (it_table w1) = own_rows (tm_id team) (it_table w2)"
  shows "getSubmission teams team_ok row_ok apiKey sid w1 = getSubmission teams team_ok row_ok apiKey sid w2 \<and>
    (teams apiKey = None \<longrightarrow> hr_status (getSubmission teams team_ok row_ok apiKey sid w1) \<in> {401, 500}) \<and>
    (hr_status (getSubmission teams team_ok row_ok apiKey sid w1) = 200 \<longrightarrow>
       (\<exists>team r. teams apiKey = Some team \<and> it_table w1 sid = Some r \<and> sr_team r = tm_id team \<and>
          hr_body (getSubmission teams team_ok row_ok apiKey sid w1) = answer_of_row sid r))"
proof -
  have get: "GetTeamSubmission ok sid tid tbl = (if \<not> ok then Inl DbUnavailable else Inr (map_option (answer_of_row sid) (own_rows tid tbl sid)))"
    for ok tid tbl by (auto simp: GetTeamSubmission_def own_rows_def split: option.splits)
  have "getSubmission teams team_ok row_ok apiKey sid w1 = getSubmission teams team_ok row_ok apiKey sid w2"
    using assms by (auto simp: getSubmission_def GetTeamByAPIKey_def get split: option.splits)
  moreover have "teams apiKey = None \<longrightarrow> hr_status (getSubmission teams team_ok row_ok apiKey sid w1) \<in> {401, 500}"
    by (auto simp: getSubmission_def GetTeamByAPIKey_def writeError_def)
  moreover have "\<exists>team r. teams apiKey = Some team \<and> it_table w1 sid = Some r \<and> sr_team r = tm_id team \<and>
      hr_body (getSubmission teams team_ok row_ok apiKey sid w1) = answer_of_row sid r"
    if "hr_status (getSubmission teams team_ok row_ok apiKey sid w1) = 200"
    using that by (auto simp: getSubmission_def GetTeamByAPIKey_def GetTeamSubmission_def writeError_def split: option.splits if_splits sum.splits)
  ultimately show ?thesis by blast
qed

section \<open>A run\<close>

definition sample_teams :: "string \<Rightarrow> team option" where
  "sample_teams key = (if key = ''k1'' then Some \<lparr>tm_id = ''t1'', tm_name = ''One''\<rparr>
     else if key = ''k2'' then Some \<lparr>tm_id = ''t2'', tm_name = ''Two''\<rparr> else None)"

definition sample_world :: intake where
  "sample_world = \<lparr>it_table = (\<lambda>sid. None), it_objects = (\<lambda>key. None), it_queue = []\<rparr>"

definition sample_call :: submit_answers where
  "sample_call = \<lparr>sa_team = True, sa_uuid = ''s1'', sa_upload = CallDone, sa_insert = CallDone, sa_enqueue = CallDone\<rparr>"

definition sample_request :: submit_request where
  "sample_request = \<lparr>rq_apiKey = ''k1'', rq_form = True, rq_language = [], rq_file = Some (''a.zip'', ''PK'')\<rparr>"

lemma sample_submit:
  "hr_status (snd (submit id sample_teams sample_call sample_request sample_world)) = 202 \<and>
   it_queue (fst (submit id sample_teams sample_call sample_request sample_world)) = [''s1'']"
  by code_simp

lemma sample_submit_reach: "intake_reach sample_teams (fst (submit id sample_teams sample_call sample_request sample_world))"
  using intake_reach.step[OF intake_reach.start intake_step.request] by (metis prod.collapse sample_world_def)

theorem queued_complete_witness:
  "\<exists>w. intake_reach sample_teams w \<and> it_queue w = [''s1''] \<and> it_table w ''s1'' \<noteq> None"
proof -
  let ?w = "fst (submit id sample_teams sample_call sample_request sample_world)"
  have "it_queue ?w = [''s1'']" using sample_submit by blast
  with queued_complete[OF sample_submit_reach] sample_submit_reach show ?thesis by (intro exI[of _ ?w]) simp
qed


theorem getSubmission_isolated_witness:
  "getSubmission sample_teams True True ''k2'' ''s1'' (fst (submit id sample_teams sample_call sample_request sample_world)) =
     getSubmission sample_teams True True ''k2'' ''s1'' sample_world"
proof (rule getSubmission_isolated[THEN conjunct1])
  fix team assume "sample_teams ''k2'' = Some team"
  then have t: "tm_id team = ''t2''" by (auto simp: sample_teams_def)
  show "own_rows (tm_id team) (it_table (fst (submit id sample_teams sample_call sample_request sample_world))) =
      own_rows (tm_id team) (it_table sample_world)"
    by (rule ext) (simp add: t own_rows_def submit_def sample_world_def sample_call_def sample_request_def sample_teams_def
        GetTeamByAPIKey_def insert_call_def InsertSubmission_def UploadStream_def Enqueue_submission_def validLanguages_def Let_def)
qed

end
