(* ===== verification/CheckerMain.thy ===== *)
theory CheckerMain
  imports Config Process
begin

text \<open>
  The \<open>main\<close> function of the artifact checker (\<open>artifact-checker/cmd/artifact-checker/main.go\<close>): the start of
  its parts in order, and the life of the process with its five services as a step relation. What the
  services do is modelled in their own theories; here a service is running, handing an error to \<open>errCh\<close>,
  or done. The shutdown of the health server, which \<open>main\<close> waits for at most three seconds, is left out.
\<close>

section \<open>Starting\<close>

datatype startup_error =
    ConfigFailed config_error
  | ConsumerFailed consumer_error
  | StorageFailed publisher_error

text \<open>\<open>startHealthServer\<close>: the address of the server, or \<open>nil\<close>.\<close>

definition startHealthServer :: "int \<Rightarrow> string option" where
  "startHealthServer port = (if port \<le> 0 then None else Some ('':'' @ fmt_d port))"

record checker_setup =
  su_maxProcs :: int
  su_health :: "string option"
  su_consumer :: consumer_service
  su_publisher :: publisher_config
  su_lateness :: int

definition checker_startup :: "int \<Rightarrow> bool \<Rightarrow> bool \<Rightarrow> bool \<Rightarrow> environment \<Rightarrow> startup_error + checker_setup" where
  "checker_startup numCPU client_ok db_ok ping_ok env =
     (case loadConfig numCPU env of
        Inl e \<Rightarrow> Inl (ConfigFailed e)
      | Inr c \<Rightarrow>
          let health = startHealthServer (ac_healthPort c) in
          (case New_consumer client_ok (consumer_config_of c) of
             Inl e \<Rightarrow> Inl (ConsumerFailed e)
           | Inr svc \<Rightarrow>
               (case NewPublisher db_ok ping_ok (publisher_config_of c) of
                  Inl e \<Rightarrow> Inl (StorageFailed e)
                | Inr pub \<Rightarrow>
                    Inr \<lparr>su_maxProcs = ac_maxProcs c, su_health = health, su_consumer = svc, su_publisher = pub,
                         su_lateness = lateness_micros c\<rparr>)))"

section \<open>The running process\<close>

definition errChSize :: nat where
  "errChSize = 5"

definition service_names :: "string list" where
  "service_names = [''consumer'', ''watermark-router'', ''replay-engine'', ''aggregator'', ''storage-publisher'']"

datatype service_result = ReturnsNil | ReturnsCanceled | ReturnsError string

datatype service_phase = SvcRunning | SvcReporting string | SvcDone

text \<open>The goroutine of \<open>start\<close> after \<open>fn\<close> has returned.\<close>

fun after_return :: "string \<Rightarrow> service_result \<Rightarrow> service_phase" where
  "after_return name ReturnsNil = SvcDone"
| "after_return name ReturnsCanceled = SvcDone"
| "after_return name (ReturnsError msg) = SvcReporting (name @ '': '' @ msg)"

datatype checker_phase = CheckerSelect | CheckerStopping | CheckerExited int

text \<open>\<open>ck_failed\<close> is history: the errors that services have returned.\<close>

record checker =
  ck_ctxDone :: bool
  ck_cancelled :: bool
  ck_errCh :: "string list"
  ck_services :: "service_phase list"
  ck_exitCode :: int
  ck_phase :: checker_phase
  ck_publisherClosed :: bool
  ck_failed :: "string list"

definition checker_started :: checker where
  "checker_started =
     \<lparr>ck_ctxDone = False, ck_cancelled = False, ck_errCh = [], ck_services = map (\<lambda>name. SvcRunning) service_names,
      ck_exitCode = 0, ck_phase = CheckerSelect, ck_publisherClosed = False, ck_failed = []\<rparr>"

text \<open>\<open>runCtx\<close> is derived from \<open>ctx\<close>.\<close>

definition runCtx_done :: "checker \<Rightarrow> bool" where
  "runCtx_done c \<longleftrightarrow> ck_ctxDone c \<or> ck_cancelled c"

text \<open>\<open>os.Exit\<close> runs no deferred call, so the publisher is only closed when \<open>main\<close> returns.\<close>

inductive checker_step :: "checker \<Rightarrow> checker \<Rightarrow> bool" where
  signalled: "\<not> ck_ctxDone c \<Longrightarrow> \<forall>code. ck_phase c \<noteq> CheckerExited code \<Longrightarrow> checker_step c (c\<lparr>ck_ctxDone := True\<rparr>)"
| returns: "i < length (ck_services c) \<Longrightarrow> ck_services c ! i = SvcRunning \<Longrightarrow>
    checker_step c (c\<lparr>ck_services := (ck_services c)[i := after_return (service_names ! i) res],
      ck_failed := ck_failed c @ (case res of ReturnsError msg \<Rightarrow> [service_names ! i @ '': '' @ msg] | _ \<Rightarrow> [])\<rparr>)"
| reports: "i < length (ck_services c) \<Longrightarrow> ck_services c ! i = SvcReporting err \<Longrightarrow> length (ck_errCh c) < errChSize \<Longrightarrow>
    checker_step c (c\<lparr>ck_services := (ck_services c)[i := SvcDone], ck_errCh := ck_errCh c @ [err]\<rparr>)"
| on_signal: "ck_phase c = CheckerSelect \<Longrightarrow> ck_ctxDone c \<Longrightarrow>
    checker_step c (c\<lparr>ck_cancelled := True, ck_phase := CheckerStopping\<rparr>)"
| on_error: "ck_phase c = CheckerSelect \<Longrightarrow> ck_errCh c = err # rest \<Longrightarrow>
    checker_step c (c\<lparr>ck_errCh := rest, ck_exitCode := 1, ck_cancelled := True, ck_phase := CheckerStopping\<rparr>)"
| all_done: "ck_phase c = CheckerStopping \<Longrightarrow> \<forall>s \<in> set (ck_services c). s = SvcDone \<Longrightarrow>
    checker_step c (c\<lparr>ck_phase := CheckerExited (ck_exitCode c), ck_publisherClosed := (ck_exitCode c = 0)\<rparr>)"

section \<open>Measure and invariant\<close>

fun service_left :: "service_phase \<Rightarrow> nat" where
  "service_left SvcRunning = 2"
| "service_left (SvcReporting err) = 1"
| "service_left SvcDone = 0"

fun phase_left :: "checker_phase \<Rightarrow> nat" where
  "phase_left CheckerSelect = 2"
| "phase_left CheckerStopping = 1"
| "phase_left (CheckerExited code) = 0"

definition checker_left :: "checker \<Rightarrow> nat" where
  "checker_left c =
     sum_list (map service_left (ck_services c)) + phase_left (ck_phase c) + (if ck_ctxDone c then 0 else 1)"

lemma sum_list_update_less:
  assumes "i < length xs" and "f y < f (xs ! i)"
  shows "sum_list (map f (xs[i := y])) < (sum_list (map f xs) :: nat)"
  using assms
proof (induction xs arbitrary: i)
  case (Cons x xs)
  then show ?case by (cases i) auto
qed simp

lemma after_return_left: "service_left (after_return name res) < 2"
  by (cases res) simp_all

lemma checker_step_left: "checker_step c c' \<Longrightarrow> checker_left c' < checker_left c"
proof (induction rule: checker_step.induct)
  case (returns i c res)
  then have "sum_list (map service_left ((ck_services c)[i := after_return (service_names ! i) res]))
      < sum_list (map service_left (ck_services c))"
    by (intro sum_list_update_less) (simp_all add: after_return_left)
  then show ?case by (simp add: checker_left_def)
next
  case (reports i c err)
  then have "sum_list (map service_left ((ck_services c)[i := SvcDone])) < sum_list (map service_left (ck_services c))"
    by (intro sum_list_update_less) simp_all
  then show ?case by (simp add: checker_left_def)
qed (simp_all add: checker_left_def)

lemma sum_list_update_le:
  assumes "i < length xs" and "f y \<le> f (xs ! i)"
  shows "sum_list (map f (xs[i := y])) \<le> (sum_list (map f xs) :: nat)"
  using assms
proof (induction xs arbitrary: i)
  case (Cons x xs)
  then show ?case by (cases i) auto
qed simp

definition not_done :: "service_phase list \<Rightarrow> nat" where
  "not_done ss = sum_list (map (\<lambda>s. if s = SvcDone then 0 else 1) ss)"

definition reporting :: "checker \<Rightarrow> string set" where
  "reporting c = {err. SvcReporting err \<in> set (ck_services c)}"

text \<open>The errors that can still reach the \<open>select\<close>, and the outcome that is fixed once it has been left.\<close>

definition errors_kept :: "checker \<Rightarrow> bool" where
  "errors_kept c \<longleftrightarrow> set (ck_errCh c) \<union> reporting c \<subseteq> set (ck_failed c) \<and>
     (ck_phase c = CheckerSelect \<longrightarrow> set (ck_failed c) \<subseteq> set (ck_errCh c) \<union> reporting c)"

definition outcome_kept :: "checker \<Rightarrow> bool" where
  "outcome_kept c \<longleftrightarrow>
     (ck_phase c = CheckerSelect \<longrightarrow> ck_exitCode c = 0) \<and>
     (ck_phase c \<noteq> CheckerSelect \<longrightarrow> ck_cancelled c \<and>
        (ck_exitCode c = 0 \<and> ck_ctxDone c \<or> ck_exitCode c = 1 \<and> ck_failed c \<noteq> [])) \<and>
     (\<forall>code. ck_phase c = CheckerExited code \<longrightarrow>
        code = ck_exitCode c \<and> ck_publisherClosed c = (code = 0) \<and> (\<forall>s \<in> set (ck_services c). s = SvcDone))"

definition slots_kept :: "checker \<Rightarrow> bool" where
  "slots_kept c \<longleftrightarrow> length (ck_services c) = length service_names \<and> not_done (ck_services c) + length (ck_errCh c) \<le> errChSize"

lemma slots_step [inv_intro]: "checker_step c c' \<Longrightarrow> slots_kept c \<Longrightarrow> slots_kept c'"
proof (induction rule: checker_step.induct)
  case (returns i c res)
  then have "not_done ((ck_services c)[i := after_return (service_names ! i) res]) \<le> not_done (ck_services c)"
    unfolding not_done_def by (intro sum_list_update_le) simp_all
  with returns(3) show ?case by (simp add: slots_kept_def)
next
  case (reports i c err)
  then have "not_done ((ck_services c)[i := SvcDone]) < not_done (ck_services c)"
    unfolding not_done_def by (intro sum_list_update_less) simp_all
  with reports(4) show ?case by (simp add: slots_kept_def)
qed (simp_all add: slots_kept_def)

lemma member_update:
  "i < length xs \<Longrightarrow> x \<noteq> xs ! i \<Longrightarrow> x \<in> set (xs[i := y]) \<longleftrightarrow> x = y \<or> x \<in> set xs"
  by (auto simp: set_conv_nth nth_list_update)

lemma errors_step [inv_intro]: "checker_step c c' \<Longrightarrow> errors_kept c \<Longrightarrow> errors_kept c'"
proof (induction rule: checker_step.induct)
  case (returns i c res)
  have "SvcReporting err \<in> set ((ck_services c)[i := after_return (service_names ! i) res]) \<longleftrightarrow>
      SvcReporting err = after_return (service_names ! i) res \<or> SvcReporting err \<in> set (ck_services c)" for err
    by (rule member_update) (simp_all add: returns(1,2))
  with returns(3) show ?case by (cases res) (auto simp: errors_kept_def reporting_def)
next
  case (reports i c err)
  have "SvcReporting e \<in> set ((ck_services c)[i := SvcDone]) \<longleftrightarrow> SvcReporting e \<in> set (ck_services c)" if "e \<noteq> err" for e
    using member_update[of i "ck_services c" "SvcReporting e" SvcDone] reports(1,2) that by simp
  then have "insert err {e. SvcReporting e \<in> set ((ck_services c)[i := SvcDone])} = insert err (reporting c)"
    unfolding reporting_def by blast
  moreover have "err \<in> reporting c" using reports(1,2) by (auto simp: reporting_def in_set_conv_nth)
  ultimately show ?case using reports(4) by (auto simp: errors_kept_def reporting_def)
qed (auto simp: errors_kept_def reporting_def)

lemma outcome_step [inv_intro]: "checker_step c c' \<Longrightarrow> outcome_kept c \<Longrightarrow> errors_kept c \<Longrightarrow> outcome_kept c'"
proof (induction rule: checker_step.induct)
  case (returns i c res)
  then have "SvcRunning \<in> set (ck_services c)" by (auto simp: in_set_conv_nth)
  with returns(3) show ?case by (auto simp: outcome_kept_def)
next
  case (reports i c err)
  then have "SvcReporting err \<in> set (ck_services c)" by (auto simp: in_set_conv_nth)
  with reports(4) show ?case by (auto simp: outcome_kept_def)
qed (auto simp: outcome_kept_def errors_kept_def)

section \<open>Runs\<close>

inductive checker_run :: "nat \<Rightarrow> checker \<Rightarrow> bool" where
  start: "checker_run 0 checker_started"
| step: "checker_run n c \<Longrightarrow> checker_step c c' \<Longrightarrow> checker_run (Suc n) c'"

lemma checker_run_inv: "checker_run n c \<Longrightarrow> slots_kept c \<and> errors_kept c \<and> outcome_kept c \<and> n + checker_left c \<le> 13"
proof (induction rule: checker_run.induct)
  case start
  show ?case
    by (simp add: checker_started_def slots_kept_def errors_kept_def outcome_kept_def not_done_def reporting_def
        errChSize_def service_names_def checker_left_def)
next
  case (step n c c')
  with checker_step_left[OF step(2)] show ?case by (auto intro: inv_intro)
qed

lemma not_done_member: "s \<in> set ss \<Longrightarrow> s \<noteq> SvcDone \<Longrightarrow> 0 < not_done ss"
  unfolding not_done_def by (induction ss) auto

lemma slots_room: "slots_kept c \<Longrightarrow> SvcReporting err \<in> set (ck_services c) \<Longrightarrow> length (ck_errCh c) < errChSize"
  using not_done_member[of "SvcReporting err" "ck_services c"] by (simp add: slots_kept_def)

text \<open>Whoever waits in \<open>main\<close> while all services are done goes on, unless nothing has happened to wait for.\<close>

lemma checker_progress:
  assumes "slots_kept c" and "errors_kept c" and "SvcRunning \<notin> set (ck_services c)"
    and "ck_ctxDone c \<or> ck_failed c \<noteq> [] \<or> ck_phase c = CheckerStopping" and "\<forall>code. ck_phase c \<noteq> CheckerExited code"
  shows "\<exists>c'. checker_step c c' \<and> ck_ctxDone c' = ck_ctxDone c"
proof (cases "\<exists>err. SvcReporting err \<in> set (ck_services c)")
  case True
  then obtain i err where "i < length (ck_services c)" "ck_services c ! i = SvcReporting err" by (auto simp: in_set_conv_nth)
  with slots_room[OF assms(1)] checker_step.reports[of i c err] show ?thesis by (metis checker.select_convs(1) checker.surjective checker.update_convs(3,4) nth_mem)
next
  case False
  then have all_done: "\<forall>s \<in> set (ck_services c). s = SvcDone" and none: "reporting c = {}"
    using assms(3) by (auto simp: reporting_def) (metis service_phase.exhaust)
  show ?thesis
  proof (cases "ck_phase c")
    case CheckerSelect
    show ?thesis
    proof (cases "ck_ctxDone c")
      case True
      with checker_step.on_signal[OF CheckerSelect] show ?thesis by fastforce
    next
      case False
      with assms(2,4) CheckerSelect none have "ck_errCh c \<noteq> []" by (auto simp: errors_kept_def)
      then obtain err rest where "ck_errCh c = err # rest" by (cases "ck_errCh c") auto
      from checker_step.on_error[OF CheckerSelect this] show ?thesis by fastforce
    qed
  next
    case CheckerStopping
    from checker_step.all_done[OF this all_done] show ?thesis by fastforce
  qed (use assms(5) in simp)
qed

definition checker_exited :: "checker \<Rightarrow> bool" where
  "checker_exited c \<longleftrightarrow> (\<exists>code. ck_phase c = CheckerExited code)"

lemma checker_stuck:
  assumes "slots_kept c" and "errors_kept c" and "\<not> (\<exists>c'. checker_step c c')"
  shows "checker_exited c"
proof (rule ccontr)
  assume "\<not> checker_exited c"
  then have phase: "\<forall>code. ck_phase c \<noteq> CheckerExited code" by (simp add: checker_exited_def)
  with checker_step.signalled assms(3) have "ck_ctxDone c" by blast
  moreover have "SvcRunning \<notin> set (ck_services c)"
    using checker_step.returns[of _ c] assms(3) by (auto simp: in_set_conv_nth)
  ultimately show False using checker_progress[OF assms(1,2) _ _ phase] assms(3) by blast
qed

interpretation checker_process: ending_process checker_step "\<lambda>c. slots_kept c \<and> errors_kept c \<and> outcome_kept c" checker_left checker_exited
  by unfold_locales (auto intro: slots_step errors_step outcome_step checker_step_left checker_stuck)

text \<open>
  C26. The process ends, and its exit code tells why. No service ever waits for \<open>errCh\<close>; once a signal or an
  error has come and the services, whose context is then cancelled, have returned, \<open>main\<close> goes on until
  it has exited; every run has at most thirteen steps and can be completed; and exit code 0 means a signal and a publisher that
  was closed, exit code 1 the error of a service, both after all five services have ended.
\<close>

theorem checker_ends:
  assumes "checker_run n c"
  shows "n \<le> 13 \<and> (\<forall>err. SvcReporting err \<in> set (ck_services c) \<longrightarrow> length (ck_errCh c) < errChSize) \<and>
    (ck_phase c \<noteq> CheckerSelect \<longrightarrow> runCtx_done c) \<and>
    (\<forall>code. ck_phase c = CheckerExited code \<longrightarrow> (\<forall>s \<in> set (ck_services c). s = SvcDone) \<and>
       (code = 0 \<and> ck_ctxDone c \<and> ck_publisherClosed c \<or> code = 1 \<and> ck_failed c \<noteq> [])) \<and>
    ((ck_ctxDone c \<or> ck_failed c \<noteq> []) \<and> SvcRunning \<notin> set (ck_services c) \<and> (\<forall>code. ck_phase c \<noteq> CheckerExited code) \<longrightarrow>
       (\<exists>c'. checker_step c c' \<and> ck_ctxDone c' = ck_ctxDone c)) \<and>
    (\<exists>c' code. checker_step\<^sup>*\<^sup>* c c' \<and> ck_phase c' = CheckerExited code)"
proof -
  note inv = checker_run_inv[OF assms]
  then have "\<exists>c' code. checker_step\<^sup>*\<^sup>* c c' \<and> ck_phase c' = CheckerExited code"
    using checker_process.run_reaches_over[of c] unfolding checker_exited_def by blast
  moreover have "n \<le> 13" using inv by simp
  moreover have "\<forall>err. SvcReporting err \<in> set (ck_services c) \<longrightarrow> length (ck_errCh c) < errChSize" using inv slots_room by blast
  moreover have "ck_phase c \<noteq> CheckerSelect \<longrightarrow> runCtx_done c" using inv by (simp add: outcome_kept_def runCtx_done_def)
  moreover have "\<forall>code. ck_phase c = CheckerExited code \<longrightarrow> (\<forall>s \<in> set (ck_services c). s = SvcDone) \<and>
       (code = 0 \<and> ck_ctxDone c \<and> ck_publisherClosed c \<or> code = 1 \<and> ck_failed c \<noteq> [])"
    using inv by (auto simp: outcome_kept_def)
  ultimately show ?thesis using inv checker_progress[of c] by blast
qed

section \<open>A run with a failing service\<close>

definition sample_failed :: checker where
  "sample_failed = checker_started\<lparr>ck_services := [SvcReporting ''consumer: down'', SvcRunning, SvcRunning, SvcRunning, SvcRunning],
     ck_failed := [''consumer: down'']\<rparr>"

lemma sample_failed_run: "checker_run 1 sample_failed"
proof -
  have "checker_step checker_started sample_failed"
    using checker_step.returns[of 0 checker_started "ReturnsError ''down''"]
    by (simp add: checker_started_def sample_failed_def service_names_def)
  from checker_run.step[OF checker_run.start this] show ?thesis by simp
qed

theorem checker_ends_witness:
  "length (ck_errCh sample_failed) < errChSize \<and> checker_run 1 sample_failed \<and> SvcReporting ''consumer: down'' \<in> set (ck_services sample_failed)"
  using checker_ends[OF sample_failed_run] sample_failed_run by (simp add: sample_failed_def)

section \<open>The start\<close>

text \<open>
  Without an error the health server is listening, the consumer and the publisher exist, and only the
  configuration, the Kafka client, the database and Redis can keep the process from starting.
\<close>

lemma checker_startup_ok:
  assumes "loadConfig numCPU env = Inr c"
  shows "\<exists>svc pub. checker_startup numCPU True True True env =
    Inr \<lparr>su_maxProcs = ac_maxProcs c, su_health = Some ('':'' @ fmt_d (ac_healthPort c)), su_consumer = svc,
         su_publisher = pub, su_lateness = lateness_micros c\<rparr>"
proof -
  from assms(1) have "1 \<le> ac_healthPort c" by (rule loadConfig_cases) (use parsePositiveInt_positive[of env "''HEALTH_PORT''" 8092 "ac_healthPort c"] in simp)
  moreover obtain svc where "New_consumer True (consumer_config_of c) = Inr svc" using loaded_consumer[OF assms(1)] by blast
  moreover obtain pub where "NewPublisher True True (publisher_config_of c) = Inr pub" using loaded_publisher[OF assms(1)] by blast
  ultimately show ?thesis using assms(1) by (simp add: checker_startup_def startHealthServer_def)
qed

end
