(* ===== verification/Ingester.thy ===== *)
theory Ingester
  imports Producer Config
begin

text \<open>
  The process of the telemetry ingester (\<open>telemetry-ingester/main.go\<close> with \<open>grpcserver/server.go\<close> and
  \<open>Close\<close> of the producer): its configuration, \<open>GET /metrics/latest\<close>, and the life of the process with
  any number of concurrent streams and asynchronous produces as a step relation.
\<close>

section \<open>Configuration\<close>

record ingester_settings =
  is_grpcPort :: string
  is_httpPort :: string
  is_producer :: producer_config

definition ingester_config :: "environment \<Rightarrow> ingester_settings" where
  "ingester_config env =
     \<lparr>is_grpcPort = getenv env ''GRPC_PORT'' ''8091'', is_httpPort = getenv env ''HTTP_PORT'' ''8090'',
      is_producer =
        \<lparr>pc_Brokers = splitCSV (getenv env ''REDPANDA_BROKERS'' ''redpanda:9092''),
         pc_OrderTopic = getenv env ''ORDER_EVENTS_TOPIC'' ''order_events'',
         pc_MetricsTopic = getenv env ''ORDER_METRICS_TOPIC'' ''order_metrics''\<rparr>\<rparr>"

text \<open>With the same topics on both sides, what is produced is what the checker consumes.\<close>

lemma topics_agree:
  assumes "loadConfig numCPU env = Inr c" and "getenv env ''METRICS_TOPIC'' ''order_metrics'' = getenv env ''ORDER_METRICS_TOPIC'' ''order_metrics''"
  shows "ac_orderTopic c = pc_OrderTopic (is_producer (ingester_config env)) \<and>
    ac_metricsTopic c = pc_MetricsTopic (is_producer (ingester_config env)) \<and> ac_brokers c = pc_Brokers (is_producer (ingester_config env))"
  using assms by (auto simp: ingester_config_def loadConfig_def Let_def split: if_splits sum.splits)

section \<open>The latest metrics\<close>

definition New_server :: "producer \<Rightarrow> telemetry_server" where
  "New_server kafka = \<lparr>ts_producer = kafka, ts_latest = None, ts_batchesTotal = 0\<rparr>"

definition LatestMetrics :: "telemetry_server \<Rightarrow> out_metrics option" where
  "LatestMetrics s = ts_latest s"

text \<open>\<open>Encode\<close> ends its output with a newline; what it refuses leaves the reply without a body.\<close>

definition handleLatest :: "(json_fields \<Rightarrow> string) \<Rightarrow> telemetry_server \<Rightarrow> string http_reply" where
  "handleLatest text s =
     (case LatestMetrics s of
        None \<Rightarrow> \<lparr>hr_status = 404,
          hr_body = CHR ''{'' # CHR 0x22 # ''detail'' @ CHR 0x22 # CHR '':'' # CHR 0x22 # ''No metrics received yet'' @ [CHR 0x22, CHR ''}'']\<rparr>
      | Some m \<Rightarrow> \<lparr>hr_status = 200,
          hr_body = (case json_Marshal text (metrics_fields m) of None \<Rightarrow> [] | Some t \<Rightarrow> t @ [CHR 0x0A])\<rparr>)"

section \<open>The process\<close>

text \<open>The records of one batch, in the order in which they are handed to the client.\<close>

definition batch_records :: "(json_fields \<Rightarrow> string) \<Rightarrow> telemetry_server \<Rightarrow> audit_batch \<Rightarrow> kgo_record list" where
  "batch_records text s b =
     pr_sent (ts_producer (publish_batch text b (s\<lparr>ts_producer := (ts_producer s)\<lparr>pr_sent := []\<rparr>\<rparr>)))"

datatype stream_state = StreamReceiving | StreamPublishing "kgo_record list" "pb_metrics option" | StreamOver stream_end

datatype ingester_phase = IngServing | IngStopping | IngClosing | IngExited

text \<open>
  \<open>ig_pending\<close>: produced, the promise not yet called; \<open>ig_durable\<close> and \<open>ig_refused\<close>: called without and with
  an error. \<open>ig_received\<close> is history: the batches in the order in which any stream received them.
\<close>

record ingester =
  ig_server :: telemetry_server
  ig_streams :: "stream_state list"
  ig_counts :: "int list"
  ig_pending :: "kgo_record multiset"
  ig_durable :: "kgo_record multiset"
  ig_refused :: "kgo_record multiset"
  ig_ctxDone :: bool
  ig_phase :: ingester_phase
  ig_received :: "audit_batch list"

definition hand_over :: "kgo_record \<Rightarrow> telemetry_server \<Rightarrow> telemetry_server" where
  "hand_over r s = s\<lparr>ts_producer := produce (kr_Topic r) (kr_Key r) (kr_Value r) (ts_producer s)\<rparr>"

definition batch_done :: "pb_metrics option \<Rightarrow> telemetry_server \<Rightarrow> telemetry_server" where
  "batch_done metrics s = (case metrics of None \<Rightarrow> s | Some m \<Rightarrow> storeLatestMetrics m s)"

definition set_stream :: "nat \<Rightarrow> stream_state \<Rightarrow> ingester \<Rightarrow> ingester" where
  "set_stream i st g = g\<lparr>ig_streams := (ig_streams g)[i := st]\<rparr>"

definition ingester_started :: "producer \<Rightarrow> ingester" where
  "ingester_started kafka =
     \<lparr>ig_server = New_server (kafka\<lparr>pr_sent := []\<rparr>), ig_streams = [], ig_counts = [], ig_pending = {#}, ig_durable = {#},
      ig_refused = {#}, ig_ctxDone = False, ig_phase = IngServing, ig_received = []\<rparr>"

text \<open>
  \<open>GracefulStop\<close> refuses new streams and returns when the open ones have ended; \<open>main\<close> then shuts the HTTP
  server down, and the deferred \<open>Close\<close> waits for the promises.
\<close>

inductive ingester_step :: "(json_fields \<Rightarrow> string) \<Rightarrow> ingester \<Rightarrow> ingester \<Rightarrow> bool" for enc where
  open_stream: "ig_phase g = IngServing \<Longrightarrow>
    ingester_step enc g (g\<lparr>ig_streams := ig_streams g @ [StreamReceiving], ig_counts := ig_counts g @ [0]\<rparr>)"
| receive: "i < length (ig_streams g) \<Longrightarrow> ig_streams g ! i = StreamReceiving \<Longrightarrow>
    ingester_step enc g (set_stream i (StreamPublishing (batch_records enc (ig_server g) b) (ab_Metrics b))
      (g\<lparr>ig_server := (ig_server g)\<lparr>ts_batchesTotal := i64 (ts_batchesTotal (ig_server g) + 1)\<rparr>,
         ig_counts := (ig_counts g)[i := i64 (ig_counts g ! i + 1)], ig_received := ig_received g @ [b]\<rparr>))"
| publish: "i < length (ig_streams g) \<Longrightarrow> ig_streams g ! i = StreamPublishing (r # rs) m \<Longrightarrow>
    ingester_step enc g (set_stream i (StreamPublishing rs m)
      (g\<lparr>ig_server := hand_over r (ig_server g), ig_pending := add_mset r (ig_pending g)\<rparr>))"
| published: "i < length (ig_streams g) \<Longrightarrow> ig_streams g ! i = StreamPublishing [] m \<Longrightarrow>
    ingester_step enc g (set_stream i StreamReceiving (g\<lparr>ig_server := batch_done m (ig_server g)\<rparr>))"
| end_of_stream: "i < length (ig_streams g) \<Longrightarrow> ig_streams g ! i = StreamReceiving \<Longrightarrow>
    ingester_step enc g (set_stream i (StreamOver (Acked (ig_counts g ! i))) g)"
| stream_error: "i < length (ig_streams g) \<Longrightarrow> ig_streams g ! i = StreamReceiving \<Longrightarrow>
    ingester_step enc g (set_stream i (StreamOver StreamFailed) g)"
| promise: "r \<in># ig_pending g \<Longrightarrow>
    ingester_step enc g (g\<lparr>ig_pending := ig_pending g - {#r#}, ig_durable := add_mset r (ig_durable g)\<rparr>)"
| promise_error: "r \<in># ig_pending g \<Longrightarrow>
    ingester_step enc g (g\<lparr>ig_pending := ig_pending g - {#r#}, ig_refused := add_mset r (ig_refused g)\<rparr>)"
| signalled: "ingester_step enc g (g\<lparr>ig_ctxDone := True\<rparr>)"
| stop: "ig_phase g = IngServing \<Longrightarrow> ig_ctxDone g \<Longrightarrow> ingester_step enc g (g\<lparr>ig_phase := IngStopping\<rparr>)"
| stopped: "ig_phase g = IngStopping \<Longrightarrow> \<forall>st \<in> set (ig_streams g). \<exists>e. st = StreamOver e \<Longrightarrow>
    ingester_step enc g (g\<lparr>ig_phase := IngClosing\<rparr>)"
| closed: "ig_phase g = IngClosing \<Longrightarrow> ig_pending g = {#} \<Longrightarrow> ingester_step enc g (g\<lparr>ig_phase := IngExited\<rparr>)"

inductive ingester_reach :: "(json_fields \<Rightarrow> string) \<Rightarrow> producer \<Rightarrow> ingester \<Rightarrow> bool" for enc kafka where
  start: "ingester_reach enc kafka (ingester_started kafka)"
| step: "ingester_reach enc kafka g \<Longrightarrow> ingester_step enc g g' \<Longrightarrow> ingester_reach enc kafka g'"

section \<open>What a batch becomes\<close>

definition same_topics :: "telemetry_server \<Rightarrow> producer \<Rightarrow> bool" where
  "same_topics s kafka \<longleftrightarrow> pr_orderTopic (ts_producer s) = pr_orderTopic kafka \<and> pr_metricsTopic (ts_producer s) = pr_metricsTopic kafka"

lemma batch_records_topics: "same_topics s kafka \<Longrightarrow> batch_records text s b = batch_records text (New_server kafka) b"
  by (simp add: batch_records_def publish_batch_sent same_topics_def New_server_def)

lemma publish_batch_topics: "same_topics s kafka \<Longrightarrow> same_topics (publish_batch text b s) kafka"
  by (simp add: same_topics_def publish_batch_sent)

text \<open>One stream by itself: the process sends what \<open>StreamTelemetry\<close> sends.\<close>

lemma StreamTelemetry_sends:
  "same_topics s kafka \<Longrightarrow>
     pr_sent (ts_producer (fst (StreamTelemetry text (map RecvBatch bs @ [RecvEOF]) n s))) =
       pr_sent (ts_producer s) @ concat (map (batch_records text (New_server kafka)) bs)"
proof (induction bs arbitrary: n s)
  case (Cons b bs)
  have "pr_sent (ts_producer (publish_batch text b s)) = pr_sent (ts_producer s) @ batch_records text s b"
    by (simp add: publish_batch_sent batch_records_def)
  with batch_records_topics[OF Cons.prems, of "text" b] Cons.IH[OF publish_batch_topics[OF Cons.prems]] show ?case by simp
qed simp

text \<open>After a stream the endpoint shows the last metrics in it, or what it showed before.\<close>

lemma publish_batch_latest:
  "ts_latest (publish_batch text b s) = (case ab_Metrics b of None \<Rightarrow> ts_latest s | Some m \<Rightarrow> Some (metrics_out m))"
  by (cases "ab_Metrics b") (simp_all add: publish_batch_def Let_def storeLatestMetrics_def)

lemma latest_of_stream:
  "LatestMetrics (fst (StreamTelemetry text (map RecvBatch bs @ [RecvEOF]) n s)) =
     fold (\<lambda>b latest. case ab_Metrics b of None \<Rightarrow> latest | Some m \<Rightarrow> Some (metrics_out m)) bs (LatestMetrics s)"
  by (induction bs arbitrary: n s) (simp_all add: LatestMetrics_def publish_batch_latest)

section \<open>Conservation\<close>

fun left_to_publish :: "stream_state \<Rightarrow> kgo_record list" where
  "left_to_publish (StreamPublishing rs m) = rs"
| "left_to_publish StreamReceiving = []"
| "left_to_publish (StreamOver e) = []"

definition in_streams :: "stream_state list \<Rightarrow> kgo_record multiset" where
  "in_streams sts = mset (concat (map left_to_publish sts))"

lemma in_streams_append [simp]: "in_streams (sts @ [st]) = in_streams sts + mset (left_to_publish st)"
  by (simp add: in_streams_def)

lemma in_streams_update:
  assumes "i < length sts"
  shows "in_streams (sts[i := st]) + mset (left_to_publish (sts ! i)) = in_streams sts + mset (left_to_publish st)"
  using assms
proof (induction sts arbitrary: i)
  case (Cons x sts)
  then show ?case by (cases i) (simp_all add: in_streams_def ac_simps)
qed simp

definition received_records :: "(json_fields \<Rightarrow> string) \<Rightarrow> producer \<Rightarrow> audit_batch list \<Rightarrow> kgo_record multiset" where
  "received_records text kafka bs = mset (concat (map (batch_records text (New_server kafka)) bs))"

definition all_over :: "ingester \<Rightarrow> bool" where
  "all_over g \<longleftrightarrow> (\<forall>st \<in> set (ig_streams g). \<exists>e. st = StreamOver e)"

definition ingester_inv :: "(json_fields \<Rightarrow> string) \<Rightarrow> producer \<Rightarrow> ingester \<Rightarrow> bool" where
  "ingester_inv text kafka g \<longleftrightarrow>
     same_topics (ig_server g) kafka \<and>
     mset (pr_sent (ts_producer (ig_server g))) = ig_pending g + ig_durable g + ig_refused g \<and>
     received_records text kafka (ig_received g) = mset (pr_sent (ts_producer (ig_server g))) + in_streams (ig_streams g) \<and>
     (ig_phase g \<noteq> IngServing \<longrightarrow> ig_ctxDone g) \<and>
     (ig_phase g \<in> {IngClosing, IngExited} \<longrightarrow> all_over g) \<and> (ig_phase g = IngExited \<longrightarrow> ig_pending g = {#})"

lemma over_not_changed: "all_over g \<Longrightarrow> i < length (ig_streams g) \<Longrightarrow> \<exists>e. ig_streams g ! i = StreamOver e"
  by (simp add: all_over_def)

lemma batch_done_fields [simp]:
  "ts_producer (batch_done m s) = ts_producer s" "same_topics (batch_done m s) kafka \<longleftrightarrow> same_topics s kafka"
  by (simp_all add: batch_done_def storeLatestMetrics_def same_topics_def split: option.split)

lemma record_parts [simp]: "\<lparr>kr_Topic = kr_Topic r, kr_Key = kr_Key r, kr_Value = kr_Value r\<rparr> = r"
  by (cases r) simp

lemmas ingester_simps = ingester_inv_def set_stream_def hand_over_def produce_def same_topics_def

lemma ingester_inv_step [inv_intro]: "ingester_step text g g' \<Longrightarrow> ingester_inv text kafka g \<Longrightarrow> ingester_inv text kafka g'"
proof (induction rule: ingester_step.induct)
  case (receive i g b)
  then have "\<not> all_over g" using over_not_changed by fastforce
  moreover have "batch_records text (ig_server g) b = batch_records text (New_server kafka) b"
    using receive(3) by (intro batch_records_topics) (simp add: ingester_inv_def)
  ultimately show ?case
    using receive in_streams_update[of i "ig_streams g" "StreamPublishing (batch_records text (ig_server g) b) (ab_Metrics b)"]
    by (simp add: ingester_simps received_records_def ac_simps)
next
  case (publish i g r rs m)
  then have "\<not> all_over g" using over_not_changed by fastforce
  with publish in_streams_update[of i "ig_streams g" "StreamPublishing rs m"] show ?case by (simp add: ingester_simps)
next
  case (published i g m)
  then have "\<not> all_over g" using over_not_changed by fastforce
  with published in_streams_update[of i "ig_streams g" StreamReceiving] show ?case by (simp add: ingester_simps)
next
  case (end_of_stream i g)
  then have "\<not> all_over g" using over_not_changed by fastforce
  with end_of_stream in_streams_update[of i "ig_streams g" "StreamOver (Acked (ig_counts g ! i))"] show ?case by (simp add: ingester_simps)
next
  case (stream_error i g)
  then have "\<not> all_over g" using over_not_changed by fastforce
  with stream_error in_streams_update[of i "ig_streams g" "StreamOver StreamFailed"] show ?case by (simp add: ingester_simps)
next
  case (promise r g)
  then show ?case by (auto simp: ingester_simps all_over_def dest!: multi_member_split)
next
  case (promise_error r g)
  then show ?case by (auto simp: ingester_simps all_over_def dest!: multi_member_split)
qed (simp_all add: ingester_simps all_over_def)

lemma ingester_reach_inv: "ingester_reach text kafka g \<Longrightarrow> ingester_inv text kafka g"
proof (induction rule: ingester_reach.induct)
  case start
  show ?case by (simp add: ingester_simps ingester_started_def New_server_def received_records_def in_streams_def)
next
  case (step g g')
  then show ?case by (auto intro: inv_intro)
qed

text \<open>
  C25. The ingester loses nothing: however many streams deliver batches at the same time and in whatever
  order the promises are called, the records of all batches received are accounted for, each once, as
  still in a stream, pending, written, or refused by the broker; when the process has exited, every
  record of every batch has been written or reported as refused; and a process that has been told to
  stop and whose streams have ended goes on until it exits.
\<close>

theorem ingester_loses_nothing:
  assumes "ingester_reach text kafka g"
  shows "received_records text kafka (ig_received g) = in_streams (ig_streams g) + ig_pending g + ig_durable g + ig_refused g \<and>
    (ig_phase g = IngExited \<longrightarrow>
       ig_ctxDone g \<and> all_over g \<and> received_records text kafka (ig_received g) = ig_durable g + ig_refused g) \<and>
    (ig_phase g \<in> {IngStopping, IngClosing} \<and> all_over g \<longrightarrow>
       (\<exists>g'. ingester_step text g g' \<and> (ig_phase g' \<noteq> ig_phase g \<or> size (ig_pending g') < size (ig_pending g))))"
proof -
  note inv = ingester_reach_inv[OF assms, unfolded ingester_inv_def]
  have over: "in_streams (ig_streams g) = {#}" if "all_over g"
    using that by (induction "ig_streams g") (fastforce simp: in_streams_def all_over_def)+
  have "\<exists>g'. ingester_step text g g' \<and> (ig_phase g' \<noteq> ig_phase g \<or> size (ig_pending g') < size (ig_pending g))"
    if "ig_phase g \<in> {IngStopping, IngClosing}" and "all_over g"
  proof (cases "ig_phase g = IngStopping")
    case True
    from ingester_step.stopped[OF True] that(2) show ?thesis
      by (intro exI[of _ "g\<lparr>ig_phase := IngClosing\<rparr>"]) (simp add: all_over_def True)
  next
    case False
    with that(1) have closing: "ig_phase g = IngClosing" by simp
    show ?thesis
    proof (cases "ig_pending g = {#}")
      case True
      from ingester_step.closed[OF closing True] show ?thesis
        by (intro exI[of _ "g\<lparr>ig_phase := IngExited\<rparr>"]) (simp add: closing)
    next
      case False
      then obtain r where r: "r \<in># ig_pending g" by blast
      let ?g = "g\<lparr>ig_pending := ig_pending g - {#r#}, ig_durable := add_mset r (ig_durable g)\<rparr>"
      have "size (ig_pending ?g) < size (ig_pending g)" using r by (simp add: size_Diff1_less)
      with ingester_step.promise[OF r] show ?thesis by blast
    qed
  qed
  then show ?thesis using inv over by (auto simp: ac_simps)
qed

section \<open>A run\<close>

definition ingester_kafka :: producer where
  "ingester_kafka = \<lparr>pr_orderTopic = ''o'', pr_metricsTopic = ''m'', pr_sent = []\<rparr>"

definition ingester_metrics :: pb_metrics where
  "ingester_metrics =
     \<lparr>pm_SubmissionId = ''s'', pm_ThreadId = 0, pm_Http200 = 1, pm_Http4xx = 0, pm_Http5xx = 0, pm_Timeout = 0, pm_Econnref = 0,
      pm_OtherErr = 0, pm_AvgLatencyMs = Fin 1, pm_Samples = 1, pm_Histogram = None\<rparr>"

definition metrics_batch :: audit_batch where
  "metrics_batch = \<lparr>ab_Orders = [], ab_Trades = [], ab_Metrics = Some ingester_metrics\<rparr>"

definition ingester_record :: kgo_record where
  "ingester_record = \<lparr>kr_Topic = ''m'', kr_Key = ''s'', kr_Value = ''J''\<rparr>"

definition ingester_text :: "json_fields \<Rightarrow> string" where
  "ingester_text fs = ''J''"

definition one_stream ::
  "telemetry_server \<Rightarrow> stream_state \<Rightarrow> int \<Rightarrow> kgo_record multiset \<Rightarrow> kgo_record multiset \<Rightarrow> bool \<Rightarrow> ingester_phase \<Rightarrow> audit_batch list \<Rightarrow> ingester" where
  "one_stream srv st n pending durable done phase bs =
     \<lparr>ig_server = srv, ig_streams = [st], ig_counts = [n], ig_pending = pending, ig_durable = durable, ig_refused = {#},
      ig_ctxDone = done, ig_phase = phase, ig_received = bs\<rparr>"

lemma metrics_batch_records: "same_topics srv ingester_kafka \<Longrightarrow> batch_records ingester_text srv metrics_batch = [ingester_record]"
  by (simp add: batch_records_topics)
    (simp add: batch_records_def publish_batch_sent New_server_def ingester_kafka_def metrics_batch_def batch_messages_def wire_record_def finite_f64_def
      json_Marshal_def metrics_fields_def metrics_out_def ingester_metrics_def ingester_text_def ingester_record_def)

lemma sample_ingester_run:
  "\<exists>srv. ingester_reach ingester_text ingester_kafka
     (one_stream srv (StreamOver (Acked 1)) 1 {#} {#ingester_record#} True IngExited [metrics_batch])"
proof -
  let ?s0 = "New_server ingester_kafka"
  let ?s1 = "?s0\<lparr>ts_batchesTotal := 1\<rparr>"
  let ?s2 = "hand_over ingester_record ?s1"
  let ?s3 = "batch_done (Some ingester_metrics) ?s2"
  note defs = one_stream_def set_stream_def
  have "ingester_kafka\<lparr>pr_sent := []\<rparr> = ingester_kafka" by (simp add: ingester_kafka_def)
  with ingester_step.open_stream[of "ingester_started ingester_kafka" ingester_text]
  have "ingester_step ingester_text (ingester_started ingester_kafka) (one_stream ?s0 StreamReceiving 0 {#} {#} False IngServing [])"
    by (simp add: ingester_started_def one_stream_def)
  note r = ingester_reach.step[OF ingester_reach.start this]
  have "batch_records ingester_text ?s0 metrics_batch = [ingester_record]"
    by (rule metrics_batch_records) (simp add: same_topics_def New_server_def)
  with ingester_step.receive[of 0 "one_stream ?s0 StreamReceiving 0 {#} {#} False IngServing []" ingester_text metrics_batch]
  have "ingester_step ingester_text (one_stream ?s0 StreamReceiving 0 {#} {#} False IngServing [])
      (one_stream ?s1 (StreamPublishing [ingester_record] (Some ingester_metrics)) 1 {#} {#} False IngServing [metrics_batch])"
    by (simp add: defs New_server_def metrics_batch_def i64_def)
  note r = ingester_reach.step[OF r this]
  from ingester_step.publish[of 0 "one_stream ?s1 (StreamPublishing [ingester_record] (Some ingester_metrics)) 1 {#} {#} False IngServing [metrics_batch]"]
  have "ingester_step ingester_text (one_stream ?s1 (StreamPublishing [ingester_record] (Some ingester_metrics)) 1 {#} {#} False IngServing [metrics_batch])
      (one_stream ?s2 (StreamPublishing [] (Some ingester_metrics)) 1 {#ingester_record#} {#} False IngServing [metrics_batch])"
    by (simp add: defs)
  note r = ingester_reach.step[OF r this]
  from ingester_step.published[of 0 "one_stream ?s2 (StreamPublishing [] (Some ingester_metrics)) 1 {#ingester_record#} {#} False IngServing [metrics_batch]"]
  have "ingester_step ingester_text (one_stream ?s2 (StreamPublishing [] (Some ingester_metrics)) 1 {#ingester_record#} {#} False IngServing [metrics_batch])
      (one_stream ?s3 StreamReceiving 1 {#ingester_record#} {#} False IngServing [metrics_batch])"
    by (simp add: defs)
  note r = ingester_reach.step[OF r this]
  from ingester_step.signalled[of ingester_text "one_stream ?s3 StreamReceiving 1 {#ingester_record#} {#} False IngServing [metrics_batch]"]
  have "ingester_step ingester_text (one_stream ?s3 StreamReceiving 1 {#ingester_record#} {#} False IngServing [metrics_batch])
      (one_stream ?s3 StreamReceiving 1 {#ingester_record#} {#} True IngServing [metrics_batch])" by (simp add: defs)
  note r = ingester_reach.step[OF r this]
  from ingester_step.stop[of "one_stream ?s3 StreamReceiving 1 {#ingester_record#} {#} True IngServing [metrics_batch]"]
  have "ingester_step ingester_text (one_stream ?s3 StreamReceiving 1 {#ingester_record#} {#} True IngServing [metrics_batch])
      (one_stream ?s3 StreamReceiving 1 {#ingester_record#} {#} True IngStopping [metrics_batch])" by (simp add: defs)
  note r = ingester_reach.step[OF r this]
  from ingester_step.end_of_stream[of 0 "one_stream ?s3 StreamReceiving 1 {#ingester_record#} {#} True IngStopping [metrics_batch]"]
  have "ingester_step ingester_text (one_stream ?s3 StreamReceiving 1 {#ingester_record#} {#} True IngStopping [metrics_batch])
      (one_stream ?s3 (StreamOver (Acked 1)) 1 {#ingester_record#} {#} True IngStopping [metrics_batch])" by (simp add: defs)
  note r = ingester_reach.step[OF r this]
  from ingester_step.stopped[of "one_stream ?s3 (StreamOver (Acked 1)) 1 {#ingester_record#} {#} True IngStopping [metrics_batch]"]
  have "ingester_step ingester_text (one_stream ?s3 (StreamOver (Acked 1)) 1 {#ingester_record#} {#} True IngStopping [metrics_batch])
      (one_stream ?s3 (StreamOver (Acked 1)) 1 {#ingester_record#} {#} True IngClosing [metrics_batch])" by (simp add: defs)
  note r = ingester_reach.step[OF r this]
  from ingester_step.promise[of ingester_record "one_stream ?s3 (StreamOver (Acked 1)) 1 {#ingester_record#} {#} True IngClosing [metrics_batch]"]
  have "ingester_step ingester_text (one_stream ?s3 (StreamOver (Acked 1)) 1 {#ingester_record#} {#} True IngClosing [metrics_batch])
      (one_stream ?s3 (StreamOver (Acked 1)) 1 {#} {#ingester_record#} True IngClosing [metrics_batch])" by (simp add: defs)
  note r = ingester_reach.step[OF r this]
  from ingester_step.closed[of "one_stream ?s3 (StreamOver (Acked 1)) 1 {#} {#ingester_record#} True IngClosing [metrics_batch]"]
  have "ingester_step ingester_text (one_stream ?s3 (StreamOver (Acked 1)) 1 {#} {#ingester_record#} True IngClosing [metrics_batch])
      (one_stream ?s3 (StreamOver (Acked 1)) 1 {#} {#ingester_record#} True IngExited [metrics_batch])" by (simp add: defs)
  from ingester_reach.step[OF r this] show ?thesis by blast
qed

theorem ingester_loses_nothing_witness: "received_records ingester_text ingester_kafka [metrics_batch] = {#ingester_record#}"
proof -
  obtain srv where "ingester_reach ingester_text ingester_kafka
      (one_stream srv (StreamOver (Acked 1)) 1 {#} {#ingester_record#} True IngExited [metrics_batch])"
    using sample_ingester_run by blast
  from ingester_loses_nothing[OF this] show ?thesis by (simp add: one_stream_def in_streams_def)
qed

end
