(* ===== verification/Startup.thy ===== *)
theory Startup
  imports WorkerPool FleetPool Leaderboard Process
begin

text \<open>
  How the sandbox manager (\<open>sandbox-manager/cmd/main.go\<close>), the submission service
  (\<open>submission-service/cmd/main.go\<close>) and the leaderboard service (\<open>leaderboard-service/main.go\<close>) start: the
  order of their connections, where each failure ends the process, and the addresses they use. The
  services only share stores, so the pipeline depends on these addresses being the same. The last section
  is the shutdown of the submission service.
\<close>

datatype start_failure = StartPanic config_panic | StartFatal string | PoolPanic pool_panic

definition host_port :: "string \<Rightarrow> int \<Rightarrow> string" where
  "host_port host port = host @ '':'' @ fmt_d port"

section \<open>The sandbox manager\<close>

text \<open>What the libraries answer: connecting to Postgres, MinIO, Redis and Docker.\<close>

record start_answers =
  sa_db :: bool
  sa_minio :: bool
  sa_redis :: bool
  sa_docker :: bool

record manager =
  mg_dsn :: string
  mg_endpoint :: string
  mg_bucket :: string
  mg_redisAddr :: string
  mg_healthAddr :: string
  mg_fleet :: "fleet_instance list"
  mg_pool :: worker_pool

text \<open>\<open>queue\<close> is what the Redis list holds when the pool starts.\<close>

definition manager_startup :: "start_answers \<Rightarrow> string list \<Rightarrow> environment \<Rightarrow> start_failure + manager" where
  "manager_startup ans queue env =
     (case sandbox_Load env of
        Inl p \<Rightarrow> Inl (StartPanic p)
      | Inr cfg \<Rightarrow>
          if \<not> sa_db ans then Inl (StartFatal ''[main] postgres'')
          else if \<not> sa_minio ans then Inl (StartFatal ''[main] minio'')
          else if \<not> sa_redis ans then Inl (StartFatal ''[main] redis ping'')
          else if \<not> sa_docker ans then Inl (StartFatal ''[main] docker'')
          else case New_worker_pool cfg queue of
            Inl p \<Rightarrow> Inl (PoolPanic p)
          | Inr pool \<Rightarrow>
              Inr \<lparr>mg_dsn = sandbox_DSN cfg, mg_endpoint = sb_MinIOEndpoint cfg, mg_bucket = sb_MinIOBucket cfg,
                   mg_redisAddr = host_port (sb_RedisHost cfg) (sb_RedisPort cfg),
                   mg_healthAddr = '':'' @ fmt_d (sb_HealthPort cfg), mg_fleet = NewPool (sb_FleetPoolURLs cfg),
                   mg_pool = start_workers cfg pool\<rparr>)"

section \<open>The submission service\<close>

record frontend =
  fe_dsn :: string
  fe_endpoint :: string
  fe_bucket :: string
  fe_redisAddr :: string
  fe_addr :: string

text \<open>The address of \<open>queue.New\<close>.\<close>

definition queue_addr :: "submission_config \<Rightarrow> string" where
  "queue_addr cfg = host_port (sc_RedisHost cfg) (sc_RedisPort cfg)"

definition submission_startup :: "start_answers \<Rightarrow> environment \<Rightarrow> start_failure + frontend" where
  "submission_startup ans env =
     (case submission_Load env of
        Inl p \<Rightarrow> Inl (StartPanic p)
      | Inr cfg \<Rightarrow>
          if \<not> sa_db ans then Inl (StartFatal ''[main] postgres connect error'')
          else if \<not> sa_minio ans then Inl (StartFatal ''[main] minio connect error'')
          else if \<not> sa_redis ans then Inl (StartFatal ''[main] redis connect error'')
          else Inr \<lparr>fe_dsn = submission_DSN cfg, fe_endpoint = sc_MinIOEndpoint cfg, fe_bucket = sc_MinIOBucket cfg,
                    fe_redisAddr = queue_addr cfg, fe_addr = '':'' @ sc_Port cfg\<rparr>)"

section \<open>The leaderboard service\<close>

record board_answers =
  ba_templates :: bool
  ba_db :: bool
  ba_ping :: bool
  ba_rowTemplate :: bool

record board =
  bo_dsn :: string
  bo_redisAddr :: string
  bo_addr :: string

definition leaderboard_startup :: "board_answers \<Rightarrow> environment \<Rightarrow> start_failure + board" where
  "leaderboard_startup ans env =
     (if \<not> ba_templates ans then Inl (StartFatal ''[Main] Template parse error'')
      else if \<not> ba_db ans then Inl (StartFatal ''[Main] DB connect error'')
      else if \<not> ba_ping ans then Inl (StartFatal ''[Main] Redis connect error'')
      else if \<not> ba_rowTemplate ans then Inl (StartFatal ''[Main] row.html template not found'')
      else Inr \<lparr>bo_dsn = leaderboard_pgConn env, bo_redisAddr = leaderboard_redisAddr env,
                bo_addr = '':'' @ getenv env ''PORT'' ''8085''\<rparr>)"

section \<open>The services meet\<close>

definition port_setting :: "environment \<Rightarrow> string \<Rightarrow> bool" where
  "port_setting env key \<longleftrightarrow> env key = [] \<or> (\<exists>p. 0 \<le> p \<and> p < 65536 \<and> env key = fmt_d p)"

lemma default_ports: "fmt_d 6379 = ''6379''" "fmt_d 5432 = ''5432''"
  by (simp_all add: fmt_d_def digits_of.simps char_of_def bit_0)

lemma fmt_d_nonempty: "fmt_d p \<noteq> []"
  using digits_of_head[of "nat \<bar>p\<bar>"] by (auto simp: fmt_d_def)

text \<open>A port reads the same as a number, with either default, and as text.\<close>

lemma port_setting_reads:
  assumes "port_setting env key" and "fallback = fmt_d n" and "in_i64 n"
  shows "fmt_d (envInt env key n) = getenv env key fallback" "atoi_ignoring_error (getenv env key fallback) = envInt env key n"
proof -
  have port: "in_i64 p" if "0 \<le> p" "p < 65536" for p :: int using that by (simp add: in_i64_def)
  show "fmt_d (envInt env key n) = getenv env key fallback"
    using assms port by (auto simp: port_setting_def envInt_def getenv_def ParseInt_fmt_d fmt_d_nonempty)
  show "atoi_ignoring_error (getenv env key fallback) = envInt env key n"
    using assms port by (auto simp: port_setting_def envInt_def getenv_def ParseInt_fmt_d fmt_d_nonempty atoi_ignoring_error_def)
qed

lemma redis_port: "port_setting env ''REDIS_PORT'' \<Longrightarrow>
    fmt_d (envInt env ''REDIS_PORT'' 6379) = getenv env ''REDIS_PORT'' ''6379'' \<and>
    atoi_ignoring_error (getenv env ''REDIS_PORT'' ''6379'') = envInt env ''REDIS_PORT'' 6379"
  using port_setting_reads[of env "''REDIS_PORT''" "''6379''" 6379] by (simp add: default_ports in_i64_def)

lemma postgres_port: "port_setting env ''POSTGRES_PORT'' \<Longrightarrow>
    fmt_d (envInt env ''POSTGRES_PORT'' 5432) = getenv env ''POSTGRES_PORT'' ''5432'' \<and>
    atoi_ignoring_error (getenv env ''POSTGRES_PORT'' ''5432'') = envInt env ''POSTGRES_PORT'' 5432"
  using port_setting_reads[of env "''POSTGRES_PORT''" "''5432''" 5432] by (simp add: default_ports in_i64_def)

lemma sandbox_Load_fields:
  assumes "sandbox_Load env = Inr cfg"
  shows "sandbox_DSN cfg = dsn_of (env ''POSTGRES_USER'') (env ''POSTGRES_PASSWORD'') (env ''POSTGRES_HOST'')
      (envInt env ''POSTGRES_PORT'' 5432) (env ''POSTGRES_DB'')"
    "sb_MinIOEndpoint cfg = env ''MINIO_HOST'' @ '':'' @ getenv env ''MINIO_PORT'' ''9000''"
    "sb_MinIOBucket cfg = getenv env ''MINIO_BUCKET'' ''submissions''" "sb_RedisHost cfg = getenv env ''REDIS_HOST'' ''redis''"
    "sb_RedisPort cfg = envInt env ''REDIS_PORT'' 6379"
    "\<forall>key \<in> {''POSTGRES_USER'', ''POSTGRES_PASSWORD'', ''POSTGRES_HOST'', ''POSTGRES_DB''}. env key \<noteq> []"
  using assms by (auto simp: sandbox_Load_def requireenv_def sandbox_DSN_def split: if_splits)

lemma submission_Load_fields:
  assumes "submission_Load env = Inr cfg"
  shows "submission_DSN cfg = dsn_of (env ''POSTGRES_USER'') (env ''POSTGRES_PASSWORD'') (env ''POSTGRES_HOST'')
      (atoi_ignoring_error (getenv env ''POSTGRES_PORT'' ''5432'')) (env ''POSTGRES_DB'')"
    "sc_MinIOEndpoint cfg = env ''MINIO_HOST'' @ '':'' @ getenv env ''MINIO_PORT'' ''9000''"
    "sc_MinIOBucket cfg = getenv env ''MINIO_BUCKET'' ''submissions''" "sc_RedisHost cfg = getenv env ''REDIS_HOST'' ''redis''"
    "sc_RedisPort cfg = atoi_ignoring_error (getenv env ''REDIS_PORT'' ''6379'')"
  using assms by (auto simp: submission_Load_def requireenv_def submission_DSN_def Let_def split: if_splits)

text \<open>
  C27. The services meet: when sandbox manager, submission service and leaderboard service start from the
  same environment, with ports that are unset or decimal, they use the same database, the same object
  store and bucket, and the same Redis, which is also where the checker publishes unless it is given
  another address; the manager starts with exactly the configured number of workers, all of them free.
\<close>

theorem services_meet:
  assumes "manager_startup ans1 queue env = Inr m" and "submission_startup ans2 env = Inr f"
    and "leaderboard_startup ans3 env = Inr b" and "port_setting env ''REDIS_PORT''" and "port_setting env ''POSTGRES_PORT''"
  shows "mg_dsn m = fe_dsn f \<and> bo_dsn b = fe_dsn f \<and> mg_endpoint m = fe_endpoint f \<and> mg_bucket m = fe_bucket f \<and>
    mg_redisAddr m = fe_redisAddr f \<and> bo_redisAddr b = fe_redisAddr f \<and>
    (env ''REDIS_ADDR'' = [] \<longrightarrow> redisAddrFromEnv env = bo_redisAddr b) \<and>
    wp_queue (mg_pool m) = queue \<and> wp_workers (mg_pool m) = replicate (wp_capacity (mg_pool m)) WkWaiting \<and>
    int (wp_capacity (mg_pool m)) = envInt env ''CONFIG_WORKER_COUNT'' 8"
proof -
  from assms(1) obtain cfg pool where cfg: "sandbox_Load env = Inr cfg" "New_worker_pool cfg queue = Inr pool"
    and m: "mg_dsn m = sandbox_DSN cfg" "mg_endpoint m = sb_MinIOEndpoint cfg" "mg_bucket m = sb_MinIOBucket cfg"
      "mg_redisAddr m = host_port (sb_RedisHost cfg) (sb_RedisPort cfg)" "mg_pool m = start_workers cfg pool"
    by (auto simp: manager_startup_def split: sum.splits if_splits)
  from assms(2) obtain scfg where scfg: "submission_Load env = Inr scfg"
    and f: "fe_dsn f = submission_DSN scfg" "fe_endpoint f = sc_MinIOEndpoint scfg" "fe_bucket f = sc_MinIOBucket scfg"
      "fe_redisAddr f = queue_addr scfg"
    by (auto simp: submission_startup_def split: sum.splits if_splits)
  from assms(3) have b: "bo_dsn b = leaderboard_pgConn env" "bo_redisAddr b = leaderboard_redisAddr env"
    by (auto simp: leaderboard_startup_def split: if_splits)
  note s = sandbox_Load_fields[OF cfg(1)] and t = submission_Load_fields[OF scfg]
  note redis = redis_port[OF assms(4)] and postgres = postgres_port[OF assms(5)]
  have "mg_dsn m = fe_dsn f" by (simp add: m f s t postgres)
  moreover have "bo_dsn b = fe_dsn f"
    using s(6) by (simp add: b f t leaderboard_pgConn_def dsn_of_def postgres) (simp add: getenv_def postgres[unfolded getenv_def])
  moreover have "mg_redisAddr m = fe_redisAddr f" by (simp add: m f s t queue_addr_def redis)
  moreover have "bo_redisAddr b = fe_redisAddr f"
    by (simp add: b f t queue_addr_def host_port_def leaderboard_redisAddr_def redis)
  moreover have "env ''REDIS_ADDR'' = [] \<longrightarrow> redisAddrFromEnv env = bo_redisAddr b"
    by (simp add: b redisAddrFromEnv_def leaderboard_redisAddr_def)
  moreover have "sb_WorkerCount cfg = envInt env ''CONFIG_WORKER_COUNT'' 8"
    using cfg(1) by (auto simp: sandbox_Load_def requireenv_def split: if_splits)
  ultimately show ?thesis
    using cfg(2) by (auto simp: m f s t New_worker_pool_def start_workers_def split: if_splits)
qed

definition full_environment :: environment where
  "full_environment key =
     (if key \<in> {''POSTGRES_HOST'', ''POSTGRES_USER'', ''POSTGRES_PASSWORD'', ''POSTGRES_DB'', ''MINIO_HOST'', ''MINIO_ROOT_USER'', ''MINIO_ROOT_PASSWORD''}
      then ''x'' else [])"

theorem services_meet_witness:
  "\<exists>m f b. manager_startup \<lparr>sa_db = True, sa_minio = True, sa_redis = True, sa_docker = True\<rparr> [''s1''] full_environment = Inr m \<and>
     submission_startup \<lparr>sa_db = True, sa_minio = True, sa_redis = True, sa_docker = True\<rparr> full_environment = Inr f \<and>
     leaderboard_startup \<lparr>ba_templates = True, ba_db = True, ba_ping = True, ba_rowTemplate = True\<rparr> full_environment = Inr b \<and>
     mg_dsn m = fe_dsn f \<and> bo_redisAddr b = mg_redisAddr m \<and> wp_capacity (mg_pool m) = 8"
proof -
  let ?ans = "\<lparr>sa_db = True, sa_minio = True, sa_redis = True, sa_docker = True\<rparr>"
  have env: "port_setting full_environment key" if "key \<in> {''REDIS_PORT'', ''POSTGRES_PORT''}" for key
    using that by (auto simp: port_setting_def full_environment_def)
  obtain m where m: "manager_startup ?ans [''s1''] full_environment = Inr m"
    by (simp add: manager_startup_def sandbox_Load_def requireenv_def full_environment_def New_worker_pool_def envInt_def)
  obtain f where f: "submission_startup ?ans full_environment = Inr f"
    by (simp add: submission_startup_def submission_Load_def requireenv_def full_environment_def Let_def)
  obtain b where b: "leaderboard_startup \<lparr>ba_templates = True, ba_db = True, ba_ping = True, ba_rowTemplate = True\<rparr> full_environment = Inr b"
    by (simp add: leaderboard_startup_def)
  have "envInt full_environment ''CONFIG_WORKER_COUNT'' 8 = 8" by (simp add: envInt_def full_environment_def)
  with services_meet[OF m f b env env] m f b show ?thesis by (intro exI[of _ m] exI[of _ f] exI[of _ b]) simp
qed

section \<open>The shutdown of the submission service\<close>

text \<open>
  \<open>main\<close> serves until a signal or until \<open>ListenAndServe\<close> fails, which ends the process at once; after a
  signal no request begins any more, and \<open>Shutdown\<close> waits for those in flight, for at most 15 seconds.
\<close>

datatype front_phase = FrontServing | FrontDraining | FrontExited int

record front =
  fr_phase :: front_phase
  fr_inFlight :: nat
  fr_timedOut :: bool

inductive front_step :: "front \<Rightarrow> front \<Rightarrow> bool" where
  request_begins: "fr_phase s = FrontServing \<Longrightarrow> front_step s (s\<lparr>fr_inFlight := Suc (fr_inFlight s)\<rparr>)"
| request_ends: "fr_inFlight s = Suc n \<Longrightarrow> fr_phase s \<in> {FrontServing, FrontDraining} \<Longrightarrow> front_step s (s\<lparr>fr_inFlight := n\<rparr>)"
| listen_failed: "fr_phase s = FrontServing \<Longrightarrow> front_step s (s\<lparr>fr_phase := FrontExited 1\<rparr>)"
| signalled: "fr_phase s = FrontServing \<Longrightarrow> front_step s (s\<lparr>fr_phase := FrontDraining\<rparr>)"
| drained: "fr_phase s = FrontDraining \<Longrightarrow> fr_inFlight s = 0 \<Longrightarrow> front_step s (s\<lparr>fr_phase := FrontExited 0\<rparr>)"
| deadline: "fr_phase s = FrontDraining \<Longrightarrow> front_step s (s\<lparr>fr_phase := FrontExited 0, fr_timedOut := True\<rparr>)"

definition front_started :: front where
  "front_started = \<lparr>fr_phase = FrontServing, fr_inFlight = 0, fr_timedOut = False\<rparr>"

definition front_inv :: "front \<Rightarrow> bool" where
  "front_inv s \<longleftrightarrow> (\<forall>code. fr_phase s = FrontExited code \<longrightarrow>
     code \<in> {0, 1} \<and> (code = 0 \<and> \<not> fr_timedOut s \<longrightarrow> fr_inFlight s = 0))"

interpretation front: kept_invariant front_step front_inv
proof unfold_locales
  fix s s'
  show "front_step s s' \<Longrightarrow> front_inv s \<Longrightarrow> front_inv s'" by (induction rule: front_step.induct) (auto simp: front_inv_def)
qed

text \<open>A regular end of the process answers every request that was accepted, unless the deadline passes.\<close>

lemma front_drains:
  assumes "front_step\<^sup>*\<^sup>* front_started s" and "fr_phase s = FrontExited 0" and "\<not> fr_timedOut s"
  shows "fr_inFlight s = 0"
  using front.run_keeps[OF assms(1)] assms(2,3) by (simp add: front_inv_def front_started_def)

text \<open>Once draining, the process ends: the interpretation of the contract for the states after the signal.\<close>

definition draining :: "front \<Rightarrow> bool" where
  "draining s \<longleftrightarrow> fr_phase s \<noteq> FrontServing"

definition front_left :: "front \<Rightarrow> nat" where
  "front_left s = fr_inFlight s + (if fr_phase s = FrontDraining then 1 else 0)"

interpretation front_drain: ending_process front_step draining front_left "\<lambda>s. \<exists>code. fr_phase s = FrontExited code"
proof unfold_locales
  fix s s'
  show "front_step s s' \<Longrightarrow> draining s \<Longrightarrow> draining s'" by (induction rule: front_step.induct) (auto simp: draining_def)
  show "front_step s s' \<Longrightarrow> draining s \<Longrightarrow> front_left s' < front_left s"
    by (induction rule: front_step.induct) (auto simp: draining_def front_left_def)
  show "draining s \<Longrightarrow> \<not> (\<exists>t. front_step s t) \<Longrightarrow> \<exists>code. fr_phase s = FrontExited code"
    using front_step.deadline[of s] by (cases "fr_phase s") (auto simp: draining_def)
qed

lemma front_ends: "fr_phase s = FrontDraining \<Longrightarrow> \<exists>s' code. front_step\<^sup>*\<^sup>* s s' \<and> fr_phase s' = FrontExited code"
  using front_drain.run_reaches_over[of s] by (auto simp: draining_def)

end
