(* ===== verification/Platform.thy ===== *)
theory Platform
  imports Intake WorkerPool
begin

text \<open>
  The submission service and the sandbox manager together: requests, the Redis queue, the dispatcher with
  its workers and the processing of every submission, over one table and one object store. The steps are
  those of the theories Intake, WorkerPool and Worker; this theory says which of their states are the
  same, and what follows for a submission on its whole way.
\<close>

section \<open>The composition\<close>

text \<open>\<open>pl_lives sid\<close> is the call of \<open>process\<close> for \<open>sid\<close>, with its goroutines, once a worker has taken it.\<close>

record platform =
  pl_intake :: intake
  pl_pool :: worker_pool
  pl_lives :: "string \<Rightarrow> life option"

definition with_table :: "sub_table \<Rightarrow> life \<Rightarrow> life" where
  "with_table tbl l = l\<lparr>lf_table := tbl\<rparr>"

definition pool_receives :: "intake \<Rightarrow> intake \<Rightarrow> worker_pool \<Rightarrow> worker_pool" where
  "pool_receives w w' p =
     p\<lparr>wp_queue := it_queue w', wp_pushed := wp_pushed p @ drop (length (it_queue w)) (it_queue w')\<rparr>"

text \<open>The steps of the pool in which no worker starts or ends the processing of a submission.\<close>

definition pool_internal :: "worker_pool \<Rightarrow> worker_pool \<Rightarrow> bool" where
  "pool_internal p p' \<longleftrightarrow>
     pool_step p p' \<and> wp_pushed p' = wp_pushed p \<and> wp_taken p' = wp_taken p \<and> wp_done p' = wp_done p"

inductive platform_step :: "(string \<Rightarrow> team option) \<Rightarrow> sandbox_config \<Rightarrow> platform \<Rightarrow> platform \<Rightarrow> bool" for teams cfg where
  request: "submit q teams ans r (pl_intake s) = (w', reply) \<Longrightarrow>
    platform_step teams cfg s (s\<lparr>pl_intake := w', pl_pool := pool_receives (pl_intake s) w' (pl_pool s)\<rparr>)"
| pool: "pool_internal (pl_pool s) p' \<Longrightarrow>
    platform_step teams cfg s (s\<lparr>pl_pool := p', pl_intake := (pl_intake s)\<lparr>it_queue := wp_queue p'\<rparr>\<rparr>)"
| take_job: "worker_is (pl_pool s) i WkWaiting \<Longrightarrow> wp_jobs (pl_pool s) = sid # rest \<Longrightarrow>
    platform_step teams cfg s (s\<lparr>pl_pool := (pl_pool s)\<lparr>wp_jobs := rest, wp_taken := wp_taken (pl_pool s) @ [sid],
        wp_workers := (wp_workers (pl_pool s))[i := WkBusy sid]\<rparr>,
      pl_lives := (pl_lives s)(sid \<mapsto> life_start (it_table (pl_intake s)))\<rparr>)"
| process: "pl_lives s sid = Some l \<Longrightarrow> life_step cfg sid (with_table (it_table (pl_intake s)) l) l' \<Longrightarrow>
    platform_step teams cfg s (s\<lparr>pl_lives := (pl_lives s)(sid \<mapsto> l'),
      pl_intake := (pl_intake s)\<lparr>it_table := lf_table l'\<rparr>\<rparr>)"
| processed: "worker_is (pl_pool s) i (WkBusy sid) \<Longrightarrow> pl_lives s sid = Some l \<Longrightarrow> lf_main l = MDone \<Longrightarrow>
    platform_step teams cfg s (s\<lparr>pl_pool := (pl_pool s)\<lparr>wp_done := wp_done (pl_pool s) @ [sid],
        wp_workers := (wp_workers (pl_pool s))[i := WkWaiting]\<rparr>\<rparr>)"

inductive platform_reach :: "(string \<Rightarrow> team option) \<Rightarrow> sandbox_config \<Rightarrow> platform \<Rightarrow> bool" for teams cfg where
  start: "New_worker_pool cfg [] = Inr p \<Longrightarrow>
    platform_reach teams cfg \<lparr>pl_intake = \<lparr>it_table = (\<lambda>sid. None), it_objects = (\<lambda>key. None), it_queue = []\<rparr>,
      pl_pool = start_workers cfg p, pl_lives = (\<lambda>sid. None)\<rparr>"
| step: "platform_reach teams cfg s \<Longrightarrow> platform_step teams cfg s s' \<Longrightarrow> platform_reach teams cfg s'"

section \<open>Every part runs as in its own theory\<close>

lemma life_table_update: "life_step cfg sid l l' \<Longrightarrow>
    lf_table l' = lf_table l \<or> (\<exists>db_ok st extra. lf_table l' = try_update db_ok sid st extra (lf_table l))"
  by (induction rule: life_step.induct) (simp_all, blast+)

lemma submit_queue:
  assumes "submit q teams ans r w = (w', reply)"
  shows "it_queue w' = it_queue w \<and> (\<forall>x row. it_table w' x = Some row \<and> it_table w x = None \<longrightarrow> sr_status row = ''PENDING'') \<and>
      (\<forall>x row. it_table w x = Some row \<longrightarrow> it_table w' x = Some row)
    \<or> (\<exists>sid. it_queue w' = it_queue w @ [sid] \<and> it_table w sid = None \<and> it_table w' sid \<noteq> None \<and>
      (\<forall>x row. it_table w' x = Some row \<and> it_table w x = None \<longrightarrow> sr_status row = ''PENDING'') \<and>
      (\<forall>x row. it_table w x = Some row \<longrightarrow> it_table w' x = Some row))"
  using assms
proof (cases rule: submit_cases)
  case (insert_failed team language filename bytes)
  from insert_failed(3) show ?thesis
    by (auto simp: insert_call_def InsertSubmission_def UploadStream_def split: if_splits)
next
  case (accepted team language filename bytes w2)
  from accepted(4) show ?thesis unfolding accepted(5)
    by (auto simp: insert_call_def InsertSubmission_def UploadStream_def Enqueue_submission_def split: if_splits)
qed (auto simp: UploadStream_def)

text \<open>The projections, and how the ids on their way relate to the table.\<close>

definition parts_run :: "(string \<Rightarrow> team option) \<Rightarrow> sandbox_config \<Rightarrow> platform \<Rightarrow> bool" where
  "parts_run teams cfg s \<longleftrightarrow>
     intake_reach teams (pl_intake s) \<and> pool_reach cfg (pl_pool s) \<and> it_queue (pl_intake s) = wp_queue (pl_pool s) \<and>
     (\<forall>sid l. pl_lives s sid = Some l \<longrightarrow> life_reach cfg sid (with_table (it_table (pl_intake s)) l))"

definition ids_known :: "platform \<Rightarrow> bool" where
  "ids_known s \<longleftrightarrow>
     distinct (wp_pushed (pl_pool s)) \<and> (\<forall>sid \<in> set (wp_pushed (pl_pool s)). it_table (pl_intake s) sid \<noteq> None) \<and>
     (\<forall>sid. pl_lives s sid \<noteq> None \<longleftrightarrow> sid \<in> set (wp_taken (pl_pool s))) \<and>
     (\<forall>sid r. it_table (pl_intake s) sid = Some r \<and> pl_lives s sid = None \<longrightarrow> sr_status r = ''PENDING'')"

lemma with_table_simps [simp]: "lf_table (with_table tbl l) = tbl" "with_table tbl (with_table tbl' l) = with_table tbl l"
  "lf_main (with_table tbl l) = lf_main l" "with_table (lf_table l) l = l"
  by (simp_all add: with_table_def)

lemma life_reach_table: "life_reach cfg sid (with_table tbl l) \<Longrightarrow> valid_table tbl' \<Longrightarrow> life_reach cfg sid (with_table tbl' l)"
  using life_reach.others[of cfg sid "with_table tbl l" tbl'] by (simp add: with_table_def)

lemma intake_table_valid: "intake_reach teams w \<Longrightarrow> valid_table (it_table w)"
  using intake_reach_inv by (simp add: intake_inv_def)

lemma parts_run_intake:
  assumes "parts_run teams cfg s" and "intake_reach teams w'" and "pool_reach cfg p'" and "it_queue w' = wp_queue p'"
  shows "parts_run teams cfg (s\<lparr>pl_intake := w', pl_pool := p'\<rparr>)"
  using assms life_reach_table[OF _ intake_table_valid[OF assms(2)]] by (simp add: parts_run_def) blast

lemma pool_internal_queue: "pool_internal p p' \<Longrightarrow> wp_queue p' = wp_queue p \<or> (\<exists>sid. wp_queue p = sid # wp_queue p')"
  unfolding pool_internal_def by (auto elim: pool_step.cases)

lemma pool_receives_reach:
  assumes "pool_reach cfg p" and "it_queue w = wp_queue p" and "it_queue w' = it_queue w \<or> it_queue w' = it_queue w @ [sid]"
  shows "pool_reach cfg (pool_receives w w' p)"
  using assms(3)
proof
  assume "it_queue w' = it_queue w"
  then have "pool_receives w w' p = p" using assms(2) by (simp add: pool_receives_def)
  with assms(1) show ?thesis by simp
next
  assume "it_queue w' = it_queue w @ [sid]"
  then have "pool_receives w w' p = p\<lparr>wp_queue := wp_queue p @ [sid], wp_pushed := wp_pushed p @ [sid]\<rparr>"
    using assms(2) by (simp add: pool_receives_def)
  with pool_reach.step[OF assms(1) pool_step.push] show ?thesis by simp
qed

lemma parts_run_step [inv_intro]: "platform_step teams cfg s s' \<Longrightarrow> parts_run teams cfg s \<Longrightarrow> parts_run teams cfg s'"
proof (induction rule: platform_step.induct)
  case (request q ans r s w' reply)
  from request(2) have parts: "intake_reach teams (pl_intake s)" "pool_reach cfg (pl_pool s)"
    "it_queue (pl_intake s) = wp_queue (pl_pool s)" by (simp_all add: parts_run_def)
  from submit_queue[OF request(1)] obtain sid where
    "it_queue w' = it_queue (pl_intake s) \<or> it_queue w' = it_queue (pl_intake s) @ [sid]" by blast
  from pool_receives_reach[OF parts(2,3) this]
  have "pool_reach cfg (pool_receives (pl_intake s) w' (pl_pool s))" .
  moreover have "intake_reach teams w'" using intake_reach.step[OF parts(1) intake_step.request[OF request(1)]] .
  ultimately show ?case using request(2) by (intro parts_run_intake) (simp_all add: pool_receives_def)
next
  case (pool s p')
  then have parts: "intake_reach teams (pl_intake s)" "pool_reach cfg p'" "it_queue (pl_intake s) = wp_queue (pl_pool s)"
    by (auto simp: parts_run_def pool_internal_def intro: pool_reach.step)
  have "intake_reach teams ((pl_intake s)\<lparr>it_queue := wp_queue p'\<rparr>)"
    using pool_internal_queue[OF pool(1)]
  proof
    assume "wp_queue p' = wp_queue (pl_pool s)"
    then have "(pl_intake s)\<lparr>it_queue := wp_queue p'\<rparr> = pl_intake s" using parts(3) by simp
    then show ?thesis using parts(1) by simp
  next
    assume "\<exists>sid. wp_queue (pl_pool s) = sid # wp_queue p'"
    then show ?thesis using intake_reach.step[OF parts(1) intake_step.pop] parts(3) by auto
  qed
  from parts_run_intake[OF pool(2) this parts(2)] show ?case by (simp add: parts_run_def)
next
  case (take_job s i sid rest)
  then have parts: "intake_reach teams (pl_intake s)" "pool_reach cfg (pl_pool s)" by (simp_all add: parts_run_def)
  have "life_reach cfg sid (life_start (it_table (pl_intake s)))" using intake_table_valid[OF parts(1)] by (rule life_reach.start)
  then have "life_reach cfg sid (with_table (it_table (pl_intake s)) (life_start (it_table (pl_intake s))))"
    by (simp add: with_table_def life_start_def)
  with take_job(3) pool_reach.step[OF parts(2) pool_step.take_job[OF take_job(1,2)]] show ?case by (auto simp: parts_run_def)
next
  case (process s sid l l')
  let ?tbl = "it_table (pl_intake s)"
  from process(1,3) have parts: "intake_reach teams (pl_intake s)" "life_reach cfg sid (with_table ?tbl l)"
    by (simp_all add: parts_run_def)
  have intake: "intake_reach teams ((pl_intake s)\<lparr>it_table := lf_table l'\<rparr>)"
    using life_table_update[OF process(2)] intake_reach.step[OF parts(1) intake_step.status] parts(1) by auto
  have "life_reach cfg sid l'" using life_reach.step[OF parts(2) process(2)] .
  moreover have "life_reach cfg x (with_table (lf_table l') m)" if "pl_lives s x = Some m" for x m
    using that process(3) life_reach_table intake_table_valid[OF intake] by (fastforce simp: parts_run_def)
  ultimately show ?case using process(3) intake by (simp add: parts_run_def)
next
  case (processed s i sid l)
  then show ?case by (auto simp: parts_run_def intro: pool_reach.step[OF _ pool_step.processed])
qed

lemma ids_known_step:
  "platform_step teams cfg s s' \<Longrightarrow> parts_run teams cfg s \<Longrightarrow> ids_known s \<Longrightarrow> ids_known s'"
proof (induction rule: platform_step.induct)
  case (request q ans r s w' reply)
  let ?w = "pl_intake s"
  from submit_queue[OF request(1)] obtain sid where
    queue: "it_queue w' = it_queue ?w \<or> it_queue w' = it_queue ?w @ [sid] \<and> it_table ?w sid = None \<and> it_table w' sid \<noteq> None" and
    fresh: "\<And>x row. it_table w' x = Some row \<Longrightarrow> it_table ?w x = None \<Longrightarrow> sr_status row = ''PENDING''" and
    kept: "\<And>x row. it_table ?w x = Some row \<Longrightarrow> it_table w' x = Some row" by blast
  have rows: "sr_status r = ''PENDING''" if "it_table w' x = Some r" "pl_lives s x = None" for x r
  proof (cases "it_table ?w x")
    case None
    with that(1) fresh show ?thesis by blast
  next
    case (Some r0)
    with kept[OF Some] that request(3) show ?thesis by (simp add: ids_known_def)
  qed
  have pushed: "distinct (wp_pushed (pl_pool s))" "x \<in> set (wp_pushed (pl_pool s)) \<Longrightarrow> it_table ?w x \<noteq> None \<and> it_table w' x \<noteq> None" for x
    using request(3) kept by (auto simp: ids_known_def)
  have lives: "\<forall>x. pl_lives s x \<noteq> None \<longleftrightarrow> x \<in> set (wp_taken (pl_pool s))" using request(3) by (simp add: ids_known_def)
  from queue show ?case
  proof
    assume "it_queue w' = it_queue ?w"
    with pushed rows lives show ?thesis by (auto simp: ids_known_def pool_receives_def)
  next
    assume "it_queue w' = it_queue ?w @ [sid] \<and> it_table ?w sid = None \<and> it_table w' sid \<noteq> None"
    moreover from this pushed(2) have "sid \<notin> set (wp_pushed (pl_pool s))" by blast
    ultimately show ?thesis using pushed rows lives by (auto simp: ids_known_def pool_receives_def)
  qed
next
  case (pool s p')
  then show ?case by (simp add: ids_known_def pool_internal_def)
next
  case (take_job s i sid rest)
  then show ?case by (auto simp: ids_known_def)
next
  case (process s sid l l')
  let ?tbl = "it_table (pl_intake s)"
  from life_step_table[OF process(2)] have other: "x \<noteq> sid \<Longrightarrow> lf_table l' x = ?tbl x"
    and own: "lf_table l' sid = None \<longleftrightarrow> ?tbl sid = None" for x by simp_all
  have same: "lf_table l' x \<noteq> None \<longleftrightarrow> ?tbl x \<noteq> None" for x using other[of x] own by (cases "x = sid") simp_all
  have taken: "sid \<in> set (wp_taken (pl_pool s))" using process(1,4) unfolding ids_known_def by blast
  have pending: "sr_status r = ''PENDING''" if "lf_table l' x = Some r" "pl_lives s x = None" for x r
    using that process(1,4) other[of x] by (cases "x = sid") (simp_all add: ids_known_def)
  have known: "\<forall>x \<in> set (wp_pushed (pl_pool s)). lf_table l' x \<noteq> None" using process(4) same unfolding ids_known_def by blast
  show ?case using process(4) taken pending known by (simp add: ids_known_def) (use pending in blast)
next
  case (processed s i sid l)
  then show ?case by (simp add: ids_known_def)
qed

lemma platform_reach_inv: "platform_reach teams cfg s \<Longrightarrow> parts_run teams cfg s \<and> ids_known s"
proof (induction rule: platform_reach.induct)
  case (start p)
  from pool_reach.start[OF start] start intake_reach.start[of teams] show ?case
    by (auto simp: parts_run_def ids_known_def New_worker_pool_def start_workers_def split: if_splits)
next
  case (step s s')
  then show ?case by (blast intro: parts_run_step ids_known_step)
qed

section \<open>The way of a submission\<close>

definition done_over :: "platform \<Rightarrow> bool" where
  "done_over s \<longleftrightarrow> (\<forall>sid l. sid \<in> set (wp_done (pl_pool s)) \<and> pl_lives s sid = Some l \<longrightarrow> lf_main l = MDone)"

lemma life_done_stays: "life_step cfg sid l l' \<Longrightarrow> lf_main l = MDone \<Longrightarrow> lf_main l' = MDone"
  by (induction rule: life_step.induct) simp_all

lemma next_job_is_new:
  assumes "parts_run teams cfg s" and "ids_known s" and "wp_jobs (pl_pool s) = sid # rest"
  shows "sid \<notin> set (wp_done (pl_pool s))"
proof -
  note inv = pool_reach_inv[of cfg "pl_pool s", unfolded pool_inv_def]
  have "set (wp_done (pl_pool s)) \<subseteq> set (wp_taken (pl_pool s))"
    using inv assms(1) unfolding parts_run_def by (metis mset_subset_eq_add_right set_mset_mono set_mset_mset)
  moreover have "distinct (wp_taken (pl_pool s) @ sid # rest)" using inv assms unfolding parts_run_def ids_known_def by auto
  ultimately show ?thesis by auto
qed

lemma done_over_step:
  "platform_step teams cfg s s' \<Longrightarrow> parts_run teams cfg s \<Longrightarrow> ids_known s \<Longrightarrow> done_over s \<Longrightarrow> done_over s'"
proof (induction rule: platform_step.induct)
  case (take_job s i sid rest)
  with next_job_is_new[OF take_job(3,4,2)] show ?case by (auto simp: done_over_def)
next
  case (process s sid l l')
  with life_done_stays[OF process(2)] show ?case by (auto simp: done_over_def)
qed (auto simp: done_over_def pool_receives_def pool_internal_def)

lemma platform_reach_done: "platform_reach teams cfg s \<Longrightarrow> done_over s"
proof (induction rule: platform_reach.induct)
  case (step s s')
  then show ?case using platform_reach_inv[OF step(1)] by (blast intro: done_over_step)
qed (simp add: done_over_def)

text \<open>
  C31. The way of a submission: while requests arrive and any number of workers process submissions at the
  same time, every id that was ever queued is in exactly one place - with a worker, processed, waiting
  for a worker, with the dispatcher, dropped in a shutdown, or in the queue; it is processed at most
  once, and until then its row says PENDING; whoever processes it finds its row, an archive and a
  language that can be built, and follows the life of the theory Worker; and a worker is only free for
  the next one when \<open>process\<close> has returned.
\<close>

theorem submission_path:
  assumes "platform_reach teams cfg s"
  shows "distinct (wp_pushed (pl_pool s)) \<and>
    mset (wp_pushed (pl_pool s)) = mset (in_work (wp_workers (pl_pool s))) + mset (wp_done (pl_pool s)) + mset (wp_jobs (pl_pool s)) +
      mset (held_by (wp_dispatcher (pl_pool s))) + mset (wp_lost (pl_pool s)) + mset (it_queue (pl_intake s)) \<and>
    (\<forall>sid r. it_table (pl_intake s) sid = Some r \<and> pl_lives s sid = None \<longrightarrow> sr_status r = ''PENDING'') \<and>
    (\<forall>sid. pl_lives s sid \<noteq> None \<longleftrightarrow> sid \<in> set (in_work (wp_workers (pl_pool s))) \<union> set (wp_done (pl_pool s))) \<and>
    (\<forall>sid l. pl_lives s sid = Some l \<longrightarrow> life_reach cfg sid (with_table (it_table (pl_intake s)) l) \<and>
       (sid \<in> set (wp_done (pl_pool s)) \<longrightarrow> lf_main l = MDone) \<and>
       (\<exists>r. it_table (pl_intake s) sid = Some r \<and> renderDockerfile (sr_language r) \<noteq> [] \<and>
          it_objects (pl_intake s) (sr_storageKey r) \<noteq> None))"
proof -
  note inv = platform_reach_inv[OF assms, unfolded parts_run_def ids_known_def]
  then have pool: "pool_inv (nat (sb_WorkerCount cfg)) (pl_pool s)" by (blast intro: pool_reach_inv)
  then have taken: "mset (wp_taken (pl_pool s)) = mset (in_work (wp_workers (pl_pool s))) + mset (wp_done (pl_pool s))"
    "wp_pushed (pl_pool s) = wp_taken (pl_pool s) @ wp_jobs (pl_pool s) @ held_by (wp_dispatcher (pl_pool s)) @ wp_lost (pl_pool s) @
       wp_queue (pl_pool s)" by (simp_all add: pool_inv_def)
  have in_set: "set (wp_taken (pl_pool s)) = set (in_work (wp_workers (pl_pool s))) \<union> set (wp_done (pl_pool s))"
    using taken(1) by (metis set_mset_mset set_mset_union)
  have row: "\<exists>r. it_table (pl_intake s) sid = Some r \<and> renderDockerfile (sr_language r) \<noteq> [] \<and>
      it_objects (pl_intake s) (sr_storageKey r) \<noteq> None" if "pl_lives s sid = Some l" for sid l
  proof -
    have "sid \<in> set (wp_taken (pl_pool s))" using inv that by auto
    then have "sid \<in> set (wp_pushed (pl_pool s))" using taken(2) by auto
    then have "it_table (pl_intake s) sid \<noteq> None" using inv by blast
    then obtain r where r: "it_table (pl_intake s) sid = Some r" by auto
    have "intake_inv teams (pl_intake s)" using inv by (blast intro: intake_reach_inv)
    with r have "row_complete teams (pl_intake s) sid r" by (simp add: intake_inv_def)
    with r show ?thesis by (simp add: row_complete_def dockerfile_for_language)
  qed
  have "mset (wp_pushed (pl_pool s)) = mset (in_work (wp_workers (pl_pool s))) + mset (wp_done (pl_pool s)) + mset (wp_jobs (pl_pool s)) +
      mset (held_by (wp_dispatcher (pl_pool s))) + mset (wp_lost (pl_pool s)) + mset (it_queue (pl_intake s))"
    unfolding taken(2) using inv taken(1) by (simp add: ac_simps)
  then show ?thesis using inv in_set row platform_reach_done[OF assms] unfolding done_over_def by blast
qed

section \<open>One request and one worker\<close>

definition sample_platform :: "sandbox_config \<Rightarrow> platform" where
  "sample_platform cfg =
     (let w' = fst (submit id sample_teams sample_call sample_request sample_world);
          p = \<lparr>wp_queue = [], wp_jobs = [], wp_capacity = 1, wp_jobsClosed = False, wp_ctxDone = False, wp_dispatcher = DispTop,
            wp_workers = [WkWaiting], wp_done = [], wp_pushed = [], wp_taken = [], wp_lost = []\<rparr> in
      \<lparr>pl_intake = w', pl_pool = pool_receives sample_world w' p, pl_lives = (\<lambda>sid. None)\<rparr>)"

lemma sample_platform_reach:
  assumes "sb_WorkerCount cfg = 1"
  shows "platform_reach sample_teams cfg (sample_platform cfg) \<and> wp_pushed (pl_pool (sample_platform cfg)) = [''s1''] \<and>
    wp_queue (pl_pool (sample_platform cfg)) = [''s1'']"
proof -
  let ?w = "fst (submit id sample_teams sample_call sample_request sample_world)"
  have queue: "it_queue ?w = [''s1'']" "it_queue sample_world = []" using sample_submit by (simp_all add: sample_world_def)
  obtain p where p: "New_worker_pool cfg [] = Inr p" using assms by (simp add: New_worker_pool_def)
  have req: "submit id sample_teams sample_call sample_request sample_world = (?w, snd (submit id sample_teams sample_call sample_request sample_world))"
    by simp
  have pool: "start_workers cfg p = \<lparr>wp_queue = [], wp_jobs = [], wp_capacity = 1, wp_jobsClosed = False, wp_ctxDone = False,
      wp_dispatcher = DispTop, wp_workers = [WkWaiting], wp_done = [], wp_pushed = [], wp_taken = [], wp_lost = []\<rparr>"
    using p assms by (auto simp: New_worker_pool_def start_workers_def)
  let ?s0 = "\<lparr>pl_intake = sample_world, pl_pool = start_workers cfg p, pl_lives = (\<lambda>sid. None)\<rparr>"
  have "platform_reach sample_teams cfg ?s0" using platform_reach.start[OF p] by (simp add: sample_world_def)
  moreover have "platform_step sample_teams cfg ?s0 (sample_platform cfg)"
    using platform_step.request[of id sample_teams sample_call sample_request ?s0 ?w
        "snd (submit id sample_teams sample_call sample_request sample_world)" cfg] req
    by (simp add: sample_platform_def Let_def pool)
  ultimately have "platform_reach sample_teams cfg (sample_platform cfg)" by (rule platform_reach.step)
  moreover have "wp_pushed (pl_pool (sample_platform cfg)) = [''s1'']" "wp_queue (pl_pool (sample_platform cfg)) = [''s1'']"
    using queue by (simp_all add: sample_platform_def Let_def pool_receives_def)
  ultimately show ?thesis by simp
qed

theorem submission_path_witness:
  "\<exists>cfg s. sandbox_Load one_worker_environment = Inr cfg \<and> platform_reach sample_teams cfg s \<and> wp_pushed (pl_pool s) = [''s1''] \<and>
     (\<exists>r. it_table (pl_intake s) ''s1'' = Some r \<and> sr_status r = ''PENDING'')"
proof -
  obtain cfg where cfg: "sandbox_Load one_worker_environment = Inr cfg" "sb_WorkerCount cfg = 1" using one_worker_loads by blast
  let ?s = "sample_platform cfg"
  have s: "platform_reach sample_teams cfg ?s" "wp_pushed (pl_pool ?s) = [''s1'']" using sample_platform_reach[OF cfg(2)] by auto
  have "pl_lives ?s ''s1'' = None" by (simp add: sample_platform_def Let_def)
  moreover have "it_table (pl_intake ?s) ''s1'' \<noteq> None" using platform_reach_inv[OF s(1)] s(2) by (simp add: ids_known_def)
  ultimately have "\<exists>r. it_table (pl_intake ?s) ''s1'' = Some r \<and> sr_status r = ''PENDING''"
    using submission_path[OF s(1)] by blast
  with cfg(1) s show ?thesis by blast
qed

section \<open>The end of the process\<close>

text \<open>
  \<open>Run\<close> returns when the dispatcher does, without waiting for the workers; \<open>main\<close> then shuts down the health
  server and ends the process, whatever the workers and the cleanup goroutines are doing.
\<close>

definition Run_returned :: "platform \<Rightarrow> bool" where
  "Run_returned s \<longleftrightarrow> wp_dispatcher (pl_pool s) = DispReturned"

lemma pool_platform_step:
  assumes "platform_reach teams cfg s" and "pool_step (pl_pool s) p'" and "wp_pushed p' = wp_pushed (pl_pool s)"
    and "wp_taken p' = wp_taken (pl_pool s)" and "wp_done p' = wp_done (pl_pool s)"
  shows "platform_reach teams cfg (s\<lparr>pl_pool := p', pl_intake := (pl_intake s)\<lparr>it_queue := wp_queue p'\<rparr>\<rparr>)"
  using assms platform_step.pool platform_reach.step unfolding pool_internal_def by blast

text \<open>A submission that a worker has just taken: it is in no queue any more, and its row says PENDING.\<close>

lemma exit_abandons_work:
  assumes "sb_WorkerCount cfg = 1"
  shows "\<exists>s r. platform_reach sample_teams cfg s \<and> Run_returned s \<and> wp_workers (pl_pool s) = [WkBusy ''s1''] \<and>
    it_queue (pl_intake s) = [] \<and> it_table (pl_intake s) ''s1'' = Some r \<and> sr_status r = ''PENDING''"
proof -
  let ?w = "fst (submit id sample_teams sample_call sample_request sample_world)"
  let ?p = "\<lambda>q jobs closed ctx disp wk taken. \<lparr>wp_queue = q, wp_jobs = jobs, wp_capacity = 1, wp_jobsClosed = closed, wp_ctxDone = ctx,
      wp_dispatcher = disp, wp_workers = [wk], wp_done = [], wp_pushed = [''s1''], wp_taken = taken, wp_lost = []\<rparr>"
  let ?s = "\<lambda>p lives. \<lparr>pl_intake = ?w\<lparr>it_queue := wp_queue p\<rparr>, pl_pool = p, pl_lives = lives\<rparr>"
  let ?live = "(\<lambda>sid. None)(''s1'' \<mapsto> life_start (it_table ?w))"
  note sample = sample_platform_reach[OF assms]
  have w: "it_queue ?w = [''s1'']" "it_queue sample_world = []" using sample_submit by (simp_all add: sample_world_def)
  then have "sample_platform cfg = ?s (?p [''s1''] [] False False DispTop WkWaiting []) (\<lambda>sid. None)"
    by (simp add: sample_platform_def Let_def pool_receives_def flip: w(1))
  with sample have 0: "platform_reach sample_teams cfg (?s (?p [''s1''] [] False False DispTop WkWaiting []) (\<lambda>sid. None))" by simp
  have 1: "platform_reach sample_teams cfg (?s (?p [''s1''] [] False False DispPopping WkWaiting []) (\<lambda>sid. None))"
    using pool_platform_step[OF 0 pool_step.go_on] by simp
  have 2: "platform_reach sample_teams cfg (?s (?p [] [] False False (DispHolding ''s1'') WkWaiting []) (\<lambda>sid. None))"
    using pool_platform_step[OF 1 pool_step.popped] by simp
  have 3: "platform_reach sample_teams cfg (?s (?p [] [''s1''] False False DispTop WkWaiting []) (\<lambda>sid. None))"
    using pool_platform_step[OF 2 pool_step.hand_over] by simp
  have "platform_step sample_teams cfg (?s (?p [] [''s1''] False False DispTop WkWaiting []) (\<lambda>sid. None))
      (?s (?p [] [] False False DispTop (WkBusy ''s1'') [''s1'']) ?live)"
    using platform_step.take_job[of "?s (?p [] [''s1''] False False DispTop WkWaiting []) (\<lambda>sid. None)" 0 "''s1''" "[]" sample_teams cfg]
    by (simp add: worker_is_def)
  note 4 = platform_reach.step[OF 3 this]
  have 5: "platform_reach sample_teams cfg (?s (?p [] [] False True DispTop (WkBusy ''s1'') [''s1'']) ?live)"
    using pool_platform_step[OF 4 pool_step.cancel_ctx] by simp
  have 6: "platform_reach sample_teams cfg (?s (?p [] [] True True DispReturned (WkBusy ''s1'') [''s1'']) ?live)"
    using pool_platform_step[OF 5 pool_step.shut_down] by simp
  from platform_reach_inv[OF sample[THEN conjunct1]] sample have "it_table ?w ''s1'' \<noteq> None"
    by (simp add: ids_known_def sample_platform_def Let_def)
  then obtain r where r: "it_table ?w ''s1'' = Some r" by blast
  have "pl_lives (sample_platform cfg) ''s1'' = None" by (simp add: sample_platform_def Let_def)
  with platform_reach_inv[OF sample[THEN conjunct1]] r have "sr_status r = ''PENDING''"
    by (auto simp: ids_known_def sample_platform_def Let_def)
  with 6 r show ?thesis
    by (intro exI[of _ "?s (?p [] [] True True DispReturned (WkBusy ''s1'') [''s1'']) ?live"] exI[of _ r]) (simp add: Run_returned_def)
qed

end
