(* ===== verification/LeaderboardDb.thy ===== *)
theory LeaderboardDb
  imports Leaderboard
begin

text \<open>
  \<open>fetchCurrentLeaderboard\<close> (\<open>leaderboard-service/db.go\<close>), the view of the leaderboard from TimescaleDB. The
  service reads Redis instead; this theory says what the query gives and what it cannot show.
\<close>

section \<open>The query\<close>

text \<open>
  \<open>DISTINCT ON (team_id)\<close> keeps the first row of every group of equal ids; \<open>ordered\<close> is the table in the order
  of \<open>ORDER BY team_id, time DESC\<close>, of which the database picks one when times are equal.
\<close>

record timed_row =
  tr_time :: int
  tr_row :: metrics_row

function distinct_on :: "('a \<Rightarrow> 'k) \<Rightarrow> 'a list \<Rightarrow> 'a list" where
  "distinct_on key [] = []"
| "distinct_on key (x # xs) = x # distinct_on key (dropWhile (\<lambda>y. key y = key x) xs)"
  by pat_completeness auto
termination
  by (relation "measure (length \<circ> snd)") (auto simp: length_dropWhile_le less_Suc_eq_le)

definition row_key :: "timed_row \<Rightarrow> string" where
  "row_key t = row_team_id (tr_row t)"

text \<open>\<open>before\<close> is the order of ids, which depends on the collation of the database.\<close>

definition query_order :: "(string \<Rightarrow> string \<Rightarrow> bool) \<Rightarrow> timed_row list \<Rightarrow> bool" where
  "query_order before ts \<longleftrightarrow>
     sorted_wrt (\<lambda>a b. before (row_key a) (row_key b) \<or> row_key a = row_key b \<and> tr_time b \<le> tr_time a) ts"

text \<open>
  \<open>names\<close> is the outer join: the name of the team of the submission with this id, if there is one. \<open>scans\<close>
  says which rows \<open>Scan\<close> accepts; the columns of the table are not nullable.
\<close>

definition scan_row :: "(string \<Rightarrow> string option) \<Rightarrow> metrics_row \<Rightarrow> metric_message" where
  "scan_row names r =
     \<lparr>mm_SubmissionID = row_team_id r, mm_TeamName = (case names (row_team_id r) of None \<Rightarrow> row_team_id r | Some n \<Rightarrow> n),
      mm_TPS = row_tps r, mm_P50Ms = row_p50 r, mm_P90Ms = row_p90 r, mm_P99Ms = row_p99 r,
      mm_Status = [], mm_IsCorrect = row_is_correct r\<rparr>"

definition fetchCurrentLeaderboard ::
  "(string \<Rightarrow> string option) \<Rightarrow> (metrics_row \<Rightarrow> bool) \<Rightarrow> (metric_message list \<Rightarrow> metric_message list) \<Rightarrow> timed_row list option \<Rightarrow>
     metric_message list option" where
  "fetchCurrentLeaderboard names scans srt ordered =
     (case ordered of
        None \<Rightarrow> None
      | Some ts \<Rightarrow> Some (srt (map (scan_row names) (filter scans (map tr_row (distinct_on row_key ts))))))"

section \<open>The latest row of every submission\<close>

lemma later_groups:
  assumes "query_order before (x # xs)" and "transp before"
    and "z \<in> set (dropWhile (\<lambda>y. row_key y = row_key x) xs)"
  shows "before (row_key x) (row_key z)"
  using assms
proof (induction xs)
  case (Cons y ys)
  show ?case
  proof (cases "row_key y = row_key x")
    case True
    with Cons show ?thesis by (simp add: query_order_def)
  next
    case False
    with Cons.prems have "before (row_key x) (row_key y)" "z = y \<or> before (row_key y) (row_key z) \<or> row_key y = row_key z"
      by (auto simp: query_order_def)
    then show ?thesis using transpD[OF assms(2)] by metis
  qed
qed simp

lemma first_group:
  assumes "query_order before (x # xs)" and "irreflp before" and "u \<in> set xs" and "row_key u = row_key x"
  shows "tr_time u \<le> tr_time x"
  using assms(1,3,4) irreflpD[OF assms(2), of "row_key x"] by (auto simp: query_order_def)

lemma distinct_on_subset: "set (distinct_on key xs) \<subseteq> set xs"
  by (induction key xs rule: distinct_on.induct) (auto dest: set_dropWhileD)

lemma query_order_rest: "query_order before (x # xs) \<Longrightarrow> query_order before (dropWhile Q xs)"
  by (simp add: query_order_def sorted_wrt_dropWhile)

lemma distinct_on_latest:
  assumes "query_order before ts" and "irreflp before" and "transp before"
  shows "row_key ` set (distinct_on row_key ts) = row_key ` set ts \<and> distinct (map row_key (distinct_on row_key ts)) \<and>
    (\<forall>t \<in> set (distinct_on row_key ts). \<forall>u \<in> set ts. row_key u = row_key t \<longrightarrow> tr_time u \<le> tr_time t)"
  using assms(1)
proof (induction "row_key" ts rule: distinct_on.induct)
  case (2 x xs)
  let ?rest = "dropWhile (\<lambda>y. row_key y = row_key x) xs"
  note IH = "2.hyps"[OF query_order_rest[OF "2.prems"]]
  have split: "set xs = set (takeWhile (\<lambda>y. row_key y = row_key x) xs) \<union> set ?rest"
    by (metis set_append takeWhile_dropWhile_id)
  have same: "y \<in> set (takeWhile (\<lambda>y. row_key y = row_key x) xs) \<Longrightarrow> row_key y = row_key x" for y
    by (rule set_takeWhileD[THEN conjunct2])
  have new: "row_key z \<noteq> row_key x" if "z \<in> set ?rest" for z
    using later_groups[OF "2.prems" assms(3) that] irreflpD[OF assms(2), of "row_key x"] by auto
  have sub: "set (distinct_on row_key ?rest) \<subseteq> set ?rest" by (rule distinct_on_subset)
  have "row_key ` set xs = row_key ` set (takeWhile (\<lambda>y. row_key y = row_key x) xs) \<union> row_key ` set ?rest"
    unfolding split by (rule image_Un)
  moreover have "row_key ` set (takeWhile (\<lambda>y. row_key y = row_key x) xs) \<subseteq> {row_key x}" using same by blast
  ultimately have ids: "insert (row_key x) (row_key ` set ?rest) = row_key ` set (x # xs)" by auto
  have eq: "row_key ` set (distinct_on row_key ?rest) = row_key ` set ?rest" using IH by blast
  have "row_key ` set (distinct_on row_key (x # xs)) = insert (row_key x) (row_key ` set (distinct_on row_key ?rest))" by simp
  then have "row_key ` set (distinct_on row_key (x # xs)) = row_key ` set (x # xs)" unfolding eq ids .
  moreover have "distinct (map row_key (distinct_on row_key (x # xs)))"
  proof -
    have "row_key x \<notin> row_key ` set ?rest" using new by (metis imageE)
    moreover have "distinct (map row_key (distinct_on row_key ?rest))" using IH by blast
    ultimately show ?thesis using eq by simp
  qed
  moreover have "tr_time u \<le> tr_time t" if "t \<in> set (distinct_on row_key (x # xs))" "u \<in> set (x # xs)" "row_key u = row_key t" for t u
  proof (cases "t = x")
    case True
    with that first_group[OF "2.prems" assms(2)] show ?thesis by auto
  next
    case False
    with that(1) have t: "t \<in> set (distinct_on row_key ?rest)" by simp
    with sub new[of t] that(3) have u: "row_key u \<noteq> row_key x" by auto
    with that(2) have "u \<in> set xs" by auto
    then have "u \<in> set (takeWhile (\<lambda>y. row_key y = row_key x) xs) \<or> u \<in> set ?rest" by (simp only: split Un_iff)
    with same[of u] u have "u \<in> set ?rest" by argo
    with conjunct2[OF conjunct2[OF IH]] t that(3) show ?thesis by blast
  qed
  ultimately show ?case by blast
qed simp

text \<open>
  The view has one row for each submission, from its latest metrics, in the order of the page; but it only
  knows the boolean, so that it never shows a submission as incorrect.
\<close>

lemma fetchCurrentLeaderboard_rows:
  assumes "query_order before ts" and "irreflp before" and "transp before" and "slice_contract metric_less srt"
    and "fetchCurrentLeaderboard names (\<lambda>r. True) srt (Some ts) = Some rows"
  shows "mm_SubmissionID ` set rows = row_key ` set ts \<and> distinct (map mm_SubmissionID rows) \<and>
    (\<forall>m \<in> set rows. Verdict m \<noteq> ''incorrect'' \<and>
       (\<exists>t \<in> set ts. m = scan_row names (tr_row t) \<and> (\<forall>u \<in> set ts. row_key u = row_key t \<longrightarrow> tr_time u \<le> tr_time t)))"
proof -
  let ?ds = "distinct_on row_key ts"
  note latest = distinct_on_latest[OF assms(1,2,3)]
  have "rows = srt (map (scan_row names \<circ> tr_row) ?ds)" using assms(5) by (simp add: fetchCurrentLeaderboard_def)
  then have "mset rows = mset (map (scan_row names \<circ> tr_row) ?ds)" using assms(4) unfolding slice_contract_def by blast
  note same = this
  have rows: "set rows = (scan_row names \<circ> tr_row) ` set ?ds" using mset_eq_setD[OF same] by simp
  have "mm_SubmissionID \<circ> (scan_row names \<circ> tr_row) = row_key" by (rule ext) (simp add: scan_row_def row_key_def)
  then have ids: "mset (map mm_SubmissionID rows) = mset (map row_key ?ds)"
    unfolding mset_map same[unfolded mset_map] image_mset.compositionality by simp
  from ids latest have "distinct (map mm_SubmissionID rows)" by (metis mset_eq_imp_distinct_iff)
  moreover from ids latest have "mm_SubmissionID ` set rows = row_key ` set ts" by (metis list.set_map mset_eq_setD)
  moreover have "Verdict (scan_row names r) \<noteq> ''incorrect''" for r by (simp add: Verdict_def scan_row_def)
  moreover have "\<exists>t \<in> set ts. m = scan_row names (tr_row t) \<and> (\<forall>u \<in> set ts. row_key u = row_key t \<longrightarrow> tr_time u \<le> tr_time t)"
    if "m \<in> set rows" for m
  proof -
    from that rows obtain t where "t \<in> set ?ds" "m = scan_row names (tr_row t)" by auto
    with latest distinct_on_subset[of row_key ts] show ?thesis by blast
  qed
  ultimately show ?thesis by metis
qed

end
