(* ===== verification/EndToEnd.thy ===== *)
theory EndToEnd
  imports Pipeline Leaderboard Ingester
begin

text \<open>
  The whole path of the telemetry, from the batches of the bots to the row on the screen: the ingester with
  its concurrent streams, the broker, the consumer, router and replay engine, the aggregator, the publisher
  and the leaderboard, each as modelled in its own theory, connected as the services connect them.
\<close>

section \<open>From the ingester to the consumer\<close>

text \<open>What the ingester publishes is what the wire messages of its batches are.\<close>

definition ingested :: "ingester \<Rightarrow> wire_msg list" where
  "ingested g = concat (map batch_messages (ig_received g))"

abbreviation kafka_record :: "(json_fields \<Rightarrow> string) \<Rightarrow> producer \<Rightarrow> wire_msg \<Rightarrow> kgo_record" where
  "kafka_record text kafka \<equiv> wire_record text (pr_orderTopic kafka) (pr_metricsTopic kafka)"

lemma batch_records_messages: "batch_records text (New_server kafka) b = map (kafka_record text kafka) (batch_messages b)"
  by (simp add: batch_records_def publish_batch_sent New_server_def)

text \<open>Nothing is on its way any more, and the broker has refused nothing.\<close>

definition all_written :: "ingester \<Rightarrow> bool" where
  "all_written g \<longleftrightarrow> in_streams (ig_streams g) = {#} \<and> ig_pending g = {#} \<and> ig_refused g = {#}"

lemma ingested_durable:
  assumes "ingester_reach text kafka g" and "all_written g"
  shows "set_mset (ig_durable g) = kafka_record text kafka ` set (ingested g)"
proof -
  have "received_records text kafka (ig_received g) = ig_durable g"
    using ingester_reach_inv[OF assms(1)] assms(2) by (simp add: ingester_inv_def all_written_def)
  then have "set_mset (ig_durable g) = set_mset (received_records text kafka (ig_received g))" by simp
  also have "\<dots> = kafka_record text kafka ` set (ingested g)"
    by (auto simp: received_records_def ingested_def batch_records_messages)
  finally show ?thesis .
qed

lemma ingested_finite:
  "WireEvent e \<in> set (ingested g) \<Longrightarrow> finite_event e"
  "WireMetrics m \<in> set (ingested g) \<Longrightarrow> json_supported (JFloat (pm_AvgLatencyMs m))"
  by (auto simp: ingested_def batch_messages_def split: option.splits if_splits)

text \<open>Two messages with one record are the same to the consumer.\<close>

lemma events_meant_append [simp]: "events_meant (ms @ ms') = events_meant ms @ events_meant ms'"
  by (simp add: events_meant_def)

lemma events_meant_set: "set (events_meant ms) = (\<Union>m \<in> set ms. set (events_meant [m]))"
  by (induction ms) (simp_all add: events_meant_def)

definition wire_ok :: "wire_msg \<Rightarrow> bool" where
  "wire_ok msg \<longleftrightarrow> (\<forall>e. msg = WireEvent e \<longrightarrow> finite_event e) \<and>
     (\<forall>m. msg = WireMetrics m \<longrightarrow> json_supported (JFloat (pm_AvgLatencyMs m)))"

lemma ingested_ok: "msg \<in> set (ingested g) \<Longrightarrow> wire_ok msg"
  using ingested_finite by (auto simp: wire_ok_def)

lemma same_record_same_event:
  assumes "reads_back text parse" and "pr_orderTopic kafka \<noteq> pr_metricsTopic kafka" and "wire_ok a" and "wire_ok b"
    and "kafka_record text kafka a = kafka_record text kafka b"
  shows "events_meant [a] = events_meant [b]"
proof -
  let ?s = "sample_service\<lparr>cs_orderTopic := pr_orderTopic kafka, cs_metricsTopic := pr_metricsTopic kafka\<rparr>"
  have "cs_events (fst (handleRecord parse False (kafka_record text kafka m) ?s)) = events_meant [m]" if "wire_ok m" for m
  proof -
    have "handleRecord parse False (kafka_record text kafka m) ?s =
        (?s\<lparr>cs_events := cs_events ?s @ events_meant [m], cs_metrics := cs_metrics ?s @ batches_meant [m]\<rparr>, None)"
      by (rule handle_wire[OF assms(1,2)]) (use that in \<open>simp_all add: wire_ok_def\<close>)
    then show ?thesis by (simp add: sample_service_def)
  qed
  from this[OF assms(3)] this[OF assms(4)] assms(5) show ?thesis by simp
qed

text \<open>The polls of a consumer that is not cancelled, and the records in them.\<close>

definition undisturbed :: "(bool \<times> (bool \<times> kgo_record) list) list \<Rightarrow> bool" where
  "undisturbed polls \<longleftrightarrow> list_all (\<lambda>(ctxDone, rs). \<not> ctxDone \<and> list_all (\<lambda>(cancelled, r). \<not> cancelled) rs) polls"

definition polled :: "(bool \<times> (bool \<times> kgo_record) list) list \<Rightarrow> kgo_record list" where
  "polled polls = concat (map (map snd \<circ> snd) polls)"

lemma consumer_reads:
  assumes "reads_back text parse" and "pr_orderTopic kafka \<noteq> pr_metricsTopic kafka"
    and "cs_orderTopic service = pr_orderTopic kafka" and "cs_metricsTopic service = pr_metricsTopic kafka"
    and "undisturbed polls" and "set (polled polls) \<subseteq> kafka_record text kafka ` {msg. wire_ok msg \<and> P msg}"
  shows "\<exists>ms. (\<forall>msg \<in> set ms. wire_ok msg \<and> P msg) \<and> polled polls = map (kafka_record text kafka) ms \<and>
    consumer_Run parse polls service =
      (service\<lparr>cs_events := cs_events service @ events_meant ms, cs_metrics := cs_metrics service @ batches_meant ms\<rparr>, None)"
  using assms(3-)
proof (induction polls arbitrary: service)
  case Nil
  then show ?case by (intro exI[of _ "[]"]) (simp add: polled_def events_meant_def batches_meant_def)
next
  case (Cons poll polls)
  obtain d rs where poll: "poll = (d, rs)" by (cases poll)
  have flags: "\<not> d" "\<forall>x \<in> set rs. \<not> fst x" using Cons.prems(3) by (auto simp: undisturbed_def poll list_all_iff)
  have "map (Pair False \<circ> snd) rs = rs" by (rule map_idI) (use flags(2) in \<open>auto simp: prod_eq_iff\<close>)
  with flags(1) have rs: "\<not> d" "rs = map (Pair False) (map snd rs)" by simp_all
  have "set (map snd rs) \<subseteq> kafka_record text kafka ` {msg. wire_ok msg \<and> P msg}"
    using Cons.prems(4) by (auto simp: polled_def poll)
  from map_lists_subset[OF this] obtain ms where ms: "set ms \<subseteq> {msg. wire_ok msg \<and> P msg}"
    "map snd rs = map (kafka_record text kafka) ms" by blast
  let ?s = "service\<lparr>cs_events := cs_events service @ events_meant ms, cs_metrics := cs_metrics service @ batches_meant ms\<rparr>"
  have "each_record parse (map (\<lambda>msg. (False, kafka_record text kafka msg)) ms) None service = (?s, None)"
    by (rule handle_wires[OF assms(1,2) Cons.prems(1,2)]) (use ms(1) in \<open>auto simp: wire_ok_def\<close>)
  moreover have "rs = map (\<lambda>msg. (False, kafka_record text kafka msg)) ms"
    by (subst rs(2), subst ms(2)) (simp add: comp_def)
  ultimately have each: "each_record parse rs None service = (?s, None)" by simp
  obtain ms' where ms': "\<forall>msg \<in> set ms'. wire_ok msg \<and> P msg" "polled polls = map (kafka_record text kafka) ms'"
    "consumer_Run parse polls ?s =
      (?s\<lparr>cs_events := cs_events ?s @ events_meant ms', cs_metrics := cs_metrics ?s @ batches_meant ms'\<rparr>, None)"
    using Cons.IH[of ?s] Cons.prems by (auto simp: undisturbed_def polled_def)
  show ?case
    by (rule exI[of _ "ms @ ms'"])
      (use each ms ms' rs(1) in \<open>auto simp: poll polled_def batches_meant_def\<close>)
qed

text \<open>Every record delivered at least once: the consumer has exactly the events that the batches stand for.\<close>

lemma events_arrive:
  assumes "reads_back text parse" and "pr_orderTopic kafka \<noteq> pr_metricsTopic kafka"
    and "ingester_reach text kafka g" and "all_written g"
    and "undisturbed polls" and "set (polled polls) = set_mset (ig_durable g)"
    and "cs_orderTopic service = pr_orderTopic kafka" and "cs_metricsTopic service = pr_metricsTopic kafka"
    and "cs_events service = []" and "consumer_Run parse polls service = (service', e)"
  shows "e = None \<and> set (cs_events service') = set (events_meant (ingested g))"
proof -
  have recs: "set (polled polls) = kafka_record text kafka ` set (ingested g)"
    using ingested_durable[OF assms(3,4)] assms(6) by simp
  then have "set (polled polls) \<subseteq> kafka_record text kafka ` {msg. wire_ok msg \<and> msg \<in> set (ingested g)}"
    using ingested_ok by auto
  from consumer_reads[OF assms(1,2,7,8,5) this] obtain ms where ms:
    "\<forall>msg \<in> set ms. wire_ok msg \<and> msg \<in> set (ingested g)" "polled polls = map (kafka_record text kafka) ms"
    "consumer_Run parse polls service =
      (service\<lparr>cs_events := cs_events service @ events_meant ms, cs_metrics := cs_metrics service @ batches_meant ms\<rparr>, None)"
    by blast
  have "set (events_meant (ingested g)) \<subseteq> set (events_meant ms)"
  proof
    fix ev assume "ev \<in> set (events_meant (ingested g))"
    then obtain a where a: "a \<in> set (ingested g)" "ev \<in> set (events_meant [a])"
      using events_meant_set[of "ingested g"] by blast
    then have "kafka_record text kafka a \<in> set (map (kafka_record text kafka) ms)" using recs ms(2) by auto
    then obtain b where b: "b \<in> set ms" "kafka_record text kafka a = kafka_record text kafka b" by auto
    then have "events_meant [a] = events_meant [b]"
      using same_record_same_event[OF assms(1,2)] ms(1) ingested_ok a(1) by blast
    with a(2) b(1) show "ev \<in> set (events_meant ms)" using events_meant_set[of ms] by auto
  qed
  moreover have "set (events_meant ms) \<subseteq> set (events_meant (ingested g))"
    using ms(1) events_meant_set[of ms] events_meant_set[of "ingested g"] by blast
  ultimately show ?thesis using ms(3) assms(9,10) by simp
qed

section \<open>From the consumer to the screen\<close>

text \<open>
  A complete run of the checker behind the consumer, which is not cancelled: router and engine have closed
  their channels, the aggregator has received the engine's updates, whatever metrics came between them,
  and closed the channel of scores; \<open>as_out s\<close> are the scores.
\<close>

definition checker_judges ::
  "router \<Rightarrow> nat \<Rightarrow> int \<Rightarrow> order_event list \<Rightarrow> agg_event list \<Rightarrow> agg_sys \<Rightarrow> bool" where
  "checker_judges r workers flushInterval arrivals ags s \<longleftrightarrow>
     (\<exists>rs e. router_run r arrivals rs \<and> rt_phase rs = RtClosed \<and> \<not> rt_ctxDone rs \<and>
        engine_run workers (rt_out rs) e \<and> en_phase e = Closed \<and> \<not> en_ctxDone e \<and>
        agg_run flushInterval ags s \<and> updates_in ags = en_updates e \<and> as_phase s = AgClosed None)"

lemma last_scores_filter:
  "scores_for sid (last_scores scs) = (if scores_for sid scs = [] then [] else [last (scores_for sid scs)])"
proof -
  let ?f = "\<lambda>sid. last (scores_for sid scs)"
  have "filter (\<lambda>x. sc_submissionID (?f x) = sid) (remdups (map sc_submissionID scs)) =
      filter (\<lambda>x. x = sid) (remdups (map sc_submissionID scs))"
    by (rule filter_cong) (use last_score_of(3)[of _ scs] in auto)
  then have "scores_for sid (last_scores scs) = map ?f (filter (\<lambda>x. x = sid) (remdups (map sc_submissionID scs)))"
    by (simp add: last_scores_def filter_map comp_def)
  also have "filter (\<lambda>x. x = sid) (remdups (map sc_submissionID scs)) =
      (if scores_for sid scs = [] then [] else [sid])"
    by (induction scs) (auto simp: filter_empty_conv)
  finally show ?thesis by simp
qed

lemma one_row:
  assumes "mset rows = mset (map row_of (last_scores scs))" and "scores_for sid scs \<noteq> []"
  shows "filter (\<lambda>m. mm_SubmissionID m = sid) rows = [row_of (last (scores_for sid scs))]"
proof -
  have "mset (filter (\<lambda>m. mm_SubmissionID m = sid) rows) = mset (map row_of (scores_for sid (last_scores scs)))"
    using assms(1) by (simp add: filter_mset_image_mset row_of_def image_mset.compositionality)
  also have "\<dots> = {#row_of (last (scores_for sid scs))#}" using assms(2) by (simp add: last_scores_filter)
  finally show ?thesis unfolding mset_single_iff .
qed

lemma checker_judges_correct:
  assumes "checker_judges r workers flushInterval arrivals ags s" and "honest h evs" and "length evs < 2 ^ 50" and "sid \<noteq> []"
    and "sub_events sid arrivals = body @ [fin]" and "set (body @ [fin]) = set evs" and "ev_endOfRun fin"
    and "\<forall>ev \<in> set body. \<not> ev_endOfRun ev \<and> ev_eventTimestamp ev \<le> ev_eventTimestamp fin"
    and "int (length body) + 1 < 2 ^ 64"
  shows "agg_run flushInterval ags s \<and> scores_for sid (as_out s) \<noteq> [] \<and>
    sc_verdict (last (scores_for sid (as_out s))) = VerdictCorrect"
proof -
  obtain rs e where run: "router_run r arrivals rs" "rt_phase rs = RtClosed" "\<not> rt_ctxDone rs"
    "engine_run workers (rt_out rs) e" "en_phase e = Closed" "\<not> en_ctxDone e"
    and agg: "agg_run flushInterval ags s" "updates_in ags = en_updates e" "as_phase s = AgClosed None"
    using assms(1) unfolding checker_judges_def by blast
  have only: "filter (\<lambda>u. cu_submissionID u = sid) (updates_in ags) =
      [\<lparr>cu_submissionID = sid, cu_verdict = VerdictCorrect, cu_reason = []\<rparr>]"
    unfolding agg(2) by (rule pipeline_verdict[OF assms(2-9) run])
  then have "current_verdict sid ags = VerdictCorrect"
    using assms(4) by (simp add: current_verdict_def verdicts_for_updates)
  moreover have "sid \<in> cu_submissionID ` set (updates_in ags)"
  proof -
    have "\<lparr>cu_submissionID = sid, cu_verdict = VerdictCorrect, cu_reason = []\<rparr> \<in> set (filter (\<lambda>u. cu_submissionID u = sid) (updates_in ags))"
      unfolding only by simp
    then show ?thesis by force
  qed
  ultimately show ?thesis using last_score_current[OF agg(1) _ assms(4)] agg(1,3) by (auto simp: shows_current_def)
qed

text \<open>No stage behind the consumer can get stuck: every arrival can be judged and scored.\<close>

lemma checker_can_judge:
  assumes "volumes_ok arrivals" and "0 < workers"
  shows "\<exists>ags s. checker_judges r workers flushInterval arrivals ags s"
proof -
  obtain rs where rs: "router_run r arrivals rs" "rt_phase rs = RtClosed" "\<not> rt_ctxDone rs"
    using router_can_finish[OF worker_capacity_pos] by blast
  have "volumes_ok (rt_out rs)" using router_out_set[OF rs(1,3,2)] assms(1) by (auto simp: volumes_ok_def)
  then obtain e where e: "engine_run workers (rt_out rs) e" "en_phase e = Closed" "\<not> en_ctxDone e"
    using engine_can_finish assms(2) by blast
  obtain ags s where "agg_run flushInterval ags s" "updates_in ags = en_updates e" "as_phase s = AgClosed None"
    using agg_can_finish by blast
  with rs e show ?thesis unfolding checker_judges_def by blast
qed


section \<open>A run from end to end\<close>

text \<open>The ingester can publish any batch; the broker writes every record.\<close>

lemma ingester_publishes:
  assumes "ingester_reach text kafka g" and "ig_streams g = [StreamPublishing rs m]" and "ig_pending g = {#}" and "ig_refused g = {#}"
  shows "\<exists>g'. ingester_reach text kafka g' \<and> all_written g' \<and> ig_received g' = ig_received g"
  using assms
proof (induction rs arbitrary: g)
  case Nil
  then show ?case by (intro exI[of _ g]) (simp add: all_written_def in_streams_def)
next
  case (Cons x rs)
  let ?g1 = "set_stream 0 (StreamPublishing rs m) (g\<lparr>ig_server := hand_over x (ig_server g), ig_pending := add_mset x (ig_pending g)\<rparr>)"
  let ?g2 = "?g1\<lparr>ig_pending := ig_pending ?g1 - {#x#}, ig_durable := add_mset x (ig_durable ?g1)\<rparr>"
  have "ingester_step text g ?g1" by (rule ingester_step.publish) (simp_all add: Cons.prems(2))
  moreover have "ingester_step text ?g1 ?g2" by (rule ingester_step.promise) (simp add: set_stream_def)
  ultimately have "ingester_reach text kafka ?g2" using Cons.prems(1) ingester_reach.step by blast
  from Cons.IH[OF this] Cons.prems show ?case by (simp add: set_stream_def)
qed

lemma ingester_takes:
  "\<exists>g. ingester_reach text kafka g \<and> all_written g \<and> ig_received g = [b]"
proof -
  let ?g0 = "ingester_started kafka"
  let ?g1 = "?g0\<lparr>ig_streams := ig_streams ?g0 @ [StreamReceiving], ig_counts := ig_counts ?g0 @ [0]\<rparr>"
  let ?g2 = "set_stream 0 (StreamPublishing (batch_records text (ig_server ?g1) b) (ab_Metrics b))
      (?g1\<lparr>ig_server := (ig_server ?g1)\<lparr>ts_batchesTotal := i64 (ts_batchesTotal (ig_server ?g1) + 1)\<rparr>,
         ig_counts := (ig_counts ?g1)[0 := i64 (ig_counts ?g1 ! 0 + 1)], ig_received := ig_received ?g1 @ [b]\<rparr>)"
  have "ingester_step text ?g0 ?g1" by (rule ingester_step.open_stream) (simp add: ingester_started_def)
  moreover have "ingester_step text ?g1 ?g2" by (rule ingester_step.receive) (simp_all add: ingester_started_def)
  ultimately have reach: "ingester_reach text kafka ?g2" using ingester_reach.start ingester_reach.step by blast
  have "ig_streams ?g2 = [StreamPublishing (batch_records text (ig_server ?g1) b) (ab_Metrics b)]"
    "ig_pending ?g2 = {#}" "ig_refused ?g2 = {#}" "ig_received ?g2 = [b]"
    by (simp_all add: set_stream_def ingester_started_def)
  with ingester_publishes[OF reach this(1-3)] show ?thesis by metis
qed

text \<open>The sample stream as the bots report it: two orders, their trade and the end of the run.\<close>

definition crossing_intent :: "string \<Rightarrow> string \<Rightarrow> int \<Rightarrow> int \<Rightarrow> int \<Rightarrow> pb_order" where
  "crossing_intent orderID side ticks n server =
     \<lparr>po_TimestampUs = 0, po_SubmissionId = ''s'', po_OrderId = orderID, po_Action = ''LIMIT'', po_Side = side, po_Ticker = ''T'',
      po_Price = price_of_ticks ticks, po_Quantity = 5, po_CancelTargetId = 0, po_Seq = n, po_ContestantOrderId = server,
      po_EndOfRun = False, po_Outcome = 0\<rparr>"

definition run_over :: pb_order where
  "run_over =
     \<lparr>po_TimestampUs = 0, po_SubmissionId = ''s'', po_OrderId = [], po_Action = [], po_Side = [], po_Ticker = [],
      po_Price = Fin 0, po_Quantity = 0, po_CancelTargetId = 0, po_Seq = 4, po_ContestantOrderId = 0,
      po_EndOfRun = True, po_Outcome = 0\<rparr>"

definition crossing_trade :: pb_trade where
  "crossing_trade =
     \<lparr>pt_TimestampUs = 0, pt_SubmissionId = ''s'', pt_ContestantOrderId = 12, pt_MatchedOrderId = 11,
      pt_ExecutionPrice = price_of_ticks 10000, pt_ExecutionQuantity = 5, pt_Ticker = ''T'', pt_AggressorOrderId = ''x'', pt_Seq = 3\<rparr>"

definition crossing_orders :: "pb_order list" where
  "crossing_orders = [crossing_intent ''a1'' ''SELL'' 10000 1 11, crossing_intent ''x'' ''BUY'' 10100 2 12, run_over]"

definition crossing_batch :: audit_batch where
  "crossing_batch = \<lparr>ab_Orders = crossing_orders, ab_Trades = [crossing_trade], ab_Metrics = None\<rparr>"

definition crossing_events :: "order_event list" where
  "crossing_events = map (named ''s'') [sample_stream ! 0, sample_stream ! 1,
     (sample_stream ! 2)\<lparr>ev_orderID := ''12'', ev_contestantOrderID := 12\<rparr>, sample_stream ! 3]"

definition crossing_messages :: "wire_msg list" where
  "crossing_messages = WireEvent (trade_out crossing_trade) # map (WireEvent \<circ> order_out) crossing_orders"

lemma price_finite: "json_supported (JFloat (price_of_ticks 10000))" "json_supported (JFloat (price_of_ticks 10100))"
proof -
  have "finite_f64 (price_of_ticks 10000)" "finite_f64 (price_of_ticks 10100)"
    unfolding price_of_ticks_def by (rule rnd_finite; simp)+
  then show "json_supported (JFloat (price_of_ticks 10000))" "json_supported (JFloat (price_of_ticks 10100))"
    by (auto simp: finite_f64_Fin)
qed

lemmas crossing_defs = crossing_orders_def crossing_trade_def crossing_intent_def run_over_def order_out_def trade_out_def
  zero_out_event_def outcomeString_def Let_def

lemma crossing_finite: "\<forall>msg \<in> set crossing_messages. wire_ok msg"
  using price_finite by (simp add: crossing_messages_def crossing_defs wire_ok_def finite_event_def)

lemma crossing_ingested: "ig_received g = [crossing_batch] \<Longrightarrow> set (ingested g) = set crossing_messages"
  using price_finite
  by (auto simp: ingested_def crossing_batch_def batch_messages_def crossing_messages_def crossing_defs finite_event_def)

lemma fmt_d_12: "fmt_d 12 = ''12''"
  by code_simp

lemma crossing_meant:
  "events_meant crossing_messages = crossing_events ! 2 # take 2 crossing_events @ [crossing_events ! 3]"
  by (simp add: crossing_messages_def crossing_defs events_meant_def event_meant_def crossing_events_def named_def
      sample_stream_def zero_event_def normalizeEpochMicros_def fmt_d_12 numeral_2_eq_2)

lemma crossing_honest: "\<exists>h. honest h crossing_events"
  using sample_honest_fill[where a = "''12''" and c = 12] honest_named unfolding crossing_events_def by blast

definition crossing_polls :: "(bool \<times> (bool \<times> kgo_record) list) list" where
  "crossing_polls = [(False, map (Pair False) (map (kafka_record unary_text (ts_producer sample_server)) crossing_messages))]"

lemma crossing_polled:
  "undisturbed crossing_polls"
  "polled crossing_polls = map (kafka_record unary_text (ts_producer sample_server)) crossing_messages"
  by (simp_all add: crossing_polls_def undisturbed_def polled_def list_all_iff comp_def)

lemma sample_topics:
  "pr_orderTopic (ts_producer sample_server) \<noteq> pr_metricsTopic (ts_producer sample_server)"
  "cs_orderTopic sample_service = pr_orderTopic (ts_producer sample_server)"
  "cs_metricsTopic sample_service = pr_metricsTopic (ts_producer sample_server)"
  "cs_events sample_service = []"
  by (simp_all add: sample_server_def sample_service_def)

lemma crossing_consumed:
  "\<exists>service'. consumer_Run unary_parse crossing_polls sample_service = (service', None) \<and>
     cs_events service' = events_meant crossing_messages"
proof -
  let ?s = "sample_service\<lparr>cs_events := cs_events sample_service @ events_meant crossing_messages,
      cs_metrics := cs_metrics sample_service @ batches_meant crossing_messages\<rparr>"
  have "each_record unary_parse (map (\<lambda>msg. (False, kafka_record unary_text (ts_producer sample_server) msg)) crossing_messages)
      None sample_service = (?s, None)"
    by (rule handle_wires[OF unary_reads_back sample_topics(1-3)]) (use crossing_finite in \<open>auto simp: wire_ok_def\<close>)
  then have "consumer_Run unary_parse crossing_polls sample_service = (?s, None)" by (simp add: crossing_polls_def comp_def)
  then show ?thesis by (simp add: sample_topics(4))
qed

lemma crossing_arrival:
  "sub_events ''s'' (events_meant crossing_messages) = (crossing_events ! 2 # take 2 crossing_events) @ [crossing_events ! 3]"
  "set (sub_events ''s'' (events_meant crossing_messages)) = set crossing_events"
  "ev_endOfRun (crossing_events ! 3)"
  "\<forall>ev \<in> set (crossing_events ! 2 # take 2 crossing_events).
     \<not> ev_endOfRun ev \<and> ev_eventTimestamp ev \<le> ev_eventTimestamp (crossing_events ! 3)"
  "volumes_ok (events_meant crossing_messages)"
  by (auto simp: crossing_meant crossing_events_def sample_stream_def zero_event_def numeral_2_eq_2 named_def volumes_ok_def in_i64_def)


end
